(* ===== verification/Prelude.thy ===== *)
theory Prelude
  imports Main "HOL-Library.Word" "HOL-Library.Multiset"
begin

text \<open>
  Shared vocabulary of the development.

  A Go call that returns \<open>(T, error)\<close> is a value of type \<open>'a go\<close>: it returns a value,
  returns an error, or panics (nil dereference, index out of range), which in Go ends the
  whole process. Error values keep the kind the source builds (\<open>errors.NewNotFound\<close>,
  \<open>io.EOF\<close>, \<open>ctx.Err()\<close>, ...), not the rendered message text. A pointer to a message is an
  option, \<open>None\<close> being nil; the nil-safe getters that protobuf generates are \<open>nil_get\<close>.
  A Go map is a partial function with finite domain, and a \<open>range\<close> over it visits the keys
  in an order the language leaves open: that order is an explicit argument of every
  definition that ranges over a map, constrained by \<open>range_order\<close>.
\<close>

named_theorems go_simps \<open>evaluation of calls that return, fail or panic\<close>
named_theorems store_simps \<open>what the store operations do to each field\<close>
named_theorems step_intros \<open>introduction rules of the step relations\<close>

datatype go_error =
    NotFound | NotSupported | Unavailable | EOF | Canceled | External string

datatype 'a go = Ret 'a | Fail go_error | Panic

type_synonym byte = "8 word"
type_synonym uint64 = "64 word"
type_synonym node_id = string
type_synonym uuid = nat
type_synonym chan = nat

primrec go_bind :: "'a go \<Rightarrow> ('a \<Rightarrow> 'b go) \<Rightarrow> 'b go" where
  "go_bind (Ret x) f = f x"
| "go_bind (Fail e) f = Fail e"
| "go_bind Panic f = Panic"

lemma go_bind_eq_Ret [go_simps]:
  "go_bind m f = Ret y \<longleftrightarrow> (\<exists>x. m = Ret x \<and> f x = Ret y)"
  by (cases m) auto

lemma go_bind_eq_Panic [go_simps]:
  "go_bind m f = Panic \<longleftrightarrow> m = Panic \<or> (\<exists>x. m = Ret x \<and> f x = Panic)"
  by (cases m) auto

lemma go_bind_assoc: "go_bind (go_bind m f) g = go_bind m (\<lambda>x. go_bind (f x) g)"
  by (cases m) auto

definition go_fail :: "go_error + 'a \<Rightarrow> 'a go" where
  "go_fail r = (case r of Inl e \<Rightarrow> Fail e | Inr x \<Rightarrow> Ret x)"

lemma go_fail_simps [simp]: "go_fail (Inl e) = Fail e" "go_fail (Inr x) = Ret x"
  by (simp_all add: go_fail_def)

lemma go_fail_not_Panic [simp]: "go_fail r \<noteq> Panic"
  by (cases r) auto

text \<open>Calls that return a value or an error and do not panic.\<close>

definition err_bind :: "go_error + 'a \<Rightarrow> ('a \<Rightarrow> go_error + 'b) \<Rightarrow> go_error + 'b" where
  "err_bind m f = (case m of Inl e \<Rightarrow> Inl e | Inr x \<Rightarrow> f x)"

lemma err_bind_simps [simp]: "err_bind (Inl e) f = Inl e" "err_bind (Inr x) f = f x"
  by (simp_all add: err_bind_def)

lemma err_bind_eq_Inr [go_simps]: "err_bind m f = Inr y \<longleftrightarrow> (\<exists>x. m = Inr x \<and> f x = Inr y)"
  by (cases m) auto

text \<open>\<open>err = x.Validate(); if err != nil ...\<close>\<close>

definition err_check :: "go_error option \<Rightarrow> go_error + 'b \<Rightarrow> go_error + 'b" where
  "err_check r k = (case r of Some e \<Rightarrow> Inl e | None \<Rightarrow> k)"

lemma err_check_simps [simp]: "err_check (Some e) k = Inl e" "err_check None k = k"
  by (simp_all add: err_check_def)

lemma err_check_eq_Inr [go_simps]: "err_check r k = Inr y \<longleftrightarrow> r = None \<and> k = Inr y"
  by (cases r) auto

text \<open>Dereferencing a pointer panics on nil; the generated getters return the zero value.\<close>

definition deref :: "'a option \<Rightarrow> 'a go" where
  "deref p = (case p of None \<Rightarrow> Panic | Some x \<Rightarrow> Ret x)"

lemma deref_simps [simp]: "deref None = Panic" "deref (Some x) = Ret x"
  by (simp_all add: deref_def)

definition nil_get :: "'b \<Rightarrow> ('a \<Rightarrow> 'b) \<Rightarrow> 'a option \<Rightarrow> 'b" where
  "nil_get z f p = (case p of None \<Rightarrow> z | Some x \<Rightarrow> f x)"

lemma nil_get_simps [simp]: "nil_get z f None = z" "nil_get z f (Some x) = f x"
  by (simp_all add: nil_get_def)

text \<open>\<open>xs[0]\<close> panics on an empty slice.\<close>

definition index0 :: "'a list \<Rightarrow> 'a go" where
  "index0 xs = (case xs of [] \<Rightarrow> Panic | x # _ \<Rightarrow> Ret x)"

lemma index0_simps [simp]: "index0 [] = Panic" "index0 (x # xs) = Ret x"
  by (simp_all add: index0_def)

lemma index0_eq_Ret [go_simps]: "index0 xs = Ret x \<longleftrightarrow> (\<exists>ys. xs = x # ys)"
  by (cases xs) auto

lemma index0_eq_Panic [go_simps]: "index0 xs = Panic \<longleftrightarrow> xs = []"
  by (cases xs) auto

lemma index0_not_Fail [simp]: "index0 xs \<noteq> Fail e"
  by (cases xs) auto

text \<open>The orders in which \<open>range\<close> may visit the keys of a map.\<close>

definition range_order :: "('k \<rightharpoonup> 'v) \<Rightarrow> 'k list \<Rightarrow> bool" where
  "range_order m ks \<longleftrightarrow> distinct ks \<and> set ks = dom m"

definition ranged :: "('k \<rightharpoonup> 'v) \<Rightarrow> 'k list \<Rightarrow> 'v list" where
  "ranged m ks = List.map_filter m ks"

lemma ranged_simps [simp]:
  "ranged m [] = []"
  "ranged m (k # ks) = (case m k of None \<Rightarrow> ranged m ks | Some v \<Rightarrow> v # ranged m ks)"
  by (auto simp: ranged_def List.map_filter_def split: option.splits)

lemma set_ranged: "set (ranged m ks) = {v. \<exists>k \<in> set ks. m k = Some v}"
  by (induction ks) (auto split: option.splits)

lemma set_ranged_order: "range_order m ks \<Longrightarrow> set (ranged m ks) = ran m"
  by (auto simp: set_ranged range_order_def ran_def)

lemma range_order_mset: "range_order m xs \<Longrightarrow> range_order m ys \<Longrightarrow> mset xs = mset ys"
  using set_eq_iff_mset_eq_distinct [of xs ys] by (simp add: range_order_def)

lemma mset_ranged: "mset xs = mset ys \<Longrightarrow> mset (ranged m xs) = mset (ranged m ys)"
  by (simp add: ranged_def List.map_filter_def flip: mset_map) (simp add: mset_filter)

lemma range_order_finite: "range_order m ks \<Longrightarrow> finite (dom m)"
  unfolding range_order_def by (metis List.finite_set)

lemma range_order_exists: "finite (dom m) \<Longrightarrow> \<exists>ks. range_order m ks"
  using finite_distinct_list [of "dom m"] by (auto simp: range_order_def)

lemma length_ranged: "range_order m ks \<Longrightarrow> length (ranged m ks) = card (dom m)"
proof -
  assume r: "range_order m ks"
  have "set ks \<subseteq> dom m \<Longrightarrow> length (ranged m ks) = length ks"
    by (induction ks) (auto split: option.splits)
  with r distinct_card [of ks] show ?thesis by (simp add: range_order_def)
qed

text \<open>Updating one slot of a list of process states.\<close>

lemma nth_list_update_split:
  "i < length xs \<Longrightarrow> P (xs[i := x] ! j) \<longleftrightarrow> (if i = j then P x else P (xs ! j))"
  by simp

lemma set_list_updateD: "y \<in> set (xs[i := x]) \<Longrightarrow> y = x \<or> y \<in> set xs"
  using set_update_subset_insert by fastforce

lemma map_update_same: "f y = f (xs ! i) \<Longrightarrow> map f (xs[i := y]) = map f xs"
  by (metis list_update_id map_update)

end
