(* ===== verification/Ue_Id.thy ===== *)
theory Ue_Id
  imports Prelude
begin

text \<open>
  \<open>pkg/utils/id/id.go\<close>: the store key of a gNB UE identifier.

  \<open>UeidGnb\<close> and the messages nested in it are generated by protobuf and not part of the
  repository; the records below hold the fields that the source reads, so an identifier stands for all
  those that agree in them; a pointer is an option. A bit string keeps its octets only (the code never reads its length field). The
  AMF UE NGAP identifier is the Go integer of the generated type: it is formatted with
  \<open>%x\<close> and \<open>%d\<close>, which print its mathematical value whatever the width is.
\<close>

type_synonym octets = "byte list"

record guami =
  PLmnidentity :: "octets option"
  AMfregionId :: "octets option option"
  AMfsetId :: "octets option option"
  AMfpointer :: "octets option option"

record ueid_gnb =
  Guami :: "guami option"
  AmfUeNgapId :: "int option"

text \<open>The UE identifier choice; only the gNB alternative is used.\<close>

datatype ueid = GNbUeid "ueid_gnb option" | OtherUeid | UeidUnset

definition GetGNbUeid :: "ueid option \<Rightarrow> ueid_gnb option" where
  "GetGNbUeid u = (case u of Some (GNbUeid g) \<Rightarrow> g | _ \<Rightarrow> None)"

definition GetPLmnidentity :: "ueid_gnb \<Rightarrow> octets" where
  "GetPLmnidentity u = nil_get [] id (nil_get None PLmnidentity (Guami u))"

definition GetAMfregionId :: "ueid_gnb \<Rightarrow> octets" where
  "GetAMfregionId u = nil_get [] id (nil_get None id (nil_get None AMfregionId (Guami u)))"

definition GetAMfsetId :: "ueid_gnb \<Rightarrow> octets" where
  "GetAMfsetId u = nil_get [] id (nil_get None id (nil_get None AMfsetId (Guami u)))"

definition GetAMfpointer :: "ueid_gnb \<Rightarrow> octets" where
  "GetAMfpointer u = nil_get [] id (nil_get None id (nil_get None AMfpointer (Guami u)))"

definition GetAmfUeNgapId :: "ueid_gnb \<Rightarrow> int" where
  "GetAmfUeNgapId u = nil_get 0 id (AmfUeNgapId u)"

lemmas ue_getters =
  GetPLmnidentity_def GetAMfregionId_def GetAMfsetId_def GetAMfpointer_def GetAmfUeNgapId_def

subsection \<open>Octets to a machine word\<close>

text \<open>Each turn shifts the 64-bit accumulator left by eight and adds the octet; bits
  shifted out at the top are lost.\<close>

definition bytesToUint64 :: "octets \<Rightarrow> uint64" where
  "bytesToUint64 b = foldl (\<lambda>result e. push_bit 8 result + ucast e) 0 b"

primrec be_nat :: "nat \<Rightarrow> octets \<Rightarrow> nat" where
  "be_nat acc [] = acc"
| "be_nat acc (b # bs) = be_nat (acc * 256 + unat b) bs"

lemma unat_ucast_byte: "unat (ucast (b :: byte) :: uint64) = unat b"
proof -
  have "(take_bit 8 (unat b) :: nat) = unat b"
    using unsigned_less [of b, where ?'a = nat] by (simp add: take_bit_nat_eq_self_iff)
  then show ?thesis
    using unsigned_less [of b, where ?'a = nat]
    by (simp add: unsigned_ucast_eq take_bit_nat_eq_self_iff)
qed

lemma be_nat_mod: "be_nat (acc mod 2 ^ 64) bs mod 2 ^ 64 = be_nat acc bs mod 2 ^ 64"
proof (induction bs arbitrary: acc)
  case Nil
  then show ?case by simp
next
  case (Cons b bs)
  have "((acc mod 2 ^ 64) * 256 + unat b) mod 2 ^ 64 = (acc * 256 + unat b) mod 2 ^ 64"
    by (metis mod_add_left_eq mod_mult_left_eq)
  then show ?case
    using Cons.IH [of "(acc mod 2 ^ 64) * 256 + unat b"] Cons.IH [of "acc * 256 + unat b"]
    by simp
qed

lemma foldl_bytes_nat:
  "unat (foldl (\<lambda>result e. push_bit 8 result + ucast e) (r :: uint64) b)
     = be_nat (unat r) b mod 2 ^ 64"
proof (induction b arbitrary: r)
  case Nil
  then show ?case using unsigned_less [of r, where ?'a = nat] by simp
next
  case (Cons e b)
  have "unat (push_bit 8 r + ucast e) = (unat r * 256 + unat e) mod 2 ^ 64"
    by (simp add: unat_word_ariths unat_ucast_byte push_bit_eq_mult mod_simps mult.commute)
  with Cons.IH [of "push_bit 8 r + ucast e"] show ?case
    by (simp only: foldl.simps be_nat.simps be_nat_mod)
qed

lemma unat_bytesToUint64: "unat (bytesToUint64 b) = be_nat 0 b mod 2 ^ 64"
  by (simp add: bytesToUint64_def foldl_bytes_nat)

lemma be_nat_shift: "be_nat acc bs = acc * 256 ^ length bs + be_nat 0 bs"
proof (induction bs arbitrary: acc)
  case Nil
  then show ?case by simp
next
  case (Cons b bs)
  show ?case
    using Cons.IH [of "acc * 256 + unat b"] Cons.IH [of "unat b"]
    by (simp add: algebra_simps)
qed

lemma be_nat_bound: "be_nat 0 bs < 256 ^ length bs"
proof (induction bs)
  case Nil
  then show ?case by simp
next
  case (Cons b bs)
  have "unat b < 256" using unsigned_less [of b, where ?'a = nat] by simp
  then have "(unat b + 1) * 256 ^ length bs \<le> 256 * (256 :: nat) ^ length bs"
    by (intro mult_right_mono) auto
  then have "unat b * 256 ^ length bs + 256 ^ length bs \<le> 256 * (256 :: nat) ^ length bs"
    by (simp only: add_mult_distrib mult_1)
  moreover have "be_nat 0 (b # bs) = unat b * 256 ^ length bs + be_nat 0 bs"
    using be_nat_shift [of "unat b" bs] by simp
  ultimately have "be_nat 0 (b # bs) < 256 * 256 ^ length bs" using Cons.IH by linarith
  then show ?case by simp
qed

lemma be_nat_inj: "length xs = length ys \<Longrightarrow> be_nat 0 xs = be_nat 0 ys \<Longrightarrow> xs = ys"
proof (induction xs ys rule: list_induct2)
  case Nil
  then show ?case by simp
next
  case (Cons x xs y ys)
  let ?B = "256 ^ length xs :: nat"
  have eq: "unat x * ?B + be_nat 0 xs = unat y * ?B + be_nat 0 ys"
    using Cons.prems be_nat_shift [of "unat x" xs] be_nat_shift [of "unat y" ys] Cons.hyps
    by simp
  have lt: "be_nat 0 xs < ?B" "be_nat 0 ys < ?B"
    using be_nat_bound [of xs] be_nat_bound [of ys] Cons.hyps by simp_all
  have "(unat x * ?B + be_nat 0 xs) div ?B = unat x" "(unat y * ?B + be_nat 0 ys) div ?B = unat y"
    using lt by simp_all
  with eq have xy: "unat x = unat y" by metis
  with eq Cons.IH have "xs = ys" by simp
  with xy show ?case by (simp add: word_unat_eq_iff)
qed

lemma bytesToUint64_eqD:
  assumes "bytesToUint64 xs = bytesToUint64 ys" "length xs = length ys" "length xs \<le> 8"
  shows "xs = ys"
proof -
  have "(256 :: nat) ^ length xs \<le> 256 ^ 8"
    using assms(3) by (intro power_increasing) auto
  then have "be_nat 0 xs < 2 ^ 64" "be_nat 0 ys < 2 ^ 64"
    using be_nat_bound [of xs] be_nat_bound [of ys] assms(2) by simp_all
  with assms(1) have "be_nat 0 xs = be_nat 0 ys"
    by (metis mod_less unat_bytesToUint64)
  with assms(2) show ?thesis by (rule be_nat_inj)
qed

subsection \<open>The \<open>%x\<close> verb\<close>

text \<open>\<open>fmt\<close> prints an unsigned integer in the base of the verb (16 for \<open>%x\<close>, in lower case, and
  10 for \<open>%d\<close>) without leading zeros, and a negative integer as a minus sign and its magnitude.\<close>

definition digit :: "nat \<Rightarrow> char" where
  "digit d = ''0123456789abcdef'' ! (d mod 16)"

fun show_base :: "nat \<Rightarrow> nat \<Rightarrow> string" where
  "show_base b n =
     (if n < b \<or> b < 2 then [digit n] else show_base b (n div b) @ [digit (n mod b)])"

declare show_base.simps [simp del]

definition hex_nat :: "nat \<Rightarrow> string" where
  "hex_nat n = show_base 16 n"

definition show_int :: "nat \<Rightarrow> int \<Rightarrow> string" where
  "show_int b i = (if i < 0 then CHR ''-'' # show_base b (nat (- i)) else show_base b (nat i))"

definition hex_int :: "int \<Rightarrow> string" where
  "hex_int i = show_int 16 i"

definition dec_int :: "int \<Rightarrow> string" where
  "dec_int i = show_int 10 i"

text \<open>Reading a numeral back.\<close>

definition digit_val :: "char \<Rightarrow> nat" where
  "digit_val c = length (takeWhile (\<lambda>x. x \<noteq> c) ''0123456789abcdef'')"

definition base_val :: "nat \<Rightarrow> string \<Rightarrow> nat" where
  "base_val b s = foldl (\<lambda>a c. a * b + digit_val c) 0 s"

lemma digit_cases:
  "digit d \<in> set ''0123456789abcdef''" "digit_val (digit d) = d mod 16"
proof -
  have all: "\<forall>d \<in> set [0..<16]. digit d \<in> set ''0123456789abcdef'' \<and> digit_val (digit d) = d"
    by code_simp
  have "digit d = digit (d mod 16)" by (simp add: digit_def)
  moreover have "d mod 16 \<in> set [0..<16]" by simp
  ultimately show "digit d \<in> set ''0123456789abcdef''" "digit_val (digit d) = d mod 16"
    using all by metis+
qed

lemma digit_val_small: "d < 16 \<Longrightarrow> digit_val (digit d) = d"
  by (simp add: digit_cases)

lemma base_val_show_base: "2 \<le> b \<Longrightarrow> b \<le> 16 \<Longrightarrow> base_val b (show_base b n) = n"
proof (induction b n rule: show_base.induct)
  case (1 b n)
  show ?case
  proof (cases "n < b")
    case True
    with 1 show ?thesis by (simp add: show_base.simps [of b n] base_val_def digit_val_small)
  next
    case False
    have "n mod b < 16" using "1.prems" mod_less_divisor [of b n] by linarith
    with False 1 show ?thesis
      by (simp add: show_base.simps [of b n] base_val_def digit_val_small)
  qed
qed

lemma show_base_inj: "2 \<le> b \<Longrightarrow> b \<le> 16 \<Longrightarrow> show_base b m = show_base b n \<longleftrightarrow> m = n"
  by (metis base_val_show_base)

lemma set_show_base: "set (show_base b n) \<subseteq> set ''0123456789abcdef''"
proof (induction b n rule: show_base.induct)
  case (1 b n)
  then show ?case
    using digit_cases(1) [of n] digit_cases(1) [of "n mod b"]
    by (subst show_base.simps) (simp del: list.set(2) add: list.set(2) [of _ "[]"])
qed

lemma show_base_chars [simp]: "CHR ''/'' \<notin> set (show_base b n)" "CHR ''-'' \<notin> set (show_base b n)"
  using set_show_base [of b n] by auto

lemma show_base_not_minus: "show_base b n \<noteq> CHR ''-'' # s"
  by (metis show_base_chars(2) list.set_intros(1))

lemma show_int_inj: "2 \<le> b \<Longrightarrow> b \<le> 16 \<Longrightarrow> show_int b i = show_int b j \<longleftrightarrow> i = j"
  by (auto simp: show_int_def show_base_inj show_base_not_minus show_base_not_minus [symmetric])

lemma hex_nat_inj: "hex_nat m = hex_nat n \<longleftrightarrow> m = n"
  by (simp add: hex_nat_def show_base_inj)

lemma hex_nat_chars [simp]: "CHR ''/'' \<notin> set (hex_nat n)"
  by (simp add: hex_nat_def)

lemma hex_int_inj: "hex_int i = hex_int j \<longleftrightarrow> i = j"
  by (simp add: hex_int_def show_int_inj)

lemma dec_int_inj: "dec_int i = dec_int j \<longleftrightarrow> i = j"
  by (simp add: dec_int_def show_int_inj)

subsection \<open>The store key\<close>

definition GenerateGnbUeIDString :: "ueid_gnb \<Rightarrow> string" where
  "GenerateGnbUeIDString u =
     (let plmnID = bytesToUint64 (GetPLmnidentity u);
          amfRegionID = bytesToUint64 (GetAMfregionId u);
          amfSetID = bytesToUint64 (GetAMfsetId u);
          amfPointer = bytesToUint64 (GetAMfpointer u);
          amfUeNgapID = GetAmfUeNgapId u
      in ''plmnID:'' @ hex_nat (unat plmnID)
         @ ''/amfRegionID:'' @ hex_nat (unat amfRegionID)
         @ ''/amfSetID:'' @ hex_nat (unat amfSetID)
         @ ''/amfPointer:'' @ hex_nat (unat amfPointer)
         @ ''/amfUeNgapID:'' @ hex_int amfUeNgapID)"

lemma slash_split:
  "CHR ''/'' \<notin> set xs \<Longrightarrow> CHR ''/'' \<notin> set ys \<Longrightarrow>
   xs @ CHR ''/'' # r = ys @ CHR ''/'' # t \<longleftrightarrow> xs = ys \<and> r = t"
proof (induction xs arbitrary: ys)
  case Nil
  then show ?case by (cases ys) auto
next
  case (Cons x xs)
  then show ?case by (cases ys) auto
qed

lemma GenerateGnbUeIDString_eq:
  "GenerateGnbUeIDString u = GenerateGnbUeIDString v \<longleftrightarrow>
     bytesToUint64 (GetPLmnidentity u) = bytesToUint64 (GetPLmnidentity v) \<and>
     bytesToUint64 (GetAMfregionId u) = bytesToUint64 (GetAMfregionId v) \<and>
     bytesToUint64 (GetAMfsetId u) = bytesToUint64 (GetAMfsetId v) \<and>
     bytesToUint64 (GetAMfpointer u) = bytesToUint64 (GetAMfpointer v) \<and>
     GetAmfUeNgapId u = GetAmfUeNgapId v"
  by (simp add: GenerateGnbUeIDString_def Let_def slash_split hex_nat_inj hex_int_inj
      word_unat_eq_iff)

subsection \<open>Properties\<close>

lemma be_nat_horner: "be_nat 0 b = horner_sum unat 256 (rev b)"
proof (induction b rule: rev_induct)
  case Nil
  then show ?case by simp
next
  case (snoc x xs)
  have "be_nat acc (xs @ [x]) = be_nat acc xs * 256 + unat x" for acc
    by (induction xs arbitrary: acc) auto
  with snoc show ?case by simp
qed

text \<open>
  C27. \<open>bytesToUint64\<close> reads an octet string as a big-endian number modulo \<open>2 ^ 64\<close>: up to
  eight octets exactly, and of a longer string only the last eight.
\<close>

theorem bytesToUint64_value: "unat (bytesToUint64 b) = horner_sum unat 256 (rev b) mod 2 ^ 64"
  by (simp add: unat_bytesToUint64 be_nat_horner)

definition same_sizes :: "ueid_gnb \<Rightarrow> ueid_gnb \<Rightarrow> bool" where
  "same_sizes u v \<longleftrightarrow>
     (\<forall>f \<in> {GetPLmnidentity, GetAMfregionId, GetAMfsetId, GetAMfpointer}.
        length (f u) = length (f v) \<and> length (f u) \<le> 8)"

text \<open>
  C26. Which UEs share a row of the store: two keys are equal exactly when the AMF UE NGAP
  identifiers are equal and the PLMN, the AMF region, the AMF set and the AMF pointer are equal as
  big-endian numbers modulo \<open>2 ^ 64\<close>; the formatting of the key confuses nothing beyond that. For octet
  strings of the same sizes, at most eight octets (the ASN.1 types fix them), these are the octet
  strings themselves. Otherwise leading zero octets and octets before the last eight do not count, a
  missing string is zero and so is a missing AMF UE NGAP identifier; and no other field of an identifier
  enters the key, so UEs that differ in none of the five share a row.
\<close>

theorem ue_key_exact:
  shows "(GenerateGnbUeIDString u = GenerateGnbUeIDString v \<longleftrightarrow>
      GetAmfUeNgapId u = GetAmfUeNgapId v \<and>
      horner_sum unat 256 (rev (GetPLmnidentity u)) mod 2 ^ 64 = (horner_sum unat 256 (rev (GetPLmnidentity v)) mod 2 ^ 64 :: nat) \<and>
      horner_sum unat 256 (rev (GetAMfregionId u)) mod 2 ^ 64 = (horner_sum unat 256 (rev (GetAMfregionId v)) mod 2 ^ 64 :: nat) \<and>
      horner_sum unat 256 (rev (GetAMfsetId u)) mod 2 ^ 64 = (horner_sum unat 256 (rev (GetAMfsetId v)) mod 2 ^ 64 :: nat) \<and>
      horner_sum unat 256 (rev (GetAMfpointer u)) mod 2 ^ 64 = (horner_sum unat 256 (rev (GetAMfpointer v)) mod 2 ^ 64 :: nat)) \<and>
    (same_sizes u v \<longrightarrow> (GenerateGnbUeIDString u = GenerateGnbUeIDString v \<longleftrightarrow>
      GetPLmnidentity u = GetPLmnidentity v \<and> GetAMfregionId u = GetAMfregionId v \<and>
      GetAMfsetId u = GetAMfsetId v \<and> GetAMfpointer u = GetAMfpointer v \<and>
      GetAmfUeNgapId u = GetAmfUeNgapId v))"
proof (intro conjI impI)
  have "bytesToUint64 x = bytesToUint64 y \<longleftrightarrow>
      horner_sum unat 256 (rev x) mod 2 ^ 64 = (horner_sum unat 256 (rev y) mod 2 ^ 64 :: nat)" for x y
    unfolding word_unat_eq_iff unat_bytesToUint64 be_nat_horner by (rule refl)
  then show "GenerateGnbUeIDString u = GenerateGnbUeIDString v \<longleftrightarrow>
      GetAmfUeNgapId u = GetAmfUeNgapId v \<and>
      horner_sum unat 256 (rev (GetPLmnidentity u)) mod 2 ^ 64 = (horner_sum unat 256 (rev (GetPLmnidentity v)) mod 2 ^ 64 :: nat) \<and>
      horner_sum unat 256 (rev (GetAMfregionId u)) mod 2 ^ 64 = (horner_sum unat 256 (rev (GetAMfregionId v)) mod 2 ^ 64 :: nat) \<and>
      horner_sum unat 256 (rev (GetAMfsetId u)) mod 2 ^ 64 = (horner_sum unat 256 (rev (GetAMfsetId v)) mod 2 ^ 64 :: nat) \<and>
      horner_sum unat 256 (rev (GetAMfpointer u)) mod 2 ^ 64 = (horner_sum unat 256 (rev (GetAMfpointer v)) mod 2 ^ 64 :: nat)"
    unfolding GenerateGnbUeIDString_eq by blast
next
  assume "same_sizes u v"
  then have "bytesToUint64 (f u) = bytesToUint64 (f v) \<longleftrightarrow> f u = f v"
    if "f \<in> {GetPLmnidentity, GetAMfregionId, GetAMfsetId, GetAMfpointer}" for f
    using that bytesToUint64_eqD [of "f u" "f v"] unfolding same_sizes_def by metis
  then show "GenerateGnbUeIDString u = GenerateGnbUeIDString v \<longleftrightarrow>
      GetPLmnidentity u = GetPLmnidentity v \<and> GetAMfregionId u = GetAMfregionId v \<and>
      GetAMfsetId u = GetAMfsetId v \<and> GetAMfpointer u = GetAMfpointer v \<and>
      GetAmfUeNgapId u = GetAmfUeNgapId v"
    by (simp add: GenerateGnbUeIDString_eq)
qed

text \<open>Two identifiers of the same sizes, and one with a shorter PLMN that shares the key of the first.\<close>

definition sample_gnb_of :: "octets \<Rightarrow> ueid_gnb" where
  "sample_gnb_of plmn = \<lparr>Guami = Some \<lparr>PLmnidentity = Some plmn, AMfregionId = Some (Some [4]),
     AMfsetId = Some (Some [0, 5]), AMfpointer = Some (Some [6])\<rparr>, AmfUeNgapId = Some 7\<rparr>"

theorem ue_key_exact_witness:
  "same_sizes (sample_gnb_of [0, 2, 3]) (sample_gnb_of [0, 2, 4]) \<and>
   GenerateGnbUeIDString (sample_gnb_of [0, 2, 3]) \<noteq> GenerateGnbUeIDString (sample_gnb_of [0, 2, 4]) \<and>
   GenerateGnbUeIDString (sample_gnb_of [0, 2, 3]) = GenerateGnbUeIDString (sample_gnb_of [2, 3])"
proof -
  have h: "same_sizes (sample_gnb_of [0, 2, 3]) (sample_gnb_of [0, 2, 4])"
    by (simp add: same_sizes_def sample_gnb_of_def ue_getters)
  have "GetPLmnidentity (sample_gnb_of [0, 2, 3]) \<noteq> GetPLmnidentity (sample_gnb_of [0, 2, 4])"
    by (simp add: sample_gnb_of_def ue_getters)
  moreover have "GenerateGnbUeIDString (sample_gnb_of [0, 2, 3]) = GenerateGnbUeIDString (sample_gnb_of [2, 3])"
    using ue_key_exact [of "sample_gnb_of [0, 2, 3]" "sample_gnb_of [2, 3]"] by (simp add: sample_gnb_of_def ue_getters)
  ultimately show ?thesis
    using h ue_key_exact [of "sample_gnb_of [0, 2, 3]" "sample_gnb_of [0, 2, 4]"] by blast
qed

end
