(* ===== verification/Metric_Store.thy ===== *)
theory Metric_Store
  imports Ue_Id
begin

text \<open>
  \<open>pkg/store\<close>: the metric store (\<open>store.go\<close>), its value types (\<open>types.go\<close>), the event
  (\<open>event.go\<close>) and the watchers (\<open>watcher.go\<close>).

  A store value is a \<open>*MetricValue\<close>: the store, the controller and the southbound share the
  object and mutate it in place, so a pointer is an index into an explicit heap, a list that
  only grows. An entry is immutable once built. Every store operation holds \<open>s.mu\<close> and is
  therefore one step. \<open>Watchers.Send\<close> only starts a goroutine; the goroutines started and
  not yet run are the field \<open>sends\<close>.
\<close>

subsection \<open>Types (types.go, event.go)\<close>

datatype event_type = EventNone | Created | Updated | Deleted

primrec EventType_String :: "event_type \<Rightarrow> string" where
  "EventType_String EventNone = ''None''"
| "EventType_String Created = ''Created''"
| "EventType_String Updated = ''Updated''"
| "EventType_String Deleted = ''Deleted''"

datatype mho_state = StateCreated | Waiting | Approved | Denied | Done

primrec MHOState_String :: "mho_state \<Rightarrow> string" where
  "MHOState_String StateCreated = ''StateCreated''"
| "MHOState_String Waiting = ''Waiting''"
| "MHOState_String Approved = ''Approved''"
| "MHOState_String Denied = ''Denied''"
| "MHOState_String Done = ''Done''"

text \<open>The \<open>iota\<close> value of a state; the states are ordered by it.\<close>

primrec mho_iota :: "mho_state \<Rightarrow> nat" where
  "mho_iota StateCreated = 0"
| "mho_iota Waiting = 1"
| "mho_iota Approved = 2"
| "mho_iota Denied = 3"
| "mho_iota Done = 4"

lemma mho_iota_inj: "mho_iota a = mho_iota b \<longleftrightarrow> a = b"
  by (cases a; cases b) auto

instantiation mho_state :: linorder
begin

definition less_eq_mho_state :: "mho_state \<Rightarrow> mho_state \<Rightarrow> bool" where
  "less_eq_mho_state a b \<longleftrightarrow> mho_iota a \<le> mho_iota b"

definition less_mho_state :: "mho_state \<Rightarrow> mho_state \<Rightarrow> bool" where
  "less_mho_state a b \<longleftrightarrow> mho_iota a < mho_iota b"

instance
  by standard (auto simp: less_eq_mho_state_def less_mho_state_def mho_iota_inj)

end

record metric_value =
  RawUEID :: "ueid option"
  TgtCellID :: string
  State :: mho_state
  CallProcessID :: octets
  E2NodeID :: node_id

type_synonym addr = nat

record entry =
  Key :: string
  Value :: addr

record event =
  EvKey :: string
  EvValue :: entry
  EvType :: event_type
  EventMHOState :: mho_state

subsection \<open>Watchers (watcher.go)\<close>

record watcher =
  wid :: uuid
  wch :: chan

type_synonym watcher_map = "uuid \<rightharpoonup> watcher"

definition AddWatcher :: "watcher_map \<Rightarrow> uuid \<Rightarrow> chan \<Rightarrow> watcher_map" where
  "AddWatcher ws i ch = ws(i \<mapsto> \<lparr>wid = i, wch = ch\<rparr>)"

text \<open>The loop of \<open>RemoveWatcher\<close>: a watcher that is kept is stored under the removed
  identifier \<open>i\<close>, as the source writes it (\<open>watchers[id] = watcher\<close>).\<close>

primrec remove_loop :: "uuid \<Rightarrow> watcher list \<Rightarrow> watcher_map \<Rightarrow> watcher_map" where
  "remove_loop i [] acc = acc"
| "remove_loop i (x # xs) acc = remove_loop i xs (if wid x \<noteq> i then acc(i \<mapsto> x) else acc)"

definition RemoveWatcher :: "uuid list \<Rightarrow> watcher_map \<Rightarrow> uuid \<Rightarrow> watcher_map" where
  "RemoveWatcher order ws i = remove_loop i (ranged ws order) Map.empty"

subsection \<open>The store (store.go)\<close>

record store =
  records :: "string \<rightharpoonup> entry"
  watchers :: watcher_map
  sends :: "event list"

definition NewStore :: store where
  "NewStore = \<lparr>records = Map.empty, watchers = Map.empty, sends = []\<rparr>"

definition Send :: "event \<Rightarrow> store \<Rightarrow> store" where
  "Send e s = s\<lparr>sends := sends s @ [e]\<rparr>"

text \<open>\<open>ch <- entry\<close> for each record in map order, then \<open>close(ch)\<close>: the entries that the
  reader of the channel receives.\<close>

definition Entries :: "string list \<Rightarrow> store \<Rightarrow> entry list" where
  "Entries order s = ranged (records s) order"

definition Delete :: "string \<Rightarrow> store \<Rightarrow> store" where
  "Delete key s = s\<lparr>records := (records s)(key := None)\<rparr>"

definition Put :: "string \<Rightarrow> addr \<Rightarrow> mho_state \<Rightarrow> store \<Rightarrow> store \<times> entry" where
  "Put key value st s =
     (let entry = \<lparr>Key = key, Value = value\<rparr> in
      if records s key = None then
        (Send \<lparr>EvKey = key, EvValue = entry, EvType = Created, EventMHOState = st\<rparr>
           (s\<lparr>records := (records s)(key \<mapsto> entry)\<rparr>), entry)
      else
        (Send \<lparr>EvKey = key, EvValue = entry, EvType = Updated, EventMHOState = st\<rparr>
           (s\<lparr>records := (records s)(key \<mapsto> entry)\<rparr>), entry))"

definition Get :: "string \<Rightarrow> store \<Rightarrow> entry go" where
  "Get key s = (case records s key of Some v \<Rightarrow> Ret v | None \<Rightarrow> Fail NotFound)"

definition HasEntry :: "string \<Rightarrow> store \<Rightarrow> bool" where
  "HasEntry key s \<longleftrightarrow> records s key \<noteq> None"

text \<open>\<open>Watch\<close> registers the channel under a fresh identifier \<open>i\<close> (\<open>uuid.New()\<close>);
  \<open>AddWatcher\<close> never fails. When the context is done, \<open>unwatch\<close> runs.\<close>

definition Watch :: "uuid \<Rightarrow> chan \<Rightarrow> store \<Rightarrow> store" where
  "Watch i ch s = s\<lparr>watchers := AddWatcher (watchers s) i ch\<rparr>"

definition unwatch :: "uuid list \<Rightarrow> uuid \<Rightarrow> store \<Rightarrow> store" where
  "unwatch order i s = s\<lparr>watchers := RemoveWatcher order (watchers s) i\<rparr>"

definition NumWatchers :: "store \<Rightarrow> nat" where
  "NumWatchers s = card (dom (watchers s))"

subsection \<open>What the operations do\<close>

definition put_event :: "string \<Rightarrow> addr \<Rightarrow> mho_state \<Rightarrow> store \<Rightarrow> event" where
  "put_event key value st s =
     \<lparr>EvKey = key, EvValue = \<lparr>Key = key, Value = value\<rparr>,
      EvType = (if HasEntry key s then Updated else Created), EventMHOState = st\<rparr>"

lemma Put_simps [store_simps]:
  "records (fst (Put key v st s)) = (records s)(key \<mapsto> \<lparr>Key = key, Value = v\<rparr>)"
  "watchers (fst (Put key v st s)) = watchers s"
  "sends (fst (Put key v st s)) = sends s @ [put_event key v st s]"
  "snd (Put key v st s) = \<lparr>Key = key, Value = v\<rparr>"
  by (auto simp: Put_def Let_def Send_def put_event_def HasEntry_def dom_def)

lemma put_event_simps [simp]:
  "EvKey (put_event key v st s) = key"
  "EvValue (put_event key v st s) = \<lparr>Key = key, Value = v\<rparr>"
  "EventMHOState (put_event key v st s) = st"
  "EvType (put_event key v st s) = (if HasEntry key s then Updated else Created)"
  by (simp_all add: put_event_def)

lemma Get_eq_Ret [store_simps]: "Get key s = Ret e \<longleftrightarrow> records s key = Some e"
  by (auto simp: Get_def split: option.splits)

lemma Get_not_Panic [simp]: "Get key s \<noteq> Panic"
  by (auto simp: Get_def split: option.splits)

lemma Watch_simps [store_simps]:
  "records (Watch i ch s) = records s"
  "sends (Watch i ch s) = sends s"
  "watchers (Watch i ch s) = (watchers s)(i \<mapsto> \<lparr>wid = i, wch = ch\<rparr>)"
  by (simp_all add: Watch_def AddWatcher_def)

lemma NewStore_simps [simp]:
  "records NewStore = Map.empty" "watchers NewStore = Map.empty" "sends NewStore = []"
  by (simp_all add: NewStore_def)

subsection \<open>The contract of the Store interface\<close>

text \<open>
  What a client of the Go interface \<open>Store\<close> relies on, over an abstract state: \<open>has\<close>
  decides whether \<open>lookup\<close> succeeds, a value written is read back, no other key is touched.
  The third argument of \<open>upd\<close> is the state that the notification carries.
\<close>

locale store_contract =
  fixes upd :: "'k \<Rightarrow> 'v \<Rightarrow> 't \<Rightarrow> 's \<Rightarrow> 's"
    and lookup :: "'k \<Rightarrow> 's \<Rightarrow> 'v option"
    and has :: "'k \<Rightarrow> 's \<Rightarrow> bool"
  assumes has_lookup: "has k s \<longleftrightarrow> lookup k s \<noteq> None"
    and lookup_upd_same: "lookup k (upd k v t s) = Some v"
    and lookup_upd_other: "j \<noteq> k \<Longrightarrow> lookup j (upd k v t s) = lookup j s"
begin

lemma lookup_upd: "lookup j (upd k v t s) = (if j = k then Some v else lookup j s)"
  by (simp add: lookup_upd_same lookup_upd_other)

lemma has_upd: "has j (upd k v t s) \<longleftrightarrow> j = k \<or> has j s"
  by (simp add: has_lookup lookup_upd)

lemma upd_commute:
  "k \<noteq> l \<Longrightarrow> lookup j (upd k v t (upd l u r s)) = lookup j (upd l u r (upd k v t s))"
  by (auto simp: lookup_upd)

lemma lookup_upds:
  "lookup j (fold (\<lambda>(k, v, t). upd k v t) ws s) =
     (case map_of (rev (map (\<lambda>(k, v, t). (k, v)) ws)) j of Some v \<Rightarrow> Some v | None \<Rightarrow> lookup j s)"
  by (induction ws arbitrary: s) (auto simp: lookup_upd map_add_def split: option.splits)

lemma has_upds:
  "has j (fold (\<lambda>(k, v, t). upd k v t) ws s) \<longleftrightarrow> j \<in> fst ` set ws \<or> has j s"
  by (induction ws arbitrary: s) (auto simp: has_upd)

end

text \<open>A store that also notifies: each update adds one notification, which says whether the
  key was there before.\<close>

locale notifying_store = store_contract upd lookup has
  for upd :: "'k \<Rightarrow> 'v \<Rightarrow> 't \<Rightarrow> 's \<Rightarrow> 's" and lookup and has +
  fixes pending :: "'s \<Rightarrow> 'e list"
    and note_of :: "'k \<Rightarrow> 'v \<Rightarrow> 't \<Rightarrow> bool \<Rightarrow> 'e"
  assumes pending_upd: "pending (upd k v t s) = pending s @ [note_of k v t (has k s)]"
begin

lemma pending_upds:
  "pending (fold (\<lambda>(k, v, t). upd k v t) ws s) =
     pending s @ map (\<lambda>i. case ws ! i of (k, v, t) \<Rightarrow>
                            note_of k v t (k \<in> fst ` set (take i ws) \<or> has k s)) [0..<length ws]"
proof (induction ws rule: rev_induct)
  case Nil
  then show ?case by simp
next
  case (snoc w ws)
  obtain k v t where w: "w = (k, v, t)" by (cases w)
  show ?case
    by (simp add: snoc.IH w pending_upd has_upds nth_append cong: map_cong)
qed

end

definition lookup_entry :: "string \<Rightarrow> store \<Rightarrow> addr option" where
  "lookup_entry k s = (case Get k s of Ret e \<Rightarrow> Some (Value e) | _ \<Rightarrow> None)"

lemma lookup_entry_records: "lookup_entry k s = map_option Value (records s k)"
  by (auto simp: lookup_entry_def Get_def split: option.splits)

abbreviation put_store :: "string \<Rightarrow> addr \<Rightarrow> mho_state \<Rightarrow> store \<Rightarrow> store" where
  "put_store k v st s \<equiv> fst (Put k v st s)"

interpretation ms: notifying_store put_store lookup_entry HasEntry sends
  "\<lambda>k v st old. \<lparr>EvKey = k, EvValue = \<lparr>Key = k, Value = v\<rparr>,
                 EvType = (if old then Updated else Created), EventMHOState = st\<rparr>"
  by unfold_locales (auto simp: lookup_entry_records HasEntry_def store_simps put_event_def)

subsection \<open>The heap of metric values\<close>

record world =
  heap :: "metric_value list"
  mstore :: store

definition new_world :: world where
  "new_world = \<lparr>heap = [], mstore = NewStore\<rparr>"

definition alloc :: "metric_value \<Rightarrow> world \<Rightarrow> world \<times> addr" where
  "alloc v w = (w\<lparr>heap := heap w @ [v]\<rparr>, length (heap w))"

definition load :: "addr \<Rightarrow> world \<Rightarrow> metric_value go" where
  "load a w = (if a < length (heap w) then Ret (heap w ! a) else Panic)"

text \<open>The assignment \<open>nv.State = st\<close> through the pointer \<open>a\<close>.\<close>

definition set_state :: "addr \<Rightarrow> mho_state \<Rightarrow> world \<Rightarrow> world" where
  "set_state a st w = w\<lparr>heap := (heap w)[a := (heap w ! a)\<lparr>State := st\<rparr>]\<rparr>"

definition put_value :: "string \<Rightarrow> addr \<Rightarrow> mho_state \<Rightarrow> world \<Rightarrow> world" where
  "put_value k a st w = w\<lparr>mstore := put_store k a st (mstore w)\<rparr>"

lemma world_simps [store_simps]:
  "heap (put_value k a st w) = heap w"
  "mstore (put_value k a st w) = put_store k a st (mstore w)"
  "mstore (set_state a st w) = mstore w"
  "mstore (fst (alloc v w)) = mstore w"
  "heap (fst (alloc v w)) = heap w @ [v]"
  "snd (alloc v w) = length (heap w)"
  "length (heap (set_state a st w)) = length (heap w)"
  by (simp_all add: put_value_def set_state_def alloc_def)

lemma nth_set_state [store_simps]:
  "b < length (heap w) \<Longrightarrow> heap (set_state a st w) ! b =
     (if a = b then (heap w ! b)\<lparr>State := st\<rparr> else heap w ! b)"
  by (auto simp: set_state_def nth_list_update)

lemma load_eq_Ret [store_simps]: "load a w = Ret v \<longleftrightarrow> a < length (heap w) \<and> v = heap w ! a"
  by (auto simp: load_def)

subsection \<open>Properties\<close>

text \<open>The store as a map: what each operation does to the abstract contents.\<close>

datatype store_op =
    OpPut string addr mho_state
  | OpDelete string
  | OpWatch uuid chan
  | OpUnwatch "uuid list" uuid

fun apply_op :: "store \<Rightarrow> store_op \<Rightarrow> store" where
  "apply_op s (OpPut k v st) = put_store k v st s"
| "apply_op s (OpDelete k) = Delete k s"
| "apply_op s (OpWatch i ch) = Watch i ch s"
| "apply_op s (OpUnwatch order i) = unwatch order i s"

fun spec_op :: "(string \<rightharpoonup> addr) \<Rightarrow> store_op \<Rightarrow> (string \<rightharpoonup> addr)" where
  "spec_op m (OpPut k v st) = m(k \<mapsto> v)"
| "spec_op m (OpDelete k) = m(k := None)"
| "spec_op m (OpWatch i ch) = m"
| "spec_op m (OpUnwatch order i) = m"

definition contents :: "store \<Rightarrow> (string \<rightharpoonup> addr)" where
  "contents s = (\<lambda>k. lookup_entry k s)"

lemma apply_op_spec: "contents (apply_op s x) = spec_op (contents s) x"
  by (cases x) (auto simp: contents_def fun_eq_iff lookup_entry_records store_simps Delete_def
      unwatch_def)

lemma apply_op_keys:
  "(\<And>k e. records s k = Some e \<Longrightarrow> Key e = k) \<Longrightarrow> records (apply_op s x) k = Some e \<Longrightarrow> Key e = k"
  by (cases x) (auto simp: store_simps Delete_def unwatch_def split: if_splits)

lemma run_ops_contents: "contents (foldl apply_op NewStore ops) = foldl spec_op Map.empty ops"
proof (induction ops rule: rev_induct)
  case Nil
  show ?case by (simp add: contents_def lookup_entry_records)
next
  case (snoc x xs)
  then show ?case by (simp add: apply_op_spec)
qed

lemma run_ops_keys: "records (foldl apply_op NewStore ops) k = Some e \<Longrightarrow> Key e = k"
proof (induction ops arbitrary: k e rule: rev_induct)
  case Nil
  then show ?case by simp
next
  case (snoc x xs)
  then show ?case using apply_op_keys [of "foldl apply_op NewStore xs" x k e] by simp
qed

text \<open>
  C24. The store is a map: after any sequence of \<open>Put\<close>, \<open>Delete\<close> and watcher operations on a
  new store, \<open>Get\<close> returns the last value put under the key since its last deletion, as an
  entry that carries the key, and NotFound when there is none; \<open>HasEntry\<close> agrees with it.
\<close>

theorem store_refines_map:
  "Get k (foldl apply_op NewStore ops) =
     (case foldl spec_op Map.empty ops k of
        Some v \<Rightarrow> Ret \<lparr>Key = k, Value = v\<rparr> | None \<Rightarrow> Fail NotFound) \<and>
   (HasEntry k (foldl apply_op NewStore ops) \<longleftrightarrow> k \<in> dom (foldl spec_op Map.empty ops))"
proof -
  have c: "foldl spec_op Map.empty ops k = map_option Value (records (foldl apply_op NewStore ops) k)"
    using run_ops_contents [of ops] by (metis contents_def lookup_entry_records)
  show ?thesis
    using run_ops_keys [of ops k]
    by (cases "records (foldl apply_op NewStore ops) k") (auto simp: c Get_def HasEntry_def domIff)
qed

text \<open>
  C25. Every \<open>Put\<close> starts exactly one notification, in the order of the calls; it carries the
  new entry and the state given to \<open>Put\<close>, and is Created for the first \<open>Put\<close> of a key and
  Updated for every later one.
\<close>

theorem put_notifications:
  "sends (fold (\<lambda>(k, v, st). put_store k v st) ws NewStore) =
     map (\<lambda>i. case ws ! i of (k, v, st) \<Rightarrow>
            \<lparr>EvKey = k, EvValue = \<lparr>Key = k, Value = v\<rparr>,
             EvType = (if k \<in> fst ` set (take i ws) then Updated else Created),
             EventMHOState = st\<rparr>) [0..<length ws]"
  using ms.pending_upds [of ws NewStore] by (simp add: HasEntry_def)

lemma remove_loop_eq:
  "remove_loop i xs acc =
     (case filter (\<lambda>x. wid x \<noteq> i) xs of [] \<Rightarrow> acc | y # ys \<Rightarrow> acc(i \<mapsto> last (y # ys)))"
  by (induction xs arbitrary: acc) (auto split: list.splits)

text \<open>
  C23. \<open>RemoveWatcher\<close> loses watchers: whatever the map order, it leaves at most one watcher,
  filed under the identifier that was removed, because every kept watcher is written to that
  same key. With two or more watchers besides the removed one, all but one stop receiving
  events.
\<close>

theorem RemoveWatcher_keeps_one:
  assumes "range_order ws order"
  shows "dom (RemoveWatcher order ws i) = (if \<exists>x \<in> ran ws. wid x \<noteq> i then {i} else {})"
proof -
  have "(\<exists>x \<in> ran ws. wid x \<noteq> i) \<longleftrightarrow> filter (\<lambda>x. wid x \<noteq> i) (ranged ws order) \<noteq> []"
    using set_ranged_order [OF assms] by (auto simp: filter_empty_conv)
  then show ?thesis
    by (auto simp: RemoveWatcher_def remove_loop_eq split: list.splits)
qed

theorem RemoveWatcher_keeps_one_witness:
  "dom (RemoveWatcher [0, 1, 2] (AddWatcher (AddWatcher (AddWatcher Map.empty 0 5) 1 6) 2 7) 0) = {0}"
proof -
  have h: "range_order (AddWatcher (AddWatcher (AddWatcher Map.empty 0 5) 1 6) 2 7) [0, 1, 2]"
    by (auto simp: range_order_def AddWatcher_def)
  have "\<exists>x \<in> ran (AddWatcher (AddWatcher (AddWatcher Map.empty 0 5) 1 6) 2 7). wid x \<noteq> 0"
    by (rule bexI [OF _ ranI [of _ 1]]) (auto simp: AddWatcher_def)
  then show ?thesis using RemoveWatcher_keeps_one [OF h, of 0] by simp
qed

end
