(* ===== verification/Ue_Table.thy ===== *)
theory Ue_Table
  imports Metric_Store
begin

text \<open>
  The abstract view of the metric store: per UE key, the target cell and the handover state.
  \<open>wf_world\<close> says how store and heap agree (every entry points to an allocated value whose
  UE generates the entry's key), \<open>heap_ext\<close> how the heap may evolve (it grows, and only the
  state field of a value changes), and \<open>diagram\<close> is the state machine drawn in the comment
  of \<open>types.go\<close>.
\<close>

definition ue_key :: "ueid option \<Rightarrow> string option" where
  "ue_key u = map_option GenerateGnbUeIDString (GetGNbUeid u)"

definition wf_world :: "world \<Rightarrow> bool" where
  "wf_world w \<longleftrightarrow> (\<forall>k e. records (mstore w) k = Some e \<longrightarrow>
     Key e = k \<and> Value e < length (heap w) \<and> ue_key (RawUEID (heap w ! Value e)) = Some k)"

lemma wf_worldD:
  assumes "wf_world w" "records (mstore w) k = Some e"
  shows "Key e = k" "Value e < length (heap w)" "ue_key (RawUEID (heap w ! Value e)) = Some k"
  using assms by (auto simp: wf_world_def)

lemma wf_world_new: "wf_world new_world"
  by (simp add: wf_world_def new_world_def)

text \<open>Two keys never share a value, so a write through a pointer shows under one key only.\<close>

lemma wf_world_inj:
  assumes "wf_world w" "records (mstore w) k = Some e" "records (mstore w) j = Some f"
    and "Value e = Value f"
  shows "k = j"
  using wf_worldD(3) [OF assms(1,2)] wf_worldD(3) [OF assms(1,3)] assms(4) by simp

subsection \<open>Evolution of the heap\<close>

definition same_ident :: "metric_value \<Rightarrow> metric_value \<Rightarrow> bool" where
  "same_ident u v \<longleftrightarrow> RawUEID u = RawUEID v \<and> TgtCellID u = TgtCellID v \<and>
     CallProcessID u = CallProcessID v \<and> E2NodeID u = E2NodeID v"

definition heap_ext :: "metric_value list \<Rightarrow> metric_value list \<Rightarrow> bool" where
  "heap_ext h h' \<longleftrightarrow> length h \<le> length h' \<and> (\<forall>a < length h. same_ident (h ! a) (h' ! a))"

lemma same_ident_refl [simp]: "same_ident v v"
  by (simp add: same_ident_def)

lemma heap_ext_refl [simp]: "heap_ext h h"
  by (simp add: heap_ext_def)

lemma heap_ext_trans: "heap_ext h h' \<Longrightarrow> heap_ext h' h'' \<Longrightarrow> heap_ext h h''"
  unfolding heap_ext_def same_ident_def by auto

lemma heap_ext_alloc: "heap_ext (heap w) (heap (fst (alloc v w)))"
  by (simp add: heap_ext_def store_simps nth_append)

lemma heap_ext_set_state: "heap_ext (heap w) (heap (set_state a st w))"
  by (simp add: heap_ext_def store_simps same_ident_def)

lemma heap_ext_put_value [simp]: "heap_ext (heap w) (heap (put_value k a st w))"
  by (simp add: store_simps)

subsection \<open>The operations keep the world well-formed\<close>

lemma wf_world_alloc: "wf_world w \<Longrightarrow> wf_world (fst (alloc v w))"
  unfolding wf_world_def by (fastforce simp: store_simps nth_append)

lemma wf_world_set_state: "wf_world w \<Longrightarrow> wf_world (set_state a st w)"
  by (auto simp: wf_world_def store_simps)

lemma wf_world_put_value:
  "wf_world w \<Longrightarrow> a < length (heap w) \<Longrightarrow> ue_key (RawUEID (heap w ! a)) = Some k \<Longrightarrow>
   wf_world (put_value k a st w)"
  unfolding wf_world_def by (auto simp: store_simps)

subsection \<open>The abstract table\<close>

definition ue_table :: "world \<Rightarrow> string \<Rightarrow> (string \<times> mho_state) option" where
  "ue_table w k = (case records (mstore w) k of
     None \<Rightarrow> None
   | Some e \<Rightarrow> Some (TgtCellID (heap w ! Value e), State (heap w ! Value e)))"

lemma ue_table_None: "ue_table w k = None \<longleftrightarrow> \<not> HasEntry k (mstore w)"
  by (auto simp: ue_table_def HasEntry_def split: option.splits)

lemma ue_table_alloc: "wf_world w \<Longrightarrow> ue_table (fst (alloc v w)) = ue_table w"
  by (rule ext) (auto simp: ue_table_def store_simps nth_append dest: wf_worldD split: option.splits)

lemma ue_table_put_value:
  "ue_table (put_value k a st w) =
     (ue_table w)(k \<mapsto> (TgtCellID (heap w ! a), State (heap w ! a)))"
  by (rule ext) (auto simp: ue_table_def store_simps split: option.splits)

lemma ue_table_set_state:
  assumes "wf_world w" "records (mstore w) k = Some e"
  shows "ue_table (set_state (Value e) st w) =
           (ue_table w)(k \<mapsto> (TgtCellID (heap w ! Value e), st))"
proof
  fix j
  show "ue_table (set_state (Value e) st w) j =
          ((ue_table w)(k \<mapsto> (TgtCellID (heap w ! Value e), st))) j"
  proof (cases "records (mstore w) j")
    case None
    with assms(2) show ?thesis by (auto simp: ue_table_def store_simps)
  next
    case (Some f)
    have "f = e" if "j = k" using that Some assms(2) by simp
    moreover have "Value f \<noteq> Value e" if "j \<noteq> k"
      using that wf_world_inj [OF assms(1) Some assms(2)] by blast
    ultimately show ?thesis
      using Some wf_worldD(2) [OF assms(1) Some] by (auto simp: ue_table_def store_simps)
  qed
qed

subsection \<open>The state machine of the comment in types.go\<close>

datatype mho_label =
    NewUE | StartDecision | Approve | ControlSent | SameTarget | TargetChanged | Deny

fun diagram :: "mho_state option \<Rightarrow> mho_label \<Rightarrow> mho_state option" where
  "diagram None NewUE = Some StateCreated"
| "diagram (Some StateCreated) StartDecision = Some Waiting"
| "diagram (Some Waiting) Approve = Some Approved"
| "diagram (Some Approved) ControlSent = Some Done"
| "diagram (Some Done) SameTarget = Some Done"
| "diagram (Some Done) TargetChanged = Some StateCreated"
| "diagram (Some Denied) TargetChanged = Some StateCreated"
| "diagram (Some Waiting) Deny = Some Denied"
| "diagram (Some Denied) SameTarget = Some Waiting"
| "diagram (Some Denied) Approve = Some Approved"
| "diagram _ _ = None"

end
