(* ===== verification/Mho_Const.thy ===== *)
theory Mho_Const
  imports Prelude
begin

text \<open>
  The constants of \<open>pkg/definition/def.go\<close>: RAN parameter identifiers of the E2SM-RC
  control message, and the identifiers of the RC event trigger, action and call process.
  The source declares them untyped; they are read as the Go integers they become.
\<close>

definition TargetPrimaryCellIDRANParameterID :: int where
  "TargetPrimaryCellIDRANParameterID = 1"

definition TargetCellRANParameterID :: int where
  "TargetCellRANParameterID = 2"

definition NRCellRANParameterID :: int where
  "NRCellRANParameterID = 3"

definition NRCGIRANParameterID :: int where
  "NRCGIRANParameterID = 4"

definition EUTRACellRANParameterID :: int where
  "EUTRACellRANParameterID = 5"

definition EUTRACGIRANParameterID :: int where
  "EUTRACGIRANParameterID = 6"

definition RicInsertStyleTypeID :: int where
  "RicInsertStyleTypeID = 3"

definition RicInsertIndicationID :: int where
  "RicInsertIndicationID = 1"

definition RicActionID :: int where
  "RicActionID = 3"

definition ControlActionID :: int where
  "ControlActionID = 1"

definition CallProcessTypeIDMobilityManagement :: int where
  "CallProcessTypeIDMobilityManagement = 3"

definition CallBreakpointIDHandoverPreparation :: int where
  "CallBreakpointIDHandoverPreparation = 1"

lemmas ran_parameter_ids =
  TargetPrimaryCellIDRANParameterID_def TargetCellRANParameterID_def NRCellRANParameterID_def
  NRCGIRANParameterID_def

lemmas rc_ids =
  RicInsertStyleTypeID_def RicInsertIndicationID_def RicActionID_def ControlActionID_def
  CallProcessTypeIDMobilityManagement_def CallBreakpointIDHandoverPreparation_def

end
