(* ===== verification/Ran_Param.thy ===== *)
theory Ran_Param
  imports Mho_Const
begin

text \<open>
  RAN parameters of E2SM-RC messages: the nested value types that the monitor reads and the
  southbound builds, and \<open>GetRanParameterValue\<close> of \<open>pkg/utils/ranparam/parser.go\<close>.

  The message types are generated by protobuf outside the repository; the datatypes hold
  the alternatives and fields that the source names. A pointer is an option, so a list of
  pointers may hold nil. The generated getters are nil-safe, a direct field access is not.
\<close>

datatype ranparam_value = ValuePrintableString string | OtherValue

datatype ranparam_value_type =
    RanPChoiceElementTrue "ranparam_value option"
  | RanPChoiceElementFalse "ranparam_value option"
  | RanPChoiceStructure "ranparam_structure option"
  | RanPChoiceList
  | RanPChoiceUnset
and ranparam_structure = RanparameterStructure "ranparam_item option list"
and ranparam_item = RanparameterStructureItem "int option" "ranparam_value_type option"

subsection \<open>The generated getters\<close>

definition GetValuePrintableString :: "ranparam_value option \<Rightarrow> string" where
  "GetValuePrintableString v = (case v of Some (ValuePrintableString s) \<Rightarrow> s | _ \<Rightarrow> [])"

text \<open>The structure alternative: whether it is set, and the structure it points to.\<close>

definition has_choice_structure :: "ranparam_value_type option \<Rightarrow> bool" where
  "has_choice_structure t = (case t of Some (RanPChoiceStructure _) \<Rightarrow> True | _ \<Rightarrow> False)"

definition GetRanParameterStructure ::
  "ranparam_value_type option \<Rightarrow> ranparam_structure option" where
  "GetRanParameterStructure t = (case t of Some (RanPChoiceStructure s) \<Rightarrow> s | _ \<Rightarrow> None)"

definition GetSequenceOfRanParameters ::
  "ranparam_structure option \<Rightarrow> ranparam_item option list" where
  "GetSequenceOfRanParameters s = (case s of Some (RanparameterStructure xs) \<Rightarrow> xs | None \<Rightarrow> [])"

definition GetElementFalseValue :: "ranparam_value_type option \<Rightarrow> ranparam_value option" where
  "GetElementFalseValue t = (case t of Some (RanPChoiceElementFalse v) \<Rightarrow> v | _ \<Rightarrow> None)"

definition item_value_type :: "ranparam_item option \<Rightarrow> ranparam_value_type option" where
  "item_value_type i = (case i of Some (RanparameterStructureItem _ t) \<Rightarrow> t | None \<Rightarrow> None)"

text \<open>\<open>i.RanParameterId.Value\<close> dereferences the item and its identifier.\<close>

definition item_id :: "ranparam_item option \<Rightarrow> int go" where
  "item_id i = (case i of Some (RanparameterStructureItem (Some n) _) \<Rightarrow> Ret n | _ \<Rightarrow> Panic)"

lemmas ranparam_getters =
  GetValuePrintableString_def has_choice_structure_def GetRanParameterStructure_def
  GetSequenceOfRanParameters_def GetElementFalseValue_def item_value_type_def item_id_def

subsection \<open>GetRanParameterValue\<close>

lemma size_sequence [termination_simp]:
  "i \<in> set (GetSequenceOfRanParameters (GetRanParameterStructure t)) \<Longrightarrow>
   size_option size (item_value_type i) < size_option size t"
proof (cases t)
  case (Some a)
  assume i: "i \<in> set (GetSequenceOfRanParameters (GetRanParameterStructure t))"
  then obtain xs where a: "a = RanPChoiceStructure (Some (RanparameterStructure xs))" "i \<in> set xs"
    using Some by (auto simp: ranparam_getters split: ranparam_value_type.splits option.splits
        ranparam_structure.splits)
  then have "size_option size i \<le> size_list (size_option size) xs"
    by (metis size_list_estimation' order_refl)
  then show ?thesis
    using a Some by (auto simp: item_value_type_def split: option.splits ranparam_item.splits)
qed (simp add: ranparam_getters)

text \<open>
  The value type is searched depth first, each item before what is nested in it; the loop
  over the items is the second function. The measure is the size of the nested message.
\<close>

function (sequential) GetRanParameterValue ::
    "ranparam_value_type option \<Rightarrow> int \<Rightarrow> ranparam_value option go"
  and search_items :: "ranparam_item option list \<Rightarrow> int \<Rightarrow> ranparam_value option go" where
  "GetRanParameterValue item ranParamID =
     (if \<not> has_choice_structure item then Fail NotFound
      else search_items (GetSequenceOfRanParameters (GetRanParameterStructure item)) ranParamID)"
| "search_items [] ranParamID = Fail NotFound"
| "search_items (i # is) ranParamID =
     (case item_id i of
        Panic \<Rightarrow> Panic
      | Fail e \<Rightarrow> Fail e
      | Ret n \<Rightarrow>
          if n = ranParamID then Ret (GetElementFalseValue (item_value_type i))
          else (case GetRanParameterValue (item_value_type i) ranParamID of
                  Ret v \<Rightarrow> Ret v
                | Panic \<Rightarrow> Panic
                | Fail e \<Rightarrow> search_items is ranParamID))"
  by pat_completeness auto
termination
  by (relation "measure (case_sum (\<lambda>(t, _). 2 * size_option size t)
                          (\<lambda>(xs, _). Suc (2 * size_list (size_option size) xs)))")
    (auto simp: ranparam_getters split: option.splits ranparam_value_type.splits ranparam_structure.splits
      ranparam_item.splits)

declare GetRanParameterValue.simps [simp del]

subsection \<open>The search as a lookup in the depth-first listing\<close>

text \<open>All parameters of a value type in depth-first order, each with its identifier
  (\<open>None\<close> for a nil one) and its value type.\<close>

definition item_id_ptr :: "ranparam_item option \<Rightarrow> int option" where
  "item_id_ptr i = (case i of Some (RanparameterStructureItem n _) \<Rightarrow> n | None \<Rightarrow> None)"

lemma item_id_ptr: "item_id i = (case item_id_ptr i of None \<Rightarrow> Panic | Some n \<Rightarrow> Ret n)"
  by (auto simp: item_id_def item_id_ptr_def split: option.splits ranparam_item.splits)

function (sequential) parameters ::
    "ranparam_value_type option \<Rightarrow> (int option \<times> ranparam_value_type option) list"
  and item_parameters ::
    "ranparam_item option list \<Rightarrow> (int option \<times> ranparam_value_type option) list" where
  "parameters t = item_parameters (GetSequenceOfRanParameters (GetRanParameterStructure t))"
| "item_parameters [] = []"
| "item_parameters (i # is) =
     (item_id_ptr i, item_value_type i) # parameters (item_value_type i) @ item_parameters is"
  by pat_completeness auto
termination
  by (relation "measure (case_sum (\<lambda>t. 2 * size_option size t)
                          (\<lambda>xs. Suc (2 * size_list (size_option size) xs)))")
    (auto simp: ranparam_getters split: option.splits ranparam_value_type.splits ranparam_structure.splits
      ranparam_item.splits)

declare parameters.simps [simp del]

definition first_parameter ::
  "(int option \<times> ranparam_value_type option) list \<Rightarrow> int \<Rightarrow> ranparam_value option go" where
  "first_parameter ps n =
     (case List.find (\<lambda>(k, _). k = None \<or> k = Some n) ps of
        None \<Rightarrow> Fail NotFound
      | Some (None, _) \<Rightarrow> Panic
      | Some (Some _, t) \<Rightarrow> Ret (GetElementFalseValue t))"

lemma find_append:
  "List.find P (xs @ ys) = (case List.find P xs of None \<Rightarrow> List.find P ys | Some x \<Rightarrow> Some x)"
  by (induction xs) auto

lemma first_parameter_append:
  "first_parameter (ps @ qs) n =
     (case first_parameter ps n of Fail _ \<Rightarrow> first_parameter qs n | r \<Rightarrow> r)"
  by (auto simp: first_parameter_def find_append split: option.splits)

lemma first_parameter_Nil [simp]: "first_parameter [] n = Fail NotFound"
  by (simp add: first_parameter_def)

lemma first_parameter_Cons:
  "first_parameter ((k, t) # ps) n =
     (case k of None \<Rightarrow> Panic
      | Some m \<Rightarrow> if m = n then Ret (GetElementFalseValue t) else first_parameter ps n)"
  by (auto simp: first_parameter_def split: option.splits)

lemma parameters_unset: "\<not> has_choice_structure t \<Longrightarrow> parameters t = []"
  by (subst parameters.simps) (auto simp: ranparam_getters split: option.splits ranparam_value_type.splits)

lemma search_is_first_parameter:
  "GetRanParameterValue t n = first_parameter (parameters t) n"
  "search_items is n = first_parameter (item_parameters is) n"
proof (induction t n and "is" n rule: GetRanParameterValue_search_items.induct)
  case (1 item n)
  show ?case
  proof (cases "has_choice_structure item")
    case True
    with 1 show ?thesis
      by (simp add: GetRanParameterValue.simps [of item] parameters.simps [of item])
  next
    case False
    then show ?thesis by (simp add: GetRanParameterValue.simps [of item] parameters_unset)
  qed
next
  case (2 n)
  then show ?case by simp
next
  case (3 i "is" n)
  show ?case
  proof (cases "item_id_ptr i")
    case None
    then show ?thesis by (simp add: item_id_ptr first_parameter_Cons)
  next
    case (Some m)
    then have "item_id i = Ret m" by (simp add: item_id_ptr)
    with 3 Some show ?thesis
      by (simp add: first_parameter_Cons first_parameter_append split: go.splits)
  qed
qed

text \<open>
  C29. \<open>GetRanParameterValue\<close> finds the parameter that comes first in the depth-first listing
  of the message: it returns the element-false value of the first parameter with the wanted
  identifier, panics exactly when a parameter with a nil identifier precedes it, and reports
  NotFound when neither occurs.
\<close>

theorem ranparam_search_correct:
  "GetRanParameterValue t n =
     (case List.find (\<lambda>(k, _). k = None \<or> k = Some n) (parameters t) of
        None \<Rightarrow> Fail NotFound
      | Some (None, _) \<Rightarrow> Panic
      | Some (Some _, u) \<Rightarrow> Ret (GetElementFalseValue u))"
  using search_is_first_parameter(1) [of t n] by (simp add: first_parameter_def)

end
