(* ===== verification/Mho_Monitor.thy ===== *)
theory Mho_Monitor
  imports Ue_Table Ran_Param
begin

text \<open>
  \<open>pkg/monitoring/monitor.go\<close>: the indication monitor.

  \<open>proto.Unmarshal\<close> of the generated header and message types is a parameter (\<open>codec\<close>); it
  returns a message or an error. The message types hold the fields that the source reads.
  The whole handler is \<open>processInsertIndicationHeader2Message5\<close>; \<open>monitor_step\<close> is the same
  code cut at the points where another goroutine can run (each store call holds the lock of
  the store). \<open>monitor_loop\<close> is the receive loop of \<open>Start\<close> with its error channel.
\<close>

subsection \<open>Indications\<close>

record indication =
  Header :: octets
  Payload :: octets
  CallProcessId :: octets

definition zero_indication :: indication where
  "zero_indication = \<lparr>Header = [], Payload = [], CallProcessId = []\<rparr>"

record header_format2 =
  UeId :: "ueid option"

datatype indication_header =
  IndicationHeaderFormat2 "header_format2 option" | OtherHeaderFormat | HeaderFormatUnset

datatype message_format5_item = MessageFormat5Item "int option" "ranparam_value_type option"

record message_format5 =
  RanPRequestedList :: "message_format5_item option list"

datatype indication_message =
  IndicationMessageFormat5 "message_format5 option" | OtherMessageFormat | MessageFormatUnset

record codec =
  unmarshal_header :: "octets \<Rightarrow> go_error + indication_header"
  unmarshal_message :: "octets \<Rightarrow> go_error + indication_message"

definition GetIndicationHeaderFormat2 :: "indication_header \<Rightarrow> header_format2 option" where
  "GetIndicationHeaderFormat2 h = (case h of IndicationHeaderFormat2 f \<Rightarrow> f | _ \<Rightarrow> None)"

definition GetIndicationMessageFormat5 :: "indication_message \<Rightarrow> message_format5 option" where
  "GetIndicationMessageFormat5 m = (case m of IndicationMessageFormat5 f \<Rightarrow> f | _ \<Rightarrow> None)"

definition format5_value_type :: "message_format5_item option \<Rightarrow> ranparam_value_type option" where
  "format5_value_type i = (case i of Some (MessageFormat5Item _ t) \<Rightarrow> t | None \<Rightarrow> None)"

definition nested :: "ranparam_value_type option \<Rightarrow> ranparam_item option list" where
  "nested t = GetSequenceOfRanParameters (GetRanParameterStructure t)"

text \<open>The fixed path of first elements down to the printable string of the NR CGI.\<close>

definition target_cell :: "message_format5 option \<Rightarrow> string go" where
  "target_cell m =
     go_bind (index0 (nil_get [] RanPRequestedList m)) (\<lambda>i0.
     go_bind (index0 (nested (format5_value_type i0))) (\<lambda>i1.
     go_bind (index0 (nested (item_value_type i1))) (\<lambda>i2.
     go_bind (index0 (nested (item_value_type i2))) (\<lambda>i3.
     Ret (GetValuePrintableString (GetElementFalseValue (item_value_type i3)))))))"

subsection \<open>The handler\<close>

text \<open>What the handler extracts from an indication before it touches the store.\<close>

record ind_request =
  rq_ue :: "ueid option"
  rq_key :: string
  rq_tgt :: string
  rq_cpid :: octets

definition parse_indication :: "codec \<Rightarrow> indication \<Rightarrow> ind_request go" where
  "parse_indication cd ind =
     go_bind (go_fail (unmarshal_header cd (Header ind))) (\<lambda>header.
     go_bind (go_fail (unmarshal_message cd (Payload ind))) (\<lambda>message.
     let ueID = nil_get None UeId (GetIndicationHeaderFormat2 header);
         messageFormat5 = GetIndicationMessageFormat5 message
     in case GetGNbUeid ueID of
          None \<Rightarrow> Fail NotSupported
        | Some gnb \<Rightarrow>
            go_bind (target_cell messageFormat5) (\<lambda>tgtCellID.
            Ret \<lparr>rq_ue = ueID, rq_key = GenerateGnbUeIDString gnb, rq_tgt = tgtCellID,
                 rq_cpid = CallProcessId ind\<rparr>)))"

definition new_value :: "ind_request \<Rightarrow> node_id \<Rightarrow> metric_value" where
  "new_value rq nodeID =
     \<lparr>RawUEID = rq_ue rq, TgtCellID = rq_tgt rq, State = StateCreated,
      CallProcessID = rq_cpid rq, E2NodeID = nodeID\<rparr>"

definition put_new :: "ind_request \<Rightarrow> node_id \<Rightarrow> world \<Rightarrow> world" where
  "put_new rq nodeID w =
     (let (w1, a) = alloc (new_value rq nodeID) w in put_value (rq_key rq) a StateCreated w1)"

definition record_target :: "ind_request \<Rightarrow> node_id \<Rightarrow> world \<Rightarrow> world \<times> unit go" where
  "record_target rq nodeID w =
     (if HasEntry (rq_key rq) (mstore w) then
        (case Get (rq_key rq) (mstore w) of
           Fail e \<Rightarrow> (w, Fail e)
         | Panic \<Rightarrow> (w, Panic)
         | Ret v \<Rightarrow>
             (case load (Value v) w of
                Fail e \<Rightarrow> (w, Fail e)
              | Panic \<Rightarrow> (w, Panic)
              | Ret nv \<Rightarrow>
                  if TgtCellID nv \<noteq> rq_tgt rq then (put_new rq nodeID w, Ret ())
                  else if State nv = Denied then
                    (put_value (rq_key rq) (Value v) Denied w, Ret ())
                  else (w, Ret ())))
      else (put_new rq nodeID w, Ret ()))"

definition processInsertIndicationHeader2Message5 ::
  "codec \<Rightarrow> indication \<Rightarrow> node_id \<Rightarrow> world \<Rightarrow> world \<times> unit go" where
  "processInsertIndicationHeader2Message5 cd ind nodeID w =
     (case parse_indication cd ind of
        Fail e \<Rightarrow> (w, Fail e)
      | Panic \<Rightarrow> (w, Panic)
      | Ret rq \<Rightarrow> record_target rq nodeID w)"

definition processIndication ::
  "codec \<Rightarrow> indication \<Rightarrow> node_id \<Rightarrow> world \<Rightarrow> world \<times> unit go" where
  "processIndication cd ind nodeID w = processInsertIndicationHeader2Message5 cd ind nodeID w"

subsection \<open>The handler cut into atomic steps\<close>

datatype monitor_pc =
    M_Idle
  | M_Has ind_request
  | M_Get ind_request
  | M_Got ind_request addr
  | M_New ind_request
  | M_Same ind_request addr

fun monitor_step :: "node_id \<Rightarrow> monitor_pc \<Rightarrow> world \<Rightarrow> (world \<times> monitor_pc) go" where
  "monitor_step n M_Idle w = Ret (w, M_Idle)"
| "monitor_step n (M_Has rq) w =
     Ret (w, if HasEntry (rq_key rq) (mstore w) then M_Get rq else M_New rq)"
| "monitor_step n (M_Get rq) w =
     go_bind (Get (rq_key rq) (mstore w)) (\<lambda>v. Ret (w, M_Got rq (Value v)))"
| "monitor_step n (M_Got rq a) w =
     go_bind (load a w) (\<lambda>nv.
       Ret (w, if TgtCellID nv \<noteq> rq_tgt rq then M_New rq
               else if State nv = Denied then M_Same rq a
               else M_Idle))"
| "monitor_step n (M_New rq) w = Ret (put_new rq n w, M_Idle)"
| "monitor_step n (M_Same rq a) w = Ret (put_value (rq_key rq) a Denied w, M_Idle)"

text \<open>Running a handler without interference: at most four steps.\<close>

fun monitor_run :: "nat \<Rightarrow> node_id \<Rightarrow> monitor_pc \<Rightarrow> world \<Rightarrow> (world \<times> monitor_pc) go" where
  "monitor_run 0 n pc w = Ret (w, pc)"
| "monitor_run (Suc k) n pc w =
     (if pc = M_Idle then Ret (w, pc)
      else go_bind (monitor_step n pc w) (\<lambda>(w', pc'). monitor_run k n pc' w'))"

lemma monitor_run_record_target:
  "monitor_run 4 n (M_Has rq) w =
     (case record_target rq n w of
        (w', Ret _) \<Rightarrow> Ret (w', M_Idle) | (_, Fail e) \<Rightarrow> Fail e | (_, Panic) \<Rightarrow> Panic)"
proof (cases "records (mstore w) (rq_key rq)")
  case None
  then show ?thesis
    by (simp add: eval_nat_numeral record_target_def HasEntry_def del: monitor_step.simps)
      (simp add: HasEntry_def)
next
  case (Some e)
  show ?thesis
  proof (cases "Value e < length (heap w)")
    case True
    with Some show ?thesis
      by (cases "TgtCellID (heap w ! Value e) = rq_tgt rq"; cases "State (heap w ! Value e) = Denied")
        (simp_all add: eval_nat_numeral record_target_def HasEntry_def Get_def load_def)
  next
    case False
    with Some show ?thesis
      by (simp add: eval_nat_numeral record_target_def HasEntry_def Get_def load_def)
  qed
qed

subsection \<open>The receive loop of Start\<close>

text \<open>
  \<open>Start\<close> waits for the first error of the goroutine, or for the context, and returns: then
  nobody reads \<open>errCh\<close> any more. The goroutine goes on after its first error and blocks
  forever on the second send.
\<close>

record monitor_loop =
  returned :: "go_error option"
  blocked :: bool

definition loop_init :: monitor_loop where
  "loop_init = \<lparr>returned = None, blocked = False\<rparr>"

definition send_err :: "go_error \<Rightarrow> monitor_loop \<Rightarrow> monitor_loop" where
  "send_err e l = (if returned l = None then l\<lparr>returned := Some e\<rparr> else l\<lparr>blocked := True\<rparr>)"

definition ctx_done :: "monitor_loop \<Rightarrow> monitor_loop" where
  "ctx_done l = (if returned l = None then l\<lparr>returned := Some Canceled\<rparr> else l)"

text \<open>
  What the loop and \<open>Start\<close> meet, in order: \<open>Recv\<close> returns to the goroutine, or the select of
  \<open>Start\<close> takes the branch of the context. A turn is \<open>None\<close> on a panic. After a receive error the
  source still processes the zero indication that came with it.
\<close>

datatype loop_event = Received "go_error + indication" | CtxDone

fun loop_turn ::
  "codec \<Rightarrow> node_id \<Rightarrow> loop_event \<Rightarrow> world \<times> monitor_loop \<Rightarrow> (world \<times> monitor_loop) option"
  where
  "loop_turn cd n (Received r) wl =
     (let (w, l) = wl;
          (l1, ind) = (case r of Inl e \<Rightarrow> (send_err e l, zero_indication) | Inr i \<Rightarrow> (l, i))
      in if blocked l1 then Some (w, l1)
         else (case processIndication cd ind n w of
                 (w', Ret _) \<Rightarrow> Some (w', l1)
               | (w', Fail e) \<Rightarrow> Some (w', send_err e l1)
               | (w', Panic) \<Rightarrow> None))"
| "loop_turn cd n CtxDone wl = Some (fst wl, ctx_done (snd wl))"

text \<open>A goroutine that is blocked receives nothing any more.\<close>

primrec loop_run ::
  "codec \<Rightarrow> node_id \<Rightarrow> loop_event list \<Rightarrow> world \<times> monitor_loop \<Rightarrow> (world \<times> monitor_loop) option" where
  "loop_run cd n [] wl = Some wl"
| "loop_run cd n (ev # evs) wl =
     (if blocked (snd wl) \<and> ev \<noteq> CtxDone then loop_run cd n evs wl
      else (case loop_turn cd n ev wl of None \<Rightarrow> None | Some wl' \<Rightarrow> loop_run cd n evs wl'))"

subsection \<open>Effect of the handler\<close>

text \<open>The abstract effect of an indication on one row of the UE table.\<close>

definition spec_indication ::
  "string \<Rightarrow> (string \<times> mho_state) option \<Rightarrow> (string \<times> mho_state) option" where
  "spec_indication tgt row =
     (case row of
        None \<Rightarrow> Some (tgt, StateCreated)
      | Some (t, s) \<Rightarrow> Some (if t = tgt then (t, s) else (tgt, StateCreated)))"

text \<open>A request whose key was computed from its own UE, as \<open>parse_indication\<close> builds it.\<close>

definition rq_ok :: "ind_request \<Rightarrow> bool" where
  "rq_ok rq \<longleftrightarrow> ue_key (rq_ue rq) = Some (rq_key rq)"

lemma parse_indication_ok: "parse_indication cd ind = Ret rq \<Longrightarrow> rq_ok rq"
  by (auto simp: parse_indication_def go_simps Let_def rq_ok_def ue_key_def split: option.splits)

lemma parse_indication_cpid: "parse_indication cd ind = Ret rq \<Longrightarrow> rq_cpid rq = CallProcessId ind"
  by (auto simp: parse_indication_def go_simps Let_def split: option.splits)

lemma put_new_simps [store_simps]:
  "heap (put_new rq n w) = heap w @ [new_value rq n]"
  "mstore (put_new rq n w) = put_store (rq_key rq) (length (heap w)) StateCreated (mstore w)"
  by (simp_all add: put_new_def alloc_def put_value_def)

lemma new_value_simps [simp]:
  "RawUEID (new_value rq n) = rq_ue rq" "TgtCellID (new_value rq n) = rq_tgt rq"
  "State (new_value rq n) = StateCreated" "CallProcessID (new_value rq n) = rq_cpid rq"
  "E2NodeID (new_value rq n) = n"
  by (simp_all add: new_value_def)

lemma put_new_alt:
  "put_new rq n w = put_value (rq_key rq) (length (heap w)) StateCreated (fst (alloc (new_value rq n) w))"
  by (simp add: put_new_def alloc_def)

lemma wf_world_put_new: "wf_world w \<Longrightarrow> rq_ok rq \<Longrightarrow> wf_world (put_new rq n w)"
  unfolding put_new_alt
  by (rule wf_world_put_value) (auto simp: store_simps wf_world_alloc rq_ok_def)

lemma heap_ext_put_new: "heap_ext (heap w) (heap (put_new rq n w))"
  by (simp add: store_simps heap_ext_def nth_append)

lemma ue_table_put_new:
  "wf_world w \<Longrightarrow> ue_table (put_new rq n w) = (ue_table w)(rq_key rq \<mapsto> (rq_tgt rq, StateCreated))"
  by (simp add: put_new_alt ue_table_put_value ue_table_alloc store_simps)

text \<open>On a well-formed world the handler cannot fail or panic after parsing.\<close>

lemma record_target_cases:
  assumes "wf_world w"
  obtains
    (absent) "ue_table w (rq_key rq) = None" "record_target rq n w = (put_new rq n w, Ret ())"
  | (changed) t s where "ue_table w (rq_key rq) = Some (t, s)" "t \<noteq> rq_tgt rq"
      "record_target rq n w = (put_new rq n w, Ret ())"
  | (denied) e where "records (mstore w) (rq_key rq) = Some e"
      "ue_table w (rq_key rq) = Some (rq_tgt rq, Denied)"
      "record_target rq n w = (put_value (rq_key rq) (Value e) Denied w, Ret ())"
  | (same) s where "ue_table w (rq_key rq) = Some (rq_tgt rq, s)" "s \<noteq> Denied"
      "record_target rq n w = (w, Ret ())"
proof (cases "records (mstore w) (rq_key rq)")
  case None
  then show ?thesis by (intro absent) (auto simp: ue_table_def record_target_def HasEntry_def)
next
  case (Some e)
  with wf_worldD(2) [OF assms] have e: "Value e < length (heap w)" by blast
  then show ?thesis
    using Some changed denied same
    by (cases "TgtCellID (heap w ! Value e) = rq_tgt rq"; cases "State (heap w ! Value e) = Denied")
      (auto simp: ue_table_def record_target_def HasEntry_def Get_def load_def)
qed

lemma record_target_returns: "wf_world w \<Longrightarrow> snd (record_target rq n w) = Ret ()"
  by (erule record_target_cases [of w rq n]) auto

lemma record_target_wf:
  assumes "wf_world w" "rq_ok rq"
  shows "wf_world (fst (record_target rq n w))"
  using assms(1)
  by (cases rule: record_target_cases [where rq = rq and n = n])
    (auto simp: assms wf_world_put_new intro!: wf_world_put_value dest: wf_worldD [OF assms(1)])

lemma record_target_spec:
  assumes "wf_world w"
  shows "ue_table (fst (record_target rq n w)) =
           (ue_table w)(rq_key rq := spec_indication (rq_tgt rq) (ue_table w (rq_key rq)))"
  using assms
proof (cases rule: record_target_cases [where rq = rq and n = n])
  case (denied e)
  then show ?thesis
    by (auto simp: spec_indication_def ue_table_put_value ue_table_def)
qed (auto simp: spec_indication_def ue_table_put_new assms fun_upd_idem)

end
