(* ===== verification/Mho_Controller.thy ===== *)
theory Mho_Controller
  imports Ue_Table
begin

text \<open>
  \<open>pkg/controller/mho.go\<close>: the handover controller.

  \<open>controlHandover_event\<close> is the body of the range loop, run without interference;
  \<open>ctrl_step\<close> is the same code cut at the points where another goroutine can run: the read
  of the store, the write of the state through the shared pointer, and the \<open>Put\<close>.
  \<open>C_Init\<close> is the goroutine before it has registered its channel with \<open>Watch\<close>.
\<close>

definition decides :: "event \<Rightarrow> bool" where
  "decides e \<longleftrightarrow> EventMHOState e = StateCreated \<or> EventMHOState e = Denied"

text \<open>A failed \<open>Get\<close> is only logged; the nil entry it returned is then dereferenced.\<close>

definition controlHandover_event :: "event \<Rightarrow> world \<Rightarrow> world go" where
  "controlHandover_event e w =
     (if EvType e = Created \<or> EvType e = Updated then
        (case Get (EvKey e) (mstore w) of
           Ret v \<Rightarrow>
             go_bind (load (Value v) w) (\<lambda>nv.
             if EventMHOState e = StateCreated \<or> EventMHOState e = Denied then
               Ret (put_value (EvKey e) (Value v) Approved (set_state (Value v) Approved w))
             else Ret w)
         | _ \<Rightarrow> Panic)
      else Ret w)"

datatype ctrl_pc = C_Init | C_Range | C_Event event | C_Got event addr | C_Put event addr

fun ctrl_step :: "ctrl_pc \<Rightarrow> world \<Rightarrow> (world \<times> ctrl_pc) go" where
  "ctrl_step C_Init w = Ret (w, C_Init)"
| "ctrl_step C_Range w = Ret (w, C_Range)"
| "ctrl_step (C_Event e) w =
     (if EvType e = Created \<or> EvType e = Updated then
        (case Get (EvKey e) (mstore w) of
           Ret v \<Rightarrow> Ret (w, C_Got e (Value v))
         | _ \<Rightarrow> Panic)
      else Ret (w, C_Range))"
| "ctrl_step (C_Got e a) w =
     go_bind (load a w) (\<lambda>nv.
     if EventMHOState e = StateCreated \<or> EventMHOState e = Denied
     then Ret (set_state a Approved w, C_Put e a)
     else Ret (w, C_Range))"
| "ctrl_step (C_Put e a) w = Ret (put_value (EvKey e) a Approved w, C_Range)"

fun ctrl_run :: "nat \<Rightarrow> ctrl_pc \<Rightarrow> world \<Rightarrow> (world \<times> ctrl_pc) go" where
  "ctrl_run 0 pc w = Ret (w, pc)"
| "ctrl_run (Suc n) pc w =
     (if pc = C_Range then Ret (w, pc)
      else go_bind (ctrl_step pc w) (\<lambda>(w', pc'). ctrl_run n pc' w'))"

text \<open>Three steps finish any event, and run alone they are the body of the loop.\<close>

lemma ctrl_run_event:
  "ctrl_run 3 (C_Event e) w = go_bind (controlHandover_event e w) (\<lambda>w'. Ret (w', C_Range))"
proof (cases "records (mstore w) (EvKey e)")
  case None
  then show ?thesis by (simp add: eval_nat_numeral controlHandover_event_def Get_def)
next
  case (Some v)
  then show ?thesis
    by (cases "Value v < length (heap w)")
      (simp_all add: eval_nat_numeral controlHandover_event_def Get_def load_def)
qed

text \<open>How many steps a program point is away from the range loop.\<close>

fun ctrl_rank :: "ctrl_pc \<Rightarrow> nat" where
  "ctrl_rank C_Init = 0"
| "ctrl_rank C_Range = 0"
| "ctrl_rank (C_Event e) = 3"
| "ctrl_rank (C_Got e a) = 2"
| "ctrl_rank (C_Put e a) = 1"

lemma ctrl_step_rank:
  "ctrl_step pc w = Ret (w', pc') \<Longrightarrow> ctrl_rank pc' \<le> ctrl_rank pc - 1 \<and> (pc' = C_Init \<longleftrightarrow> pc = C_Init)"
  by (cases pc) (auto simp: go_simps split: if_splits go.splits)

lemma ctrl_rank_0: "ctrl_rank pc = 0 \<longleftrightarrow> pc = C_Init \<or> pc = C_Range"
  by (cases pc) auto

subsection \<open>Effect of the body\<close>

definition spec_approve :: "(string \<times> mho_state) option \<Rightarrow> (string \<times> mho_state) option" where
  "spec_approve row = map_option (\<lambda>(t, s). (t, Approved)) row"

lemma controlHandover_event_simps:
  assumes "wf_world w" "records (mstore w) (EvKey e) = Some v" "EvType e \<in> {Created, Updated}"
  shows "controlHandover_event e w =
           Ret (if decides e
                then put_value (EvKey e) (Value v) Approved (set_state (Value v) Approved w) else w)"
  using assms wf_worldD(2) [OF assms(1,2)]
  by (auto simp: controlHandover_event_def Get_def load_def decides_def)

lemma approve_spec:
  assumes "wf_world w" "records (mstore w) k = Some v"
  shows "ue_table (put_value k (Value v) st (set_state (Value v) st w)) =
           (ue_table w)(k \<mapsto> (TgtCellID (heap w ! Value v), st))"
  using wf_worldD(2) [OF assms]
  by (simp add: ue_table_put_value ue_table_set_state [OF assms] store_simps)

lemma wf_world_approve:
  assumes "wf_world w" "records (mstore w) k = Some v"
  shows "wf_world (put_value k (Value v) st (set_state (Value v) st w))"
  using wf_worldD [OF assms] wf_world_set_state [OF assms(1)]
  by (intro wf_world_put_value) (simp_all add: store_simps)

end
