(* ===== verification/Rc_Pdu.thy ===== *)
theory Rc_Pdu
  imports Ran_Param Ue_Id
begin

text \<open>
  \<open>pkg/utils/control/control.go\<close> and \<open>pkg/utils/subscription/subscription.go\<close>: building
  the E2SM-RC control header and message, the event trigger and the subscription action.

  The builders of \<open>pdubuilder\<close>, the generated \<open>Validate\<close> methods and \<open>proto.Marshal\<close> are
  not part of the repository: they are the fields of the record \<open>pdubuilder\<close>, an argument of
  every definition here. \<open>builds_faithfully\<close> is the documented behaviour of the builders,
  that a builder wraps its arguments in the message it is named after.
\<close>

datatype control_header = ControlHeaderFormat1 "ueid option" int int
datatype control_message_item = ControlMessageFormat1Item int ranparam_value_type
datatype control_message = ControlMessageFormat1 "control_message_item list"
datatype event_trigger = EventTriggerFormat2 int int
datatype action_definition = ActionDefinitionFormat3 int int "int list"

record pdubuilder =
  CreateE2SmRcControlHeaderFormat1 :: "ueid option \<Rightarrow> int \<Rightarrow> int \<Rightarrow> go_error + control_header"
  ValidateHeader :: "control_header \<Rightarrow> go_error option"
  MarshalHeader :: "control_header \<Rightarrow> go_error + octets"
  CreateRanparameterValuePrintableString :: "string \<Rightarrow> go_error + ranparam_value"
  CreateRanparameterValueTypeChoiceElementFalse ::
    "ranparam_value \<Rightarrow> go_error + ranparam_value_type"
  CreateRanparameterStructureItem :: "int \<Rightarrow> ranparam_value_type \<Rightarrow> go_error + ranparam_item"
  CreateRanParameterStructure :: "ranparam_item list \<Rightarrow> go_error + ranparam_structure"
  CreateRanparameterValueTypeChoiceStructure ::
    "ranparam_structure \<Rightarrow> go_error + ranparam_value_type"
  CreateE2SmRcControlMessageFormat1Item ::
    "int \<Rightarrow> ranparam_value_type \<Rightarrow> go_error + control_message_item"
  CreateE2SmRcControlMessageFormat1 :: "control_message_item list \<Rightarrow> go_error + control_message"
  ValidateMessage :: "control_message \<Rightarrow> go_error option"
  MarshalMessage :: "control_message \<Rightarrow> go_error + octets"
  CreateE2SmRcEventTriggerFormat2 :: "int \<Rightarrow> int \<Rightarrow> go_error + event_trigger"
  ValidateTrigger :: "event_trigger \<Rightarrow> go_error option"
  MarshalTrigger :: "event_trigger \<Rightarrow> go_error + octets"
  CreateE2SmRcActionDefinitionFormat3 :: "int \<Rightarrow> int \<Rightarrow> int list \<Rightarrow> go_error + action_definition"
  ValidateAction :: "action_definition \<Rightarrow> go_error option"
  MarshalAction :: "action_definition \<Rightarrow> go_error + octets"

subsection \<open>control.go\<close>

definition CreateRcControlHeader :: "pdubuilder \<Rightarrow> ueid option \<Rightarrow> go_error + octets" where
  "CreateRcControlHeader p ueID =
     err_bind (CreateE2SmRcControlHeaderFormat1 p ueID RicInsertStyleTypeID ControlActionID)
       (\<lambda>ctrlHdrFormat1.
     err_check (ValidateHeader p ctrlHdrFormat1)
     (err_bind (MarshalHeader p ctrlHdrFormat1) (\<lambda>protoByte. Inr protoByte)))"

definition CreateRcControlMessage :: "pdubuilder \<Rightarrow> string \<Rightarrow> go_error + octets" where
  "CreateRcControlMessage p tgtCellID =
     err_bind (CreateRanparameterValuePrintableString p tgtCellID) (\<lambda>nrcgiPrint.
     err_bind (CreateRanparameterValueTypeChoiceElementFalse p nrcgiPrint) (\<lambda>nrCgi.
     err_bind (CreateRanparameterStructureItem p NRCGIRANParameterID nrCgi) (\<lambda>nrCgiItem.
     err_bind (CreateRanParameterStructure p [nrCgiItem]) (\<lambda>nrCell.
     err_bind (CreateRanparameterValueTypeChoiceStructure p nrCell) (\<lambda>nrCellType.
     err_bind (CreateRanparameterStructureItem p NRCellRANParameterID nrCellType) (\<lambda>nrCellItem.
     err_bind (CreateRanParameterStructure p [nrCellItem]) (\<lambda>targetCell.
     err_bind (CreateRanparameterValueTypeChoiceStructure p targetCell) (\<lambda>targetCellType.
     err_bind (CreateRanparameterStructureItem p TargetCellRANParameterID targetCellType)
       (\<lambda>targetCellItem.
     err_bind (CreateRanParameterStructure p [targetCellItem]) (\<lambda>targetPrimaryCell.
     err_bind (CreateRanparameterValueTypeChoiceStructure p targetPrimaryCell)
       (\<lambda>targetPrimaryCellType.
     err_bind (CreateE2SmRcControlMessageFormat1Item p TargetPrimaryCellIDRANParameterID
                 targetPrimaryCellType) (\<lambda>targetPrimaryCellItem.
     err_bind (CreateE2SmRcControlMessageFormat1 p [targetPrimaryCellItem])
       (\<lambda>e2smRcControlMessage.
     err_check (ValidateMessage p e2smRcControlMessage)
     (err_bind (MarshalMessage p e2smRcControlMessage) (\<lambda>protoBytes. Inr protoBytes))
     )))))))))))))"

subsection \<open>subscription.go\<close>

definition CreateEventTriggerDefinition :: "pdubuilder \<Rightarrow> go_error + octets" where
  "CreateEventTriggerDefinition p =
     err_bind (CreateE2SmRcEventTriggerFormat2 p CallProcessTypeIDMobilityManagement
                 CallBreakpointIDHandoverPreparation) (\<lambda>eventTrigger.
     err_check (ValidateTrigger p eventTrigger)
     (err_bind (MarshalTrigger p eventTrigger) (\<lambda>protoBytes. Inr protoBytes)))"

record action =
  ActionID :: int
  ActionPayload :: octets

text \<open>The action type is always the insert action; the slice has one element.\<close>

definition CreateSubscriptionAction :: "pdubuilder \<Rightarrow> go_error + action list" where
  "CreateSubscriptionAction p =
     err_bind (CreateE2SmRcActionDefinitionFormat3 p RicInsertStyleTypeID RicInsertIndicationID [1])
       (\<lambda>ad.
     err_check (ValidateAction p ad)
     (err_bind (MarshalAction p ad) (\<lambda>adProto.
     Inr ([] @ [\<lparr>ActionID = RicActionID, ActionPayload = adProto\<rparr>]))))"

subsection \<open>The documented behaviour of the builders\<close>

definition builds_faithfully :: "pdubuilder \<Rightarrow> bool" where
  "builds_faithfully p \<longleftrightarrow>
     (\<forall>s. CreateRanparameterValuePrintableString p s = Inr (ValuePrintableString s)) \<and>
     (\<forall>v. CreateRanparameterValueTypeChoiceElementFalse p v = Inr (RanPChoiceElementFalse (Some v))) \<and>
     (\<forall>n t. CreateRanparameterStructureItem p n t =
              Inr (RanparameterStructureItem (Some n) (Some t))) \<and>
     (\<forall>xs. CreateRanParameterStructure p xs = Inr (RanparameterStructure (map Some xs))) \<and>
     (\<forall>s. CreateRanparameterValueTypeChoiceStructure p s = Inr (RanPChoiceStructure (Some s))) \<and>
     (\<forall>n t. CreateE2SmRcControlMessageFormat1Item p n t = Inr (ControlMessageFormat1Item n t)) \<and>
     (\<forall>xs. CreateE2SmRcControlMessageFormat1 p xs = Inr (ControlMessageFormat1 xs)) \<and>
     (\<forall>u s a. CreateE2SmRcControlHeaderFormat1 p u s a = Inr (ControlHeaderFormat1 u s a))"

text \<open>The value under the target primary cell parameter, and the whole control message.\<close>

definition target_value :: "string \<Rightarrow> ranparam_value_type" where
  "target_value tgt =
     (let item = (\<lambda>n t. Some (RanparameterStructureItem (Some n) (Some t)));
          struct = (\<lambda>i. RanPChoiceStructure (Some (RanparameterStructure [i])))
      in struct (item TargetCellRANParameterID
          (struct (item NRCellRANParameterID
            (struct (item NRCGIRANParameterID
              (RanPChoiceElementFalse (Some (ValuePrintableString tgt)))))))))"

definition target_message :: "string \<Rightarrow> control_message" where
  "target_message tgt = ControlMessageFormat1
     [ControlMessageFormat1Item TargetPrimaryCellIDRANParameterID (target_value tgt)]"

lemma CreateRcControlMessage_faithful:
  "builds_faithfully p \<Longrightarrow> CreateRcControlMessage p tgt =
     err_check (ValidateMessage p (target_message tgt)) (MarshalMessage p (target_message tgt))"
  by (cases "MarshalMessage p (target_message tgt)")
    (simp_all add: builds_faithfully_def CreateRcControlMessage_def target_message_def
      target_value_def Let_def)

lemma CreateRcControlHeader_faithful:
  "builds_faithfully p \<Longrightarrow> CreateRcControlHeader p u =
     (let h = ControlHeaderFormat1 u RicInsertStyleTypeID ControlActionID
      in err_check (ValidateHeader p h) (MarshalHeader p h))"
  by (cases "MarshalHeader p (ControlHeaderFormat1 u RicInsertStyleTypeID ControlActionID)")
    (simp_all add: builds_faithfully_def CreateRcControlHeader_def Let_def)

text \<open>A concrete builder: every step succeeds, and marshalling is a stand-in that keeps the
  length of the target identifier only.\<close>

definition sample_pdu :: pdubuilder where
  "sample_pdu = \<lparr>
     CreateE2SmRcControlHeaderFormat1 = (\<lambda>u s a. Inr (ControlHeaderFormat1 u s a)),
     ValidateHeader = (\<lambda>_. None),
     MarshalHeader = (\<lambda>_. Inr [1]),
     CreateRanparameterValuePrintableString = (\<lambda>s. Inr (ValuePrintableString s)),
     CreateRanparameterValueTypeChoiceElementFalse = (\<lambda>v. Inr (RanPChoiceElementFalse (Some v))),
     CreateRanparameterStructureItem = (\<lambda>n t. Inr (RanparameterStructureItem (Some n) (Some t))),
     CreateRanParameterStructure = (\<lambda>xs. Inr (RanparameterStructure (map Some xs))),
     CreateRanparameterValueTypeChoiceStructure = (\<lambda>s. Inr (RanPChoiceStructure (Some s))),
     CreateE2SmRcControlMessageFormat1Item = (\<lambda>n t. Inr (ControlMessageFormat1Item n t)),
     CreateE2SmRcControlMessageFormat1 = (\<lambda>xs. Inr (ControlMessageFormat1 xs)),
     ValidateMessage = (\<lambda>_. None),
     MarshalMessage = (\<lambda>_. Inr [2]),
     CreateE2SmRcEventTriggerFormat2 = (\<lambda>a b. Inr (EventTriggerFormat2 a b)),
     ValidateTrigger = (\<lambda>_. None),
     MarshalTrigger = (\<lambda>_. Inr [3]),
     CreateE2SmRcActionDefinitionFormat3 = (\<lambda>a b c. Inr (ActionDefinitionFormat3 a b c)),
     ValidateAction = (\<lambda>_. None),
     MarshalAction = (\<lambda>_. Inr [4])\<rparr>"

lemma sample_pdu_faithful: "builds_faithfully sample_pdu"
  by (simp add: builds_faithfully_def sample_pdu_def)

lemma search_target_value:
  "GetRanParameterValue (Some (target_value tgt)) NRCGIRANParameterID =
     Ret (Some (ValuePrintableString tgt))"
  by (simp add: ran_parameter_ids search_is_first_parameter(1) target_value_def Let_def
      first_parameter_Cons parameters.simps ranparam_getters item_id_ptr_def)

subsection \<open>Properties\<close>

text \<open>
  C28. The control message carries the target cell: with builders that behave as documented,
  \<open>CreateRcControlMessage\<close> marshals one message, whose only item is the target primary cell
  parameter; the depth-first search of \<open>GetRanParameterValue\<close> for the NR CGI in that item
  finds exactly the target cell that was given, and a failed validation is returned instead.
\<close>

theorem control_message_roundtrip:
  assumes "builds_faithfully p"
  shows "\<exists>t. CreateRcControlMessage p tgt =
      (case ValidateMessage p (ControlMessageFormat1 [ControlMessageFormat1Item 1 t]) of
         Some e \<Rightarrow> Inl e
       | None \<Rightarrow> MarshalMessage p (ControlMessageFormat1 [ControlMessageFormat1Item 1 t])) \<and>
    GetRanParameterValue (Some t) NRCGIRANParameterID = Ret (Some (ValuePrintableString tgt))"
  by (rule exI [of _ "target_value tgt"])
    (auto simp: CreateRcControlMessage_faithful [OF assms] err_check_def target_message_def
      TargetPrimaryCellIDRANParameterID_def search_target_value split: option.splits)

theorem control_message_roundtrip_witness:
  "\<exists>t. CreateRcControlMessage sample_pdu ''c1'' = Inr [2] \<and>
     GetRanParameterValue (Some t) NRCGIRANParameterID = Ret (Some (ValuePrintableString ''c1''))"
  using control_message_roundtrip [OF sample_pdu_faithful, of "''c1''"]
  by (auto simp: sample_pdu_def)

end
