(* ===== verification/Mho_Southbound.thy ===== *)
theory Mho_Southbound
  imports Ue_Table Rc_Pdu
begin

text \<open>
  \<open>watchMHOChanges\<close> of \<open>pkg/southbound/e2/manager.go\<close>: for one E2 node, send a control
  message for every approved UE of that node, then mark it done.

  \<open>node.Control\<close> is a call of the E2 client: the model records the message handed to it; its
  outcome and error are only logged by the source, so they do not influence the run. A
  header or payload that could not be built is logged too, and the message is sent with the
  nil bytes that came with the error. \<open>node_step\<close> is the handler cut at the store calls.
\<close>

record control_msg =
  cm_node :: node_id
  cm_header :: octets
  cm_payload :: octets
  cm_cpid :: octets

definition bytes_or_nil :: "go_error + octets \<Rightarrow> octets" where
  "bytes_or_nil r = (case r of Inl _ \<Rightarrow> [] | Inr b \<Rightarrow> b)"

definition control_for :: "pdubuilder \<Rightarrow> node_id \<Rightarrow> metric_value \<Rightarrow> control_msg" where
  "control_for p n nv =
     \<lparr>cm_node = n,
      cm_header = bytes_or_nil (CreateRcControlHeader p (RawUEID nv)),
      cm_payload = bytes_or_nil (CreateRcControlMessage p (TgtCellID nv)),
      cm_cpid = CallProcessID nv\<rparr>"

definition watchMHOChanges_event ::
  "pdubuilder \<Rightarrow> node_id \<Rightarrow> event \<Rightarrow> world \<Rightarrow> (world \<times> control_msg list) go" where
  "watchMHOChanges_event p e2nodeID e w =
     (if EvType e = Updated then
        (case Get (EvKey e) (mstore w) of
           Ret v \<Rightarrow>
             go_bind (load (Value v) w) (\<lambda>nv.
             if EventMHOState e = Approved \<and> E2NodeID nv = e2nodeID then
               Ret (put_value (EvKey e) (Value v) Done (set_state (Value v) Done w),
                    [control_for p e2nodeID nv])
             else Ret (w, []))
         | _ \<Rightarrow> Panic)
      else Ret (w, []))"

datatype node_pc =
    N_Init
  | N_Range
  | N_Event event
  | N_Got event addr
  | N_Sent event addr
  | N_Put event addr
  | N_End

fun node_step ::
  "pdubuilder \<Rightarrow> node_id \<Rightarrow> node_pc \<Rightarrow> world \<Rightarrow> (world \<times> node_pc \<times> control_msg list) go" where
  "node_step p n N_Init w = Ret (w, N_Init, [])"
| "node_step p n N_Range w = Ret (w, N_Range, [])"
| "node_step p n N_End w = Ret (w, N_End, [])"
| "node_step p n (N_Event e) w =
     (if EvType e = Updated then
        (case Get (EvKey e) (mstore w) of
           Ret v \<Rightarrow> Ret (w, N_Got e (Value v), [])
         | _ \<Rightarrow> Panic)
      else Ret (w, N_Range, []))"
| "node_step p n (N_Got e a) w =
     go_bind (load a w) (\<lambda>nv.
     if EventMHOState e = Approved \<and> E2NodeID nv = n
     then Ret (w, N_Sent e a, [control_for p n nv])
     else Ret (w, N_Range, []))"
| "node_step p n (N_Sent e a) w = Ret (set_state a Done w, N_Put e a, [])"
| "node_step p n (N_Put e a) w = Ret (put_value (EvKey e) a Done w, N_Range, [])"

fun node_run ::
  "pdubuilder \<Rightarrow> nat \<Rightarrow> node_id \<Rightarrow> node_pc \<Rightarrow> world \<Rightarrow> (world \<times> node_pc \<times> control_msg list) go" where
  "node_run p 0 n pc w = Ret (w, pc, [])"
| "node_run p (Suc k) n pc w =
     (if pc = N_Range then Ret (w, pc, [])
      else go_bind (node_step p n pc w) (\<lambda>(w', pc', out).
           go_bind (node_run p k n pc' w') (\<lambda>(w'', pc'', out'). Ret (w'', pc'', out @ out'))))"

text \<open>Four steps finish any event, and run alone they are the body of the loop.\<close>

lemma node_run_event:
  "node_run p 4 n (N_Event e) w =
     go_bind (watchMHOChanges_event p n e w) (\<lambda>(w', out). Ret (w', N_Range, out))"
proof (cases "records (mstore w) (EvKey e)")
  case None
  then show ?thesis by (simp add: eval_nat_numeral watchMHOChanges_event_def Get_def)
next
  case (Some v)
  then show ?thesis
    by (cases "Value v < length (heap w)")
      (simp_all add: eval_nat_numeral watchMHOChanges_event_def Get_def load_def)
qed

lemma watchMHOChanges_event_simps:
  assumes "wf_world w" "records (mstore w) (EvKey e) = Some v" "EvType e = Updated"
  shows "watchMHOChanges_event p n e w =
           Ret (if EventMHOState e = Approved \<and> E2NodeID (heap w ! Value v) = n
                then (put_value (EvKey e) (Value v) Done (set_state (Value v) Done w),
                      [control_for p n (heap w ! Value v)])
                else (w, []))"
  using assms wf_worldD(2) [OF assms(1,2)]
  by (auto simp: watchMHOChanges_event_def Get_def load_def)

lemma control_for_ident: "same_ident u v \<Longrightarrow> control_for p n u = control_for p n v"
  by (simp add: control_for_def same_ident_def)

end
