(* ===== verification/Mho_Invariants.thy ===== *)
theory Mho_Invariants
  imports Mho_Monitor Mho_Controller Mho_Southbound
begin

text \<open>
  The facts that every atomic step of the monitor, the controller and the southbound keeps:
  how a world may evolve (\<open>world_le\<close>), what holds of the shared world (\<open>world_ok\<close>), and what
  each process may rely on at each of its program points (\<open>monitor_ok\<close>, \<open>ctrl_ok\<close>,
  \<open>node_ok\<close>). \<open>inds\<close> is the list of indications accepted so far, each with the node that
  sent it; it is the provenance that values and control messages are traced back to.
\<close>

type_synonym ind_log = "(node_id \<times> ind_request) list"

subsection \<open>Evolution of the world\<close>

definition world_le :: "world \<Rightarrow> world \<Rightarrow> bool" where
  "world_le w w' \<longleftrightarrow> heap_ext (heap w) (heap w') \<and>
     dom (records (mstore w)) \<subseteq> dom (records (mstore w'))"

lemma world_le_refl [simp]: "world_le w w"
  by (simp add: world_le_def)

lemma world_le_trans: "world_le u v \<Longrightarrow> world_le v w \<Longrightarrow> world_le u w"
  unfolding world_le_def using heap_ext_trans by blast

lemma world_le_put_new: "world_le w (put_new rq n w)"
  using heap_ext_put_new [of w rq n] by (auto simp: world_le_def store_simps)

lemma world_le_set_state: "world_le w (set_state a st w)"
  by (simp add: world_le_def heap_ext_set_state store_simps)

lemma world_le_put_value: "world_le w (put_value k a st w)"
  by (auto simp: world_le_def store_simps)

subsection \<open>Events, pointers, values, control messages\<close>

text \<open>The states that the code ever stores: nothing writes Waiting or Denied.\<close>

definition live_states :: "mho_state set" where
  "live_states = {StateCreated, Approved, Done}"

definition ev_ok :: "world \<Rightarrow> event \<Rightarrow> bool" where
  "ev_ok w e \<longleftrightarrow> HasEntry (EvKey e) (mstore w) \<and> EvType e \<in> {Created, Updated} \<and>
     EventMHOState e \<in> live_states"

definition ptr_ok :: "world \<Rightarrow> string \<Rightarrow> addr \<Rightarrow> bool" where
  "ptr_ok w k a \<longleftrightarrow> a < length (heap w) \<and> ue_key (RawUEID (heap w ! a)) = Some k"

definition req_ok :: "ind_log \<Rightarrow> node_id \<Rightarrow> ind_request \<Rightarrow> bool" where
  "req_ok inds n rq \<longleftrightarrow> rq_ok rq \<and> (n, rq) \<in> set inds"

definition val_ok :: "ind_log \<Rightarrow> metric_value \<Rightarrow> bool" where
  "val_ok inds mv \<longleftrightarrow> State mv \<in> live_states \<and>
     (\<exists>rq. rq_ok rq \<and> (E2NodeID mv, rq) \<in> set inds \<and> RawUEID mv = rq_ue rq \<and>
        TgtCellID mv = rq_tgt rq \<and> CallProcessID mv = rq_cpid rq)"

definition control_ok :: "pdubuilder \<Rightarrow> ind_log \<Rightarrow> control_msg \<Rightarrow> bool" where
  "control_ok p inds c \<longleftrightarrow>
     (\<exists>rq. (cm_node c, rq) \<in> set inds \<and>
        cm_header c = bytes_or_nil (CreateRcControlHeader p (rq_ue rq)) \<and>
        cm_payload c = bytes_or_nil (CreateRcControlMessage p (rq_tgt rq)) \<and>
        cm_cpid c = rq_cpid rq)"

lemma HasEntry_mono: "world_le w w' \<Longrightarrow> HasEntry k (mstore w) \<Longrightarrow> HasEntry k (mstore w')"
  by (auto simp: world_le_def HasEntry_def dom_def)

lemma ev_ok_mono: "world_le w w' \<Longrightarrow> ev_ok w e \<Longrightarrow> ev_ok w' e"
  by (simp add: ev_ok_def HasEntry_mono)

lemma ptr_ok_mono: "world_le w w' \<Longrightarrow> ptr_ok w k a \<Longrightarrow> ptr_ok w' k a"
  by (auto simp: world_le_def heap_ext_def ptr_ok_def same_ident_def)

lemma req_ok_mono: "set inds \<subseteq> set inds' \<Longrightarrow> req_ok inds n rq \<Longrightarrow> req_ok inds' n rq"
  by (auto simp: req_ok_def)

lemma val_ok_mono: "set inds \<subseteq> set inds' \<Longrightarrow> val_ok inds v \<Longrightarrow> val_ok inds' v"
  unfolding val_ok_def by blast

lemma control_ok_mono: "set inds \<subseteq> set inds' \<Longrightarrow> control_ok p inds c \<Longrightarrow> control_ok p inds' c"
  unfolding control_ok_def by blast

lemma control_for_ok: "val_ok inds nv \<Longrightarrow> E2NodeID nv = n \<Longrightarrow> control_ok p inds (control_for p n nv)"
  by (auto simp: val_ok_def control_ok_def control_for_def)

subsection \<open>The shared world\<close>

definition world_ok :: "ind_log \<Rightarrow> world \<Rightarrow> bool" where
  "world_ok inds w \<longleftrightarrow> wf_world w \<and> (\<forall>v \<in> set (heap w). val_ok inds v) \<and>
     (\<forall>e \<in> set (sends (mstore w)). ev_ok w e)"

lemma world_okD:
  assumes "world_ok inds w"
  shows "wf_world w" "a < length (heap w) \<Longrightarrow> val_ok inds (heap w ! a)"
    "e \<in> set (sends (mstore w)) \<Longrightarrow> ev_ok w e"
  using assms by (auto simp: world_ok_def)

lemma world_ok_mono: "set inds \<subseteq> set inds' \<Longrightarrow> world_ok inds w \<Longrightarrow> world_ok inds' w"
  by (auto simp: world_ok_def intro: val_ok_mono)

lemma world_ok_sends:
  assumes "world_ok inds w" "world_le w w'" "wf_world w'" "\<forall>v \<in> set (heap w'). val_ok inds v"
    and "\<And>e. e \<in> set (sends (mstore w')) \<Longrightarrow> e \<in> set (sends (mstore w)) \<or> ev_ok w' e"
  shows "world_ok inds w'"
  using assms unfolding world_ok_def by (meson ev_ok_mono)

lemma put_event_ok: "st \<in> live_states \<Longrightarrow> ev_ok (put_value k a st w) (put_event k a st (mstore w))"
  by (simp add: ev_ok_def store_simps HasEntry_def)

lemma world_ok_put_value:
  assumes "world_ok inds w" "ptr_ok w k a" "st \<in> live_states"
  shows "world_ok inds (put_value k a st w)"
proof (rule world_ok_sends [OF assms(1) world_le_put_value])
  show "wf_world (put_value k a st w)"
    using assms by (intro wf_world_put_value) (auto simp: ptr_ok_def dest: world_okD)
  show "\<forall>v \<in> set (heap (put_value k a st w)). val_ok inds v"
    using assms(1) by (simp add: store_simps world_ok_def)
  show "e \<in> set (sends (mstore w)) \<or> ev_ok (put_value k a st w) e"
    if "e \<in> set (sends (mstore (put_value k a st w)))" for e
    using that put_event_ok [OF assms(3)] by (auto simp: store_simps)
qed

lemma world_ok_set_state:
  assumes "world_ok inds w" "st \<in> live_states" "a < length (heap w)"
  shows "world_ok inds (set_state a st w)"
proof (rule world_ok_sends [OF assms(1) world_le_set_state])
  show "wf_world (set_state a st w)"
    using assms(1) by (intro wf_world_set_state) (rule world_okD)
  show "\<forall>v \<in> set (heap (set_state a st w)). val_ok inds v"
  proof
    fix v
    assume "v \<in> set (heap (set_state a st w))"
    then have "v = (heap w ! a)\<lparr>State := st\<rparr> \<or> v \<in> set (heap w)"
      by (auto simp: set_state_def dest: set_list_updateD)
    then show "val_ok inds v"
      using assms world_okD(2) [OF assms(1,3)] by (auto simp: val_ok_def world_ok_def)
  qed
qed (simp add: store_simps)

lemma world_ok_put_new:
  assumes "world_ok inds w" "req_ok inds n rq"
  shows "world_ok inds (put_new rq n w)"
proof (rule world_ok_sends [OF assms(1) world_le_put_new])
  show "wf_world (put_new rq n w)"
    using assms by (auto simp: req_ok_def intro: wf_world_put_new world_okD)
  show "\<forall>v \<in> set (heap (put_new rq n w)). val_ok inds v"
    using assms by (auto simp: store_simps world_ok_def req_ok_def val_ok_def live_states_def)
  show "e \<in> set (sends (mstore w)) \<or> ev_ok (put_new rq n w) e"
    if "e \<in> set (sends (mstore (put_new rq n w)))" for e
    using that put_event_ok [of StateCreated "rq_key rq" "length (heap w)" "fst (alloc (new_value rq n) w)"]
    by (auto simp: put_new_alt store_simps live_states_def)
qed

lemma get_ptr_ok:
  "world_ok inds w \<Longrightarrow> HasEntry k (mstore w) \<Longrightarrow>
   \<exists>v. Get k (mstore w) = Ret v \<and> ptr_ok w k (Value v)"
  using wf_worldD [of w k] by (auto simp: HasEntry_def Get_def ptr_ok_def world_ok_def)

subsection \<open>The processes\<close>

fun monitor_ok :: "ind_log \<Rightarrow> node_id \<Rightarrow> world \<Rightarrow> monitor_pc \<Rightarrow> bool" where
  "monitor_ok inds n w M_Idle \<longleftrightarrow> True"
| "monitor_ok inds n w (M_Has rq) \<longleftrightarrow> req_ok inds n rq"
| "monitor_ok inds n w (M_Get rq) \<longleftrightarrow> req_ok inds n rq \<and> HasEntry (rq_key rq) (mstore w)"
| "monitor_ok inds n w (M_Got rq a) \<longleftrightarrow> req_ok inds n rq \<and> ptr_ok w (rq_key rq) a"
| "monitor_ok inds n w (M_New rq) \<longleftrightarrow> req_ok inds n rq"
| "monitor_ok inds n w (M_Same rq a) \<longleftrightarrow> False"

fun ctrl_ok :: "world \<Rightarrow> ctrl_pc \<Rightarrow> bool" where
  "ctrl_ok w C_Init \<longleftrightarrow> True"
| "ctrl_ok w C_Range \<longleftrightarrow> True"
| "ctrl_ok w (C_Event e) \<longleftrightarrow> ev_ok w e"
| "ctrl_ok w (C_Got e a) \<longleftrightarrow> ev_ok w e \<and> ptr_ok w (EvKey e) a"
| "ctrl_ok w (C_Put e a) \<longleftrightarrow> ev_ok w e \<and> ptr_ok w (EvKey e) a"

fun node_ok :: "world \<Rightarrow> node_pc \<Rightarrow> bool" where
  "node_ok w N_Init \<longleftrightarrow> True"
| "node_ok w N_Range \<longleftrightarrow> True"
| "node_ok w N_End \<longleftrightarrow> True"
| "node_ok w (N_Event e) \<longleftrightarrow> ev_ok w e"
| "node_ok w (N_Got e a) \<longleftrightarrow> ev_ok w e \<and> ptr_ok w (EvKey e) a"
| "node_ok w (N_Sent e a) \<longleftrightarrow> ev_ok w e \<and> ptr_ok w (EvKey e) a"
| "node_ok w (N_Put e a) \<longleftrightarrow> ev_ok w e \<and> ptr_ok w (EvKey e) a"

lemma monitor_ok_mono:
  "world_le w w' \<Longrightarrow> set inds \<subseteq> set inds' \<Longrightarrow> monitor_ok inds n w pc \<Longrightarrow> monitor_ok inds' n w' pc"
  by (cases pc) (auto intro: req_ok_mono HasEntry_mono ptr_ok_mono)

lemma ctrl_ok_mono: "world_le w w' \<Longrightarrow> ctrl_ok w pc \<Longrightarrow> ctrl_ok w' pc"
  by (cases pc) (auto intro: ev_ok_mono ptr_ok_mono)

lemma node_ok_mono: "world_le w w' \<Longrightarrow> node_ok w pc \<Longrightarrow> node_ok w' pc"
  by (cases pc) (auto intro: ev_ok_mono ptr_ok_mono)

text \<open>What one atomic step of a process guarantees to all the others.\<close>

lemma monitor_step_ok:
  assumes "world_ok inds w" "monitor_ok inds n w pc"
  shows "\<exists>w' pc'. monitor_step n pc w = Ret (w', pc') \<and> world_le w w' \<and> world_ok inds w' \<and>
           monitor_ok inds n w' pc'"
proof (cases pc)
  case (M_Get rq)
  with assms get_ptr_ok show ?thesis by fastforce
next
  case (M_Got rq a)
  with assms(2) have a: "a < length (heap w)" by (simp add: ptr_ok_def)
  with assms(1) have "State (heap w ! a) \<noteq> Denied"
    by (auto simp: live_states_def val_ok_def dest!: world_okD(2))
  with a M_Got assms show ?thesis by (simp add: load_def)
qed (use assms in \<open>auto intro: world_ok_put_new world_le_put_new\<close>)

lemma ctrl_step_ok:
  assumes "world_ok inds w" "ctrl_ok w pc"
  shows "\<exists>w' pc'. ctrl_step pc w = Ret (w', pc') \<and> world_le w w' \<and> world_ok inds w' \<and> ctrl_ok w' pc'"
proof (cases pc)
  case (C_Event e)
  with assms have "HasEntry (EvKey e) (mstore w)" by (simp add: ev_ok_def)
  with C_Event assms get_ptr_ok show ?thesis by fastforce
next
  case (C_Got e a)
  with assms have "a < length (heap w)" by (simp add: ptr_ok_def)
  moreover have "ctrl_ok (set_state a Approved w) (C_Put e a)"
    using C_Got assms(2) world_le_set_state by (auto intro: ev_ok_mono ptr_ok_mono)
  ultimately show ?thesis
    using C_Got assms by (auto simp: load_def live_states_def intro: world_ok_set_state world_le_set_state)
next
  case (C_Put e a)
  with assms show ?thesis
    by (auto simp: live_states_def intro: world_ok_put_value world_le_put_value)
qed (use assms in auto)

lemma node_step_ok:
  assumes "world_ok inds w" "node_ok w pc"
  shows "\<exists>w' pc' out. node_step p n pc w = Ret (w', pc', out) \<and> world_le w w' \<and> world_ok inds w' \<and>
           node_ok w' pc' \<and> (\<forall>c \<in> set out. control_ok p inds c)"
proof (cases pc)
  case (N_Event e)
  with assms have "HasEntry (EvKey e) (mstore w)" by (simp add: ev_ok_def)
  with N_Event assms get_ptr_ok show ?thesis by fastforce
next
  case (N_Got e a)
  with assms have "a < length (heap w)" by (simp add: ptr_ok_def)
  with N_Got assms show ?thesis
    by (auto simp: load_def intro: control_for_ok world_okD)
next
  case (N_Sent e a)
  moreover have "node_ok (set_state a Done w) (N_Put e a)"
    using N_Sent assms(2) world_le_set_state by (auto intro: ev_ok_mono ptr_ok_mono)
  ultimately show ?thesis
    using assms by (auto simp: live_states_def ptr_ok_def intro: world_ok_set_state world_le_set_state)
next
  case (N_Put e a)
  with assms show ?thesis
    by (auto simp: live_states_def intro: world_ok_put_value world_le_put_value)
qed (use assms in auto)

subsection \<open>The contract of a process\<close>

text \<open>
  Monitor, controller and southbound share one contract: under the shared invariant a step
  returns (no error, no panic), lets the world evolve by \<open>world_le\<close> only, keeps the
  invariant, and emits traceable control messages; and what a process relies on survives any
  such evolution. It follows once for all that a process interleaved with an environment
  that keeps the same contract never fails.
\<close>

primrec interleaved ::
  "('pc \<Rightarrow> world \<Rightarrow> (world \<times> 'pc \<times> control_msg list) go) \<Rightarrow> (world \<Rightarrow> world) list
     \<Rightarrow> 'pc \<Rightarrow> world \<Rightarrow> (world \<times> 'pc \<times> control_msg list) go" where
  "interleaved step [] pc w = Ret (w, pc, [])"
| "interleaved step (env # envs) pc w =
     go_bind (step pc (env w)) (\<lambda>(w', pc', out).
     go_bind (interleaved step envs pc' w') (\<lambda>(w'', pc'', out'). Ret (w'', pc'', out @ out')))"

definition env_ok :: "ind_log \<Rightarrow> (world \<Rightarrow> world) \<Rightarrow> bool" where
  "env_ok inds env \<longleftrightarrow> (\<forall>w. world_ok inds w \<longrightarrow> world_ok inds (env w) \<and> world_le w (env w))"

locale guarded_process =
  fixes step :: "'pc \<Rightarrow> world \<Rightarrow> (world \<times> 'pc \<times> control_msg list) go"
    and ok :: "ind_log \<Rightarrow> world \<Rightarrow> 'pc \<Rightarrow> bool"
    and pdu :: pdubuilder
  assumes ok_mono: "world_le w w' \<Longrightarrow> set inds \<subseteq> set inds' \<Longrightarrow> ok inds w pc \<Longrightarrow> ok inds' w' pc"
    and step_ok: "world_ok inds w \<Longrightarrow> ok inds w pc \<Longrightarrow>
      \<exists>w' pc' out. step pc w = Ret (w', pc', out) \<and> world_le w w' \<and> world_ok inds w' \<and>
        ok inds w' pc' \<and> (\<forall>c \<in> set out. control_ok pdu inds c)"
begin

lemma step_cases:
  assumes "world_ok inds w" "ok inds w pc"
  obtains w' pc' out where "step pc w = Ret (w', pc', out)" "world_le w w'" "world_ok inds w'"
    "ok inds w' pc'" "\<forall>c \<in> set out. control_ok pdu inds c"
  using step_ok [OF assms] by blast

lemma ok_env: "env_ok inds env \<Longrightarrow> world_ok inds w \<Longrightarrow> ok inds w pc \<Longrightarrow> ok inds (env w) pc"
  unfolding env_ok_def by (blast intro: ok_mono)

lemma interleaved_ok:
  assumes "world_ok inds w" "ok inds w pc" "\<forall>env \<in> set envs. env_ok inds env"
  shows "\<exists>w' pc' out. interleaved step envs pc w = Ret (w', pc', out) \<and> world_ok inds w' \<and>
           ok inds w' pc' \<and> (\<forall>c \<in> set out. control_ok pdu inds c)"
  using assms
proof (induction envs arbitrary: pc w)
  case Nil
  then show ?case by simp
next
  case (Cons env envs)
  have "world_ok inds (env w)" "ok inds (env w) pc"
    using Cons.prems ok_env [of inds env w pc] by (auto simp: env_ok_def)
  then obtain w1 pc1 out1 where s1: "step pc (env w) = Ret (w1, pc1, out1)" "world_ok inds w1"
    "ok inds w1 pc1" "\<forall>c \<in> set out1. control_ok pdu inds c"
    by (rule step_cases)
  with Cons.IH [of w1 pc1] Cons.prems(3) show ?case by fastforce
qed

end

definition silent :: "(world \<times> 'pc) go \<Rightarrow> (world \<times> 'pc \<times> control_msg list) go" where
  "silent r = go_bind r (\<lambda>(w, pc). Ret (w, pc, []))"

interpretation mon: guarded_process "\<lambda>pc w. silent (monitor_step n pc w)"
  "\<lambda>inds w pc. monitor_ok inds n w pc" p for n p
proof
  show "\<exists>w' pc' out. silent (monitor_step n pc w) = Ret (w', pc', out) \<and> world_le w w' \<and>
          world_ok inds w' \<and> monitor_ok inds n w' pc' \<and> (\<forall>c \<in> set out. control_ok p inds c)"
    if "world_ok inds w" "monitor_ok inds n w pc" for inds w pc
    using monitor_step_ok [OF that] by (auto simp: silent_def)
qed (rule monitor_ok_mono)

interpretation ctl: guarded_process "\<lambda>pc w. silent (ctrl_step pc w)" "\<lambda>inds. ctrl_ok" p for p
proof
  show "\<exists>w' pc' out. silent (ctrl_step pc w) = Ret (w', pc', out) \<and> world_le w w' \<and>
          world_ok inds w' \<and> ctrl_ok w' pc' \<and> (\<forall>c \<in> set out. control_ok p inds c)"
    if "world_ok inds w" "ctrl_ok w pc" for inds w pc
    using ctrl_step_ok [OF that] by (auto simp: silent_def)
qed (rule ctrl_ok_mono)

lemma interleaved_ctrl:
  "interleaved (\<lambda>pc w. silent (ctrl_step pc w)) envs pc w = Ret (w', pc', out) \<Longrightarrow> pc \<noteq> C_Init \<Longrightarrow>
   out = [] \<and> pc' \<noteq> C_Init \<and> ctrl_rank pc' \<le> ctrl_rank pc - length envs"
proof (induction envs arbitrary: pc w out)
  case Nil
  then show ?case by simp
next
  case (Cons env envs)
  then obtain w1 pc1 out1 where s: "ctrl_step pc (env w) = Ret (w1, pc1)"
    "interleaved (\<lambda>pc w. silent (ctrl_step pc w)) envs pc1 w1 = Ret (w', pc', out1)" "out = out1"
    by (auto simp: silent_def go_simps)
  with Cons.IH [OF s(2)] ctrl_step_rank [OF s(1)] Cons.prems(2) show ?case by auto
qed

interpretation nod: guarded_process "node_step p n" "\<lambda>inds. node_ok" p for p n
  by unfold_locales (auto intro: node_ok_mono node_step_ok)

end
