(* ===== verification/Mho_System.thy ===== *)
theory Mho_System
  imports Mho_Invariants
begin

text \<open>
  The running application: one controller, and per E2 connection one monitor and one
  southbound watcher, all sharing the metric store, as interleaved atomic steps.

  A process stands at a program point (\<open>monitor_pc\<close>, \<open>ctrl_pc\<close>, \<open>node_pc\<close>) and moves by the
  step functions of its component. \<open>Watchers.Send\<close> starts a goroutine per event; when it runs
  it ranges over the watchers and offers the event to each channel in turn, and each
  (unbuffered) channel takes it when its reader is back in its range loop. The map it ranges
  over is the live one: a watcher added meanwhile may still be visited, at any later place;
  a removal replaces the map, and does not disturb a range under way. The Go scheduler is the
  choice of the next step.

  When the topology watch returns, the context of all node watchers is cancelled: for each of
  them the goroutine of \<open>Watch\<close> then removes the watcher and closes its channel, which ends the
  range loop of its reader and panics a goroutine that offers an event on it. A panic ends the
  process: \<open>sys_crash\<close> says who caused it, and no step leaves such a state. The context of the
  controller is never cancelled.

  \<open>sys_inds\<close> records the indications accepted by the monitors and \<open>sys_controls\<close> the control
  messages handed to the E2 client: both are histories, no step reads them.
\<close>

datatype crash =
    Crash_Indication | Crash_Monitor | Crash_Controller | Crash_Southbound | Crash_Send

text \<open>The registration of a node watcher: not yet made, made under an identifier, removed again,
  and its channel closed.\<close>

datatype registration = R_None | R_On uuid | R_Removed | R_Closed

record node_proc =
  np_node :: node_id
  np_chan :: chan
  np_pc :: node_pc
  np_reg :: registration

record mon_proc =
  mp_node :: node_id
  mp_pc :: monitor_pc
  mp_loop :: monitor_loop

record sys =
  sys_world :: world
  sys_ctrl :: ctrl_pc
  sys_nodes :: "node_proc list"
  sys_mons :: "mon_proc list"
  sys_active :: "(event \<times> chan list) list"
  sys_controls :: "control_msg list"
  sys_inds :: ind_log
  sys_cancelled :: bool
  sys_closed :: "chan list"
  sys_crash :: "crash option"

definition ctrl_chan :: chan where "ctrl_chan = 0"

definition sys_init :: sys where
  "sys_init = \<lparr>sys_world = new_world, sys_ctrl = C_Init, sys_nodes = [], sys_mons = [],
     sys_active = [], sys_controls = [], sys_inds = [], sys_cancelled = False, sys_closed = [],
     sys_crash = None\<rparr>"

subsection \<open>Steps\<close>

text \<open>A topology event for a node with the RC function starts its monitor and its watcher.\<close>

definition do_connect :: "node_id \<Rightarrow> sys \<Rightarrow> sys" where
  "do_connect n s = s\<lparr>
     sys_nodes := sys_nodes s @ [\<lparr>np_node = n, np_chan = Suc (length (sys_nodes s)), np_pc = N_Init,
                                 np_reg = R_None\<rparr>],
     sys_mons := sys_mons s @ [\<lparr>mp_node = n, mp_pc = M_Idle, mp_loop = loop_init\<rparr>]\<rparr>"

text \<open>
  A new watcher, and the ranges under way that will still visit it: \<open>late\<close> gives goroutines and
  how many of the remaining channels come before the new one. A goroutine that has no channel
  left has ended.
\<close>

definition late_visit ::
  "chan \<Rightarrow> nat \<times> nat \<Rightarrow> (event \<times> chan list) list \<Rightarrow> (event \<times> chan list) list" where
  "late_visit ch v act =
     (let (a, k) = v; (e, chs) = act ! a in
      act[a := (e, case chs of [] \<Rightarrow> [] | c # cs \<Rightarrow> c # take k cs @ ch # drop k cs)])"

definition do_watch :: "uuid \<Rightarrow> chan \<Rightarrow> (nat \<times> nat) list \<Rightarrow> sys \<Rightarrow> sys" where
  "do_watch i ch late s =
     s\<lparr>sys_world := (sys_world s)\<lparr>mstore := Watch i ch (mstore (sys_world s))\<rparr>,
       sys_active := fold (late_visit ch) late (sys_active s)\<rparr>"

definition late_ok :: "(nat \<times> nat) list \<Rightarrow> sys \<Rightarrow> bool" where
  "late_ok late s \<longleftrightarrow> distinct (map fst late) \<and> (\<forall>(a, k) \<in> set late. a < length (sys_active s))"

definition do_ctrl_watch :: "uuid \<Rightarrow> (nat \<times> nat) list \<Rightarrow> sys \<Rightarrow> sys" where
  "do_ctrl_watch i late s = (do_watch i ctrl_chan late s)\<lparr>sys_ctrl := C_Range\<rparr>"

definition do_node_watch :: "nat \<Rightarrow> uuid \<Rightarrow> (nat \<times> nat) list \<Rightarrow> sys \<Rightarrow> sys" where
  "do_node_watch j i late s =
     (let m = sys_nodes s ! j in
      (do_watch i (np_chan m) late s)
        \<lparr>sys_nodes := (sys_nodes s)[j := m\<lparr>np_pc := N_Range, np_reg := R_On i\<rparr>]\<rparr>)"

text \<open>
  Cancellation: \<open>do_cancel\<close> is the deferred \<open>cancel()\<close> of \<open>Start\<close> when \<open>watchE2Connections\<close> has
  returned; \<open>do_unwatch\<close> and \<open>do_close\<close> are what the goroutine of \<open>Watch\<close> does then.
\<close>

definition do_cancel :: "sys \<Rightarrow> sys" where
  "do_cancel s = s\<lparr>sys_cancelled := True\<rparr>"

definition do_unwatch :: "nat \<Rightarrow> uuid \<Rightarrow> uuid list \<Rightarrow> sys \<Rightarrow> sys" where
  "do_unwatch j i order s =
     s\<lparr>sys_world := (sys_world s)\<lparr>mstore := unwatch order i (mstore (sys_world s))\<rparr>,
       sys_nodes := (sys_nodes s)[j := (sys_nodes s ! j)\<lparr>np_reg := R_Removed\<rparr>]\<rparr>"

definition do_close :: "nat \<Rightarrow> sys \<Rightarrow> sys" where
  "do_close j s =
     s\<lparr>sys_closed := np_chan (sys_nodes s ! j) # sys_closed s,
       sys_nodes := (sys_nodes s)[j := (sys_nodes s ! j)\<lparr>np_reg := R_Closed\<rparr>]\<rparr>"

definition do_send_closed :: "sys \<Rightarrow> sys" where
  "do_send_closed s = s\<lparr>sys_crash := Some Crash_Send\<rparr>"

definition do_node_end :: "nat \<Rightarrow> sys \<Rightarrow> sys" where
  "do_node_end j s = s\<lparr>sys_nodes := (sys_nodes s)[j := (sys_nodes s ! j)\<lparr>np_pc := N_End\<rparr>]\<rparr>"

text \<open>When the context is done, \<open>Start\<close> of a monitor may return for it; its goroutine goes on.\<close>

definition do_mon_ctx :: "nat \<Rightarrow> sys \<Rightarrow> sys" where
  "do_mon_ctx j s = s\<lparr>sys_mons := (sys_mons s)[j := (sys_mons s ! j)\<lparr>mp_loop := ctx_done (mp_loop (sys_mons s ! j))\<rparr>]\<rparr>"

text \<open>The monitor receives and parses; what it extracted, if anything, is logged.\<close>

definition mon_recv :: "codec \<Rightarrow> go_error + indication \<Rightarrow> mon_proc \<Rightarrow> (mon_proc \<times> ind_log) go" where
  "mon_recv cd r m =
     (let (l1, ind) = (case r of Inl e \<Rightarrow> (send_err e (mp_loop m), zero_indication)
                       | Inr i \<Rightarrow> (mp_loop m, i))
      in if blocked l1 then Ret (m\<lparr>mp_loop := l1\<rparr>, [])
         else (case parse_indication cd ind of
                 Ret rq \<Rightarrow> Ret (m\<lparr>mp_pc := M_Has rq, mp_loop := l1\<rparr>, [(mp_node m, rq)])
               | Fail e \<Rightarrow> Ret (m\<lparr>mp_loop := send_err e l1\<rparr>, [])
               | Panic \<Rightarrow> Panic))"

definition do_recv :: "codec \<Rightarrow> nat \<Rightarrow> go_error + indication \<Rightarrow> sys \<Rightarrow> sys" where
  "do_recv cd j r s =
     (case mon_recv cd r (sys_mons s ! j) of
        Ret (m, new) \<Rightarrow> s\<lparr>sys_mons := (sys_mons s)[j := m], sys_inds := sys_inds s @ new\<rparr>
      | _ \<Rightarrow> s\<lparr>sys_crash := Some Crash_Indication\<rparr>)"

definition do_mon :: "nat \<Rightarrow> sys \<Rightarrow> sys" where
  "do_mon j s =
     (let m = sys_mons s ! j in
      case monitor_step (mp_node m) (mp_pc m) (sys_world s) of
        Ret (w, pc) \<Rightarrow> s\<lparr>sys_world := w, sys_mons := (sys_mons s)[j := m\<lparr>mp_pc := pc\<rparr>]\<rparr>
      | Fail e \<Rightarrow> s\<lparr>sys_mons := (sys_mons s)[j := m\<lparr>mp_pc := M_Idle, mp_loop := send_err e (mp_loop m)\<rparr>]\<rparr>
      | Panic \<Rightarrow> s\<lparr>sys_crash := Some Crash_Monitor\<rparr>)"

definition do_ctrl :: "sys \<Rightarrow> sys" where
  "do_ctrl s =
     (case ctrl_step (sys_ctrl s) (sys_world s) of
        Ret (w, pc) \<Rightarrow> s\<lparr>sys_world := w, sys_ctrl := pc\<rparr>
      | _ \<Rightarrow> s\<lparr>sys_crash := Some Crash_Controller\<rparr>)"

definition do_node :: "pdubuilder \<Rightarrow> nat \<Rightarrow> sys \<Rightarrow> sys" where
  "do_node p j s =
     (let m = sys_nodes s ! j in
      case node_step p (np_node m) (np_pc m) (sys_world s) of
        Ret (w, pc, out) \<Rightarrow>
          s\<lparr>sys_world := w, sys_nodes := (sys_nodes s)[j := m\<lparr>np_pc := pc\<rparr>],
            sys_controls := sys_controls s @ out\<rparr>
      | _ \<Rightarrow> s\<lparr>sys_crash := Some Crash_Southbound\<rparr>)"

text \<open>Goroutine number \<open>i\<close> among those started begins to run: it reads the watchers.\<close>

definition do_send_start :: "nat \<Rightarrow> uuid list \<Rightarrow> sys \<Rightarrow> sys" where
  "do_send_start i order s =
     (let st = mstore (sys_world s); evs = sends st in
      s\<lparr>sys_world := (sys_world s)\<lparr>mstore := st\<lparr>sends := take i evs @ drop (Suc i) evs\<rparr>\<rparr>,
        sys_active := sys_active s @ [(evs ! i, map wch (ranged (watchers st) order))]\<rparr>)"

definition do_taken :: "nat \<Rightarrow> sys \<Rightarrow> sys" where
  "do_taken i s = s\<lparr>sys_active := (sys_active s)[i := (fst (sys_active s ! i), tl (snd (sys_active s ! i)))]\<rparr>"

definition do_deliver_ctrl :: "nat \<Rightarrow> sys \<Rightarrow> sys" where
  "do_deliver_ctrl i s = (do_taken i s)\<lparr>sys_ctrl := C_Event (fst (sys_active s ! i))\<rparr>"

definition do_deliver_node :: "nat \<Rightarrow> nat \<Rightarrow> sys \<Rightarrow> sys" where
  "do_deliver_node i j s = (do_taken i s)\<lparr>sys_nodes := (sys_nodes s)[j := (sys_nodes s ! j)\<lparr>np_pc := N_Event (fst (sys_active s ! i))\<rparr>]\<rparr>"

text \<open>Goroutine \<open>i\<close> offers its event on channel \<open>c\<close> next.\<close>

definition offers :: "sys \<Rightarrow> nat \<Rightarrow> chan \<Rightarrow> bool" where
  "offers s i c \<longleftrightarrow> i < length (sys_active s) \<and>
     (case snd (sys_active s ! i) of [] \<Rightarrow> False | x # _ \<Rightarrow> x = c)"

inductive sys_step :: "codec \<Rightarrow> pdubuilder \<Rightarrow> sys \<Rightarrow> sys \<Rightarrow> bool" for cd p where
  connect: "sys_crash s = None \<Longrightarrow> \<not> sys_cancelled s \<Longrightarrow> sys_step cd p s (do_connect n s)"
| ctrl_watch: "sys_crash s = None \<Longrightarrow> sys_ctrl s = C_Init \<Longrightarrow> late_ok late s \<Longrightarrow>
    i \<notin> dom (watchers (mstore (sys_world s))) \<Longrightarrow>
    sys_step cd p s (do_ctrl_watch i late s)"
| node_watch: "sys_crash s = None \<Longrightarrow> j < length (sys_nodes s) \<Longrightarrow> np_pc (sys_nodes s ! j) = N_Init \<Longrightarrow>
    late_ok late s \<Longrightarrow> i \<notin> dom (watchers (mstore (sys_world s))) \<Longrightarrow>
    sys_step cd p s (do_node_watch j i late s)"
| cancel: "sys_crash s = None \<Longrightarrow> \<not> sys_cancelled s \<Longrightarrow> sys_step cd p s (do_cancel s)"
| unwatch: "sys_crash s = None \<Longrightarrow> sys_cancelled s \<Longrightarrow> j < length (sys_nodes s) \<Longrightarrow>
    np_reg (sys_nodes s ! j) = R_On i \<Longrightarrow> range_order (watchers (mstore (sys_world s))) order \<Longrightarrow>
    sys_step cd p s (do_unwatch j i order s)"
| close: "sys_crash s = None \<Longrightarrow> sys_cancelled s \<Longrightarrow> j < length (sys_nodes s) \<Longrightarrow>
    np_reg (sys_nodes s ! j) = R_Removed \<Longrightarrow> sys_step cd p s (do_close j s)"
| send_closed: "sys_crash s = None \<Longrightarrow> offers s i c \<Longrightarrow> c \<in> set (sys_closed s) \<Longrightarrow>
    sys_step cd p s (do_send_closed s)"
| node_end: "sys_crash s = None \<Longrightarrow> j < length (sys_nodes s) \<Longrightarrow> np_pc (sys_nodes s ! j) = N_Range \<Longrightarrow>
    np_chan (sys_nodes s ! j) \<in> set (sys_closed s) \<Longrightarrow> sys_step cd p s (do_node_end j s)"
| mon_ctx: "sys_crash s = None \<Longrightarrow> sys_cancelled s \<Longrightarrow> j < length (sys_mons s) \<Longrightarrow>
    returned (mp_loop (sys_mons s ! j)) = None \<Longrightarrow> sys_step cd p s (do_mon_ctx j s)"
| recv: "sys_crash s = None \<Longrightarrow> j < length (sys_mons s) \<Longrightarrow> mp_pc (sys_mons s ! j) = M_Idle \<Longrightarrow>
    \<not> blocked (mp_loop (sys_mons s ! j)) \<Longrightarrow> sys_step cd p s (do_recv cd j r s)"
| mon_move: "sys_crash s = None \<Longrightarrow> j < length (sys_mons s) \<Longrightarrow> mp_pc (sys_mons s ! j) \<noteq> M_Idle \<Longrightarrow>
    sys_step cd p s (do_mon j s)"
| send_start: "sys_crash s = None \<Longrightarrow> i < length (sends (mstore (sys_world s))) \<Longrightarrow>
    range_order (watchers (mstore (sys_world s))) order \<Longrightarrow>
    sys_step cd p s (do_send_start i order s)"
| deliver_ctrl: "sys_crash s = None \<Longrightarrow> offers s i ctrl_chan \<Longrightarrow> sys_ctrl s = C_Range \<Longrightarrow>
    sys_step cd p s (do_deliver_ctrl i s)"
| deliver_node: "sys_crash s = None \<Longrightarrow> j < length (sys_nodes s) \<Longrightarrow>
    offers s i (np_chan (sys_nodes s ! j)) \<Longrightarrow> np_pc (sys_nodes s ! j) = N_Range \<Longrightarrow>
    np_chan (sys_nodes s ! j) \<notin> set (sys_closed s) \<Longrightarrow>
    sys_step cd p s (do_deliver_node i j s)"
| ctrl_move: "sys_crash s = None \<Longrightarrow> sys_ctrl s \<noteq> C_Init \<Longrightarrow> sys_ctrl s \<noteq> C_Range \<Longrightarrow>
    sys_step cd p s (do_ctrl s)"
| node_move: "sys_crash s = None \<Longrightarrow> j < length (sys_nodes s) \<Longrightarrow> np_pc (sys_nodes s ! j) \<noteq> N_Init \<Longrightarrow>
    np_pc (sys_nodes s ! j) \<notin> {N_Range, N_End} \<Longrightarrow> sys_step cd p s (do_node p j s)"

inductive reachable :: "codec \<Rightarrow> pdubuilder \<Rightarrow> sys \<Rightarrow> bool" for cd p where
  reach_init: "reachable cd p sys_init"
| reach_step: "reachable cd p s \<Longrightarrow> sys_step cd p s t \<Longrightarrow> reachable cd p t"

subsection \<open>The invariant\<close>

text \<open>Channels are closed, and senders panic, only after the cancellation.\<close>

definition crash_ok :: "sys \<Rightarrow> bool" where
  "crash_ok s \<longleftrightarrow> (sys_closed s \<noteq> [] \<longrightarrow> sys_cancelled s) \<and>
     (sys_crash s \<in> {None, Some Crash_Indication} \<or> sys_crash s = Some Crash_Send \<and> sys_cancelled s)"

definition sys_inv :: "pdubuilder \<Rightarrow> sys \<Rightarrow> bool" where
  "sys_inv p s \<longleftrightarrow>
     world_ok (sys_inds s) (sys_world s) \<and>
     ctrl_ok (sys_world s) (sys_ctrl s) \<and>
     (\<forall>m \<in> set (sys_nodes s). node_ok (sys_world s) (np_pc m)) \<and>
     (\<forall>m \<in> set (sys_mons s). monitor_ok (sys_inds s) (mp_node m) (sys_world s) (mp_pc m)) \<and>
     (\<forall>x \<in> set (sys_active s). ev_ok (sys_world s) (fst x)) \<and>
     (\<forall>c \<in> set (sys_controls s). control_ok p (sys_inds s) c) \<and>
     crash_ok s"

lemma sys_invD:
  assumes "sys_inv p s"
  shows "world_ok (sys_inds s) (sys_world s)" "ctrl_ok (sys_world s) (sys_ctrl s)"
    "j < length (sys_nodes s) \<Longrightarrow> node_ok (sys_world s) (np_pc (sys_nodes s ! j))"
    "j < length (sys_mons s) \<Longrightarrow>
       monitor_ok (sys_inds s) (mp_node (sys_mons s ! j)) (sys_world s) (mp_pc (sys_mons s ! j))"
    "i < length (sys_active s) \<Longrightarrow> ev_ok (sys_world s) (fst (sys_active s ! i))"
    "c \<in> set (sys_controls s) \<Longrightarrow> control_ok p (sys_inds s) c"
    "crash_ok s"
  using assms by (auto simp: sys_inv_def)

text \<open>A step has to answer only for what it changed.\<close>

lemma sys_inv_evolve:
  assumes "sys_inv p s"
    and le: "world_le (sys_world s) (sys_world t)"
    and "world_ok (sys_inds t) (sys_world t)"
    and inds: "set (sys_inds s) \<subseteq> set (sys_inds t)"
    and "sys_ctrl t = sys_ctrl s \<or> ctrl_ok (sys_world t) (sys_ctrl t)"
    and nodes: "\<And>m. m \<in> set (sys_nodes t) \<Longrightarrow> m \<in> set (sys_nodes s) \<or> node_ok (sys_world t) (np_pc m)"
    and mons: "\<And>m. m \<in> set (sys_mons t) \<Longrightarrow> m \<in> set (sys_mons s) \<or>
             monitor_ok (sys_inds t) (mp_node m) (sys_world t) (mp_pc m)"
    and act: "\<And>x. x \<in> set (sys_active t) \<Longrightarrow> x \<in> set (sys_active s) \<or> ev_ok (sys_world t) (fst x)"
    and ctls: "\<And>c. c \<in> set (sys_controls t) \<Longrightarrow> c \<in> set (sys_controls s) \<or> control_ok p (sys_inds t) c"
    and "crash_ok t"
  shows "sys_inv p t"
proof -
  note old = assms(1) [unfolded sys_inv_def]
  have "ctrl_ok (sys_world t) (sys_ctrl t)"
    using assms(5) old ctrl_ok_mono [OF le] by metis
  moreover have "\<forall>m \<in> set (sys_nodes t). node_ok (sys_world t) (np_pc m)"
    using nodes old node_ok_mono [OF le] by blast
  moreover have "\<forall>m \<in> set (sys_mons t). monitor_ok (sys_inds t) (mp_node m) (sys_world t) (mp_pc m)"
    using mons old monitor_ok_mono [OF le inds] by blast
  moreover have "\<forall>x \<in> set (sys_active t). ev_ok (sys_world t) (fst x)"
    using act old ev_ok_mono [OF le] by blast
  moreover have "\<forall>c \<in> set (sys_controls t). control_ok p (sys_inds t) c"
    using ctls old control_ok_mono [OF inds] by blast
  ultimately show ?thesis using assms(3,10) by (simp add: sys_inv_def)
qed

lemma sys_inv_init: "sys_inv p sys_init"
  by (simp add: sys_inv_def sys_init_def world_ok_def wf_world_new crash_ok_def)
    (simp add: new_world_def)

subsection \<open>Every step keeps the invariant\<close>

text \<open>Steps that leave heap and records alone.\<close>

lemma world_ok_same_data:
  assumes "world_ok inds w" "heap w' = heap w" "records (mstore w') = records (mstore w)"
    and "set (sends (mstore w')) \<subseteq> set (sends (mstore w))"
  shows "world_ok inds w'" "world_le w w'"
  using assms by (auto simp: world_ok_def wf_world_def world_le_def ev_ok_def HasEntry_def)

lemma world_ok_watch:
  assumes "world_ok inds w"
  shows "world_ok inds (w\<lparr>mstore := Watch i ch (mstore w)\<rparr>)"
    and "world_le w (w\<lparr>mstore := Watch i ch (mstore w)\<rparr>)"
  using assms by (rule world_ok_same_data; simp add: store_simps)+

lemma set_list_updateE:
  assumes "y \<in> set (xs[i := x])"
  obtains "y = x" | "y \<in> set xs"
  using set_list_updateD [OF assms] by blast

lemma late_visit_events: "a < length act \<Longrightarrow> map fst (late_visit ch (a, k) act) = map fst act"
  by (auto simp: late_visit_def Let_def map_update split: prod.splits)
    (metis fst_conv list_update_id nth_map)

lemma late_visits_events:
  "\<forall>(a, k) \<in> set late. a < length act \<Longrightarrow> map fst (fold (late_visit ch) late act) = map fst act"
proof (induction late arbitrary: act)
  case Nil
  then show ?case by simp
next
  case (Cons v late)
  obtain a k where v: "v = (a, k)" by (cases v)
  have e: "map fst (late_visit ch v act) = map fst act"
    using Cons.prems v by (simp add: late_visit_events)
  then have "length (late_visit ch v act) = length act" by (metis length_map)
  with Cons e show ?case by auto
qed

lemma late_visits_in:
  assumes "late_ok late s" "x \<in> set (fold (late_visit ch) late (sys_active s))"
  shows "\<exists>y \<in> set (sys_active s). fst y = fst x"
proof -
  have "map fst (fold (late_visit ch) late (sys_active s)) = map fst (sys_active s)"
    using assms(1) by (intro late_visits_events) (auto simp: late_ok_def)
  then have "fst x \<in> fst ` set (sys_active s)" using assms(2) by (metis image_eqI list.set_map)
  then show ?thesis by (metis imageE)
qed

lemma inv_connect:
  assumes inv: "sys_inv p s"
  shows "sys_inv p (do_connect n s)"
  by (rule sys_inv_evolve [OF inv]) (use sys_invD [OF inv] in \<open>auto simp: do_connect_def crash_ok_def\<close>)

lemma do_watch_active:
  assumes inv: "sys_inv p s" and "late_ok late s" "x \<in> set (sys_active (do_watch i ch late s))"
  shows "ev_ok (sys_world (do_watch i ch late s)) (fst x)"
proof -
  obtain y where "y \<in> set (sys_active s)" "fst y = fst x"
    using late_visits_in [OF assms(2), of x ch] assms(3) by (auto simp: do_watch_def)
  then have "ev_ok (sys_world s) (fst x)" using inv by (auto simp: sys_inv_def)
  then show ?thesis
    using ev_ok_mono [OF world_ok_watch(2) [OF sys_invD(1) [OF inv]]] by (simp add: do_watch_def)
qed

lemma inv_do_watch:
  assumes inv: "sys_inv p s" and late: "late_ok late s"
  shows "sys_inv p (do_watch i ch late s)"
  by (rule sys_inv_evolve [OF inv])
    (use sys_invD [OF inv] do_watch_active [OF assms] in
      \<open>auto simp: do_watch_def crash_ok_def intro: world_ok_watch\<close>)

lemma inv_ctrl_watch:
  assumes inv: "sys_inv p s" and "late_ok late s"
  shows "sys_inv p (do_ctrl_watch i late s)"
  by (rule sys_inv_evolve [OF inv_do_watch [OF assms, of i ctrl_chan]])
    (use sys_invD [OF inv_do_watch [OF assms, of i ctrl_chan]] in
      \<open>auto simp: do_ctrl_watch_def crash_ok_def\<close>)

lemma inv_node_watch:
  assumes inv: "sys_inv p s" and "late_ok late s"
  shows "sys_inv p (do_node_watch j i late s)"
  by (rule sys_inv_evolve [OF inv_do_watch [OF assms, of i "np_chan (sys_nodes s ! j)"]])
    (use sys_invD [OF inv_do_watch [OF assms, of i "np_chan (sys_nodes s ! j)"]] in
      \<open>auto simp: do_node_watch_def do_watch_def crash_ok_def Let_def elim!: set_list_updateE\<close>)

lemma inv_cancel:
  assumes inv: "sys_inv p s"
  shows "sys_inv p (do_cancel s)"
  by (rule sys_inv_evolve [OF inv]) (use sys_invD [OF inv] in \<open>auto simp: do_cancel_def crash_ok_def\<close>)

lemma node_ok_nth:
  "sys_inv p s \<Longrightarrow> j < length (sys_nodes s) \<Longrightarrow> node_ok (sys_world s) (np_pc (sys_nodes s ! j))"
  by (rule sys_invD)

lemma inv_unwatch:
  assumes inv: "sys_inv p s" and j: "j < length (sys_nodes s)"
  shows "sys_inv p (do_unwatch j i order s)"
proof -
  have w: "world_ok (sys_inds s) (sys_world (do_unwatch j i order s))"
    "world_le (sys_world s) (sys_world (do_unwatch j i order s))"
    using world_ok_same_data [OF sys_invD(1) [OF inv], of "sys_world (do_unwatch j i order s)"]
    by (simp_all add: do_unwatch_def unwatch_def)
  have "node_ok (sys_world (do_unwatch j i order s)) (np_pc (sys_nodes s ! j))"
    using node_ok_mono [OF w(2) node_ok_nth [OF assms]] .
  then show ?thesis
    using sys_invD [OF inv] w
    by (intro sys_inv_evolve [OF inv]) (auto simp: do_unwatch_def crash_ok_def elim!: set_list_updateE)
qed

lemma inv_close:
  assumes inv: "sys_inv p s" and "j < length (sys_nodes s)" "sys_cancelled s"
  shows "sys_inv p (do_close j s)"
  by (rule sys_inv_evolve [OF inv])
    (use sys_invD [OF inv] assms in \<open>auto simp: do_close_def crash_ok_def elim!: set_list_updateE\<close>)

lemma inv_send_closed:
  assumes inv: "sys_inv p s" and "c \<in> set (sys_closed s)"
  shows "sys_inv p (do_send_closed s)"
proof -
  have "sys_cancelled s" using sys_invD(7) [OF inv] assms(2) by (auto simp: crash_ok_def)
  then show ?thesis
    using sys_invD [OF inv]
    by (intro sys_inv_evolve [OF inv]) (auto simp: do_send_closed_def crash_ok_def)
qed

lemma inv_node_end:
  assumes inv: "sys_inv p s"
  shows "sys_inv p (do_node_end j s)"
  by (rule sys_inv_evolve [OF inv])
    (use sys_invD [OF inv] in \<open>auto simp: do_node_end_def crash_ok_def elim!: set_list_updateE\<close>)

lemma inv_mon_ctx:
  assumes inv: "sys_inv p s" and j: "j < length (sys_mons s)"
  shows "sys_inv p (do_mon_ctx j s)"
  by (rule sys_inv_evolve [OF inv])
    (use sys_invD [OF inv] j in \<open>auto simp: do_mon_ctx_def crash_ok_def elim!: set_list_updateE\<close>)

lemma mon_recv_ok:
  assumes "mon_recv cd r m = Ret (m', new)"
  shows "mp_node m' = mp_node m \<and>
    (mp_pc m' = mp_pc m \<and> new = [] \<or>
     (\<exists>rq. mp_pc m' = M_Has rq \<and> new = [(mp_node m, rq)] \<and> rq_ok rq))"
  using assms parse_indication_ok
  by (auto simp: mon_recv_def Let_def split: sum.splits prod.splits if_splits go.splits)

lemma inv_recv:
  assumes inv: "sys_inv p s" and j: "j < length (sys_mons s)"
  shows "sys_inv p (do_recv cd j r s)"
proof (cases "mon_recv cd r (sys_mons s ! j)")
  case (Ret x)
  obtain m new where x: "x = (m, new)" by (cases x)
  let ?t = "do_recv cd j r s"
  have t: "?t = s\<lparr>sys_mons := (sys_mons s)[j := m], sys_inds := sys_inds s @ new\<rparr>"
    using Ret x by (simp add: do_recv_def)
  have "monitor_ok (sys_inds ?t) (mp_node m) (sys_world ?t) (mp_pc m)"
    using mon_recv_ok [of cd r "sys_mons s ! j" m new] Ret x t sys_invD(4) [OF inv j]
    by (auto simp: req_ok_def intro: monitor_ok_mono)
  then show ?thesis
    using sys_invD [OF inv] t
    by (intro sys_inv_evolve [OF inv])
      (auto simp: crash_ok_def intro: world_ok_mono [of "sys_inds s"] elim!: set_list_updateE)
next
  case (Fail e)
  then show ?thesis
    using sys_invD [OF inv] by (intro sys_inv_evolve [OF inv]) (auto simp: do_recv_def crash_ok_def)
next
  case Panic
  then show ?thesis
    using sys_invD [OF inv] by (intro sys_inv_evolve [OF inv]) (auto simp: do_recv_def crash_ok_def)
qed

text \<open>A move of a process: its contract gives the new world and program point.\<close>

lemma inv_mon:
  assumes inv: "sys_inv p s" and j: "j < length (sys_mons s)"
  shows "sys_inv p (do_mon j s)"
proof -
  obtain w pc where "monitor_step (mp_node (sys_mons s ! j)) (mp_pc (sys_mons s ! j)) (sys_world s) = Ret (w, pc)"
    "world_le (sys_world s) w" "world_ok (sys_inds s) w"
    "monitor_ok (sys_inds s) (mp_node (sys_mons s ! j)) w pc"
    using mon.step_cases [OF sys_invD(1,4) [OF inv], OF j] by (auto simp: silent_def go_simps)
  then show ?thesis
    using sys_invD [OF inv]
    by (intro sys_inv_evolve [OF inv]) (auto simp: do_mon_def crash_ok_def Let_def elim!: set_list_updateE)
qed

lemma inv_ctrl:
  assumes inv: "sys_inv p s"
  shows "sys_inv p (do_ctrl s)"
proof -
  obtain w pc where "ctrl_step (sys_ctrl s) (sys_world s) = Ret (w, pc)"
    "world_le (sys_world s) w" "world_ok (sys_inds s) w" "ctrl_ok w pc"
    using ctl.step_cases [OF sys_invD(1,2) [OF inv]] by (auto simp: silent_def go_simps)
  then show ?thesis
    using sys_invD [OF inv] by (intro sys_inv_evolve [OF inv]) (auto simp: do_ctrl_def crash_ok_def)
qed

lemma inv_node:
  assumes inv: "sys_inv p s" and j: "j < length (sys_nodes s)"
  shows "sys_inv p (do_node p j s)"
proof -
  obtain w pc out where "node_step p (np_node (sys_nodes s ! j)) (np_pc (sys_nodes s ! j)) (sys_world s) = Ret (w, pc, out)"
    "world_le (sys_world s) w" "world_ok (sys_inds s) w" "node_ok w pc"
    "\<forall>c \<in> set out. control_ok p (sys_inds s) c"
    using nod.step_cases [OF sys_invD(1,3) [OF inv], OF j] by blast
  then show ?thesis
    using sys_invD [OF inv]
    by (intro sys_inv_evolve [OF inv]) (auto simp: do_node_def crash_ok_def Let_def elim!: set_list_updateE)
qed

lemma inv_send_start:
  assumes inv: "sys_inv p s" and i: "i < length (sends (mstore (sys_world s)))"
  shows "sys_inv p (do_send_start i order s)"
proof -
  let ?w = "sys_world (do_send_start i order s)"
  have "set (sends (mstore ?w)) \<subseteq> set (sends (mstore (sys_world s)))"
    by (auto simp: do_send_start_def crash_ok_def Let_def dest: in_set_takeD in_set_dropD)
  then have w: "world_ok (sys_inds s) ?w" "world_le (sys_world s) ?w"
    using world_ok_same_data [OF sys_invD(1) [OF inv], of ?w]
    by (simp_all add: do_send_start_def Let_def)
  have "ev_ok (sys_world s) (sends (mstore (sys_world s)) ! i)"
    using world_okD(3) [OF sys_invD(1) [OF inv]] i by simp
  then have "ev_ok ?w (sends (mstore (sys_world s)) ! i)" using w(2) by (blast intro: ev_ok_mono)
  then show ?thesis
    using sys_invD(7) [OF inv] w
    by (intro sys_inv_evolve [OF inv]) (auto simp: do_send_start_def crash_ok_def Let_def)
qed

lemma offers_ev_ok: "sys_inv p s \<Longrightarrow> offers s i c \<Longrightarrow> ev_ok (sys_world s) (fst (sys_active s ! i))"
  by (auto simp: offers_def dest: sys_invD(5))

lemma inv_deliver_ctrl:
  assumes inv: "sys_inv p s" and "offers s i c"
  shows "sys_inv p (do_deliver_ctrl i s)"
  using sys_invD [OF inv] offers_ev_ok [OF assms]
  by (intro sys_inv_evolve [OF inv])
    (auto simp: do_deliver_ctrl_def crash_ok_def do_taken_def elim!: set_list_updateE)

lemma inv_deliver_node:
  assumes inv: "sys_inv p s" and "offers s i c"
  shows "sys_inv p (do_deliver_node i j s)"
  using sys_invD [OF inv] offers_ev_ok [OF assms]
  by (intro sys_inv_evolve [OF inv])
    (auto simp: do_deliver_node_def crash_ok_def do_taken_def elim!: set_list_updateE)

lemmas inv_steps =
  inv_connect inv_ctrl_watch inv_node_watch inv_cancel inv_unwatch inv_close inv_send_closed
  inv_node_end inv_mon_ctx inv_recv inv_mon inv_send_start inv_deliver_ctrl
  inv_deliver_node inv_ctrl inv_node

lemma sys_step_inv: "sys_step cd p s t \<Longrightarrow> sys_inv p s \<Longrightarrow> sys_inv p t"
  by (induction rule: sys_step.induct) (auto intro: inv_steps)

lemma reachable_inv: "reachable cd p s \<Longrightarrow> sys_inv p s"
  by (induction rule: reachable.induct) (auto intro: sys_inv_init sys_step_inv)

end
