(* ===== verification/Mho_Samples.thy ===== *)
theory Mho_Samples
  imports Mho_Monitor Rc_Pdu
begin

text \<open>
  Concrete inputs for the witnesses and the scenario runs: one gNB UE, indications that ask
  for a handover to cell \<open>c1\<close> or \<open>c2\<close>, and a codec that decodes them. The nested message is
  the one that the southbound builds for a target cell.
\<close>

definition sample_gnb :: ueid_gnb where
  "sample_gnb = \<lparr>Guami = None, AmfUeNgapId = Some 7\<rparr>"

definition sample_ue :: "ueid option" where
  "sample_ue = Some (GNbUeid (Some sample_gnb))"

definition sample_key :: string where
  "sample_key = GenerateGnbUeIDString sample_gnb"

definition sample_format5 :: "string \<Rightarrow> message_format5" where
  "sample_format5 cell =
     \<lparr>RanPRequestedList =
        [Some (MessageFormat5Item (Some TargetPrimaryCellIDRANParameterID) (Some (target_value cell)))]\<rparr>"

definition sample_codec :: codec where
  "sample_codec =
     \<lparr>unmarshal_header = (\<lambda>b. Inr (if b = [] then HeaderFormatUnset
        else IndicationHeaderFormat2 (Some \<lparr>UeId = sample_ue\<rparr>))),
      unmarshal_message = (\<lambda>b. Inr
        (if b = [1] then IndicationMessageFormat5 (Some (sample_format5 ''c1''))
         else if b = [2] then IndicationMessageFormat5 (Some (sample_format5 ''c2''))
         else MessageFormatUnset))\<rparr>"

definition sample_ind :: "byte \<Rightarrow> indication" where
  "sample_ind b = \<lparr>Header = [1], Payload = [b], CallProcessId = [b]\<rparr>"

definition sample_rq1 :: ind_request where
  "sample_rq1 = \<lparr>rq_ue = sample_ue, rq_key = sample_key, rq_tgt = ''c1'', rq_cpid = [1]\<rparr>"

definition sample_rq2 :: ind_request where
  "sample_rq2 = \<lparr>rq_ue = sample_ue, rq_key = sample_key, rq_tgt = ''c2'', rq_cpid = [2]\<rparr>"

lemma target_cell_sample: "target_cell (Some (sample_format5 cell)) = Ret cell"
  by (simp add: target_cell_def sample_format5_def target_value_def Let_def nested_def
      format5_value_type_def ranparam_getters)

lemma sample_parse:
  "parse_indication sample_codec (sample_ind 1) = Ret sample_rq1"
  "parse_indication sample_codec (sample_ind 2) = Ret sample_rq2"
  "parse_indication sample_codec zero_indication = Fail NotSupported"
  by (simp_all add: parse_indication_def sample_codec_def sample_ind_def GetIndicationHeaderFormat2_def
      GetIndicationMessageFormat5_def target_cell_sample sample_rq1_def sample_rq2_def sample_key_def
      GetGNbUeid_def zero_indication_def sample_ue_def)

lemma sample_rq_simps [simp]:
  "rq_key sample_rq1 = sample_key" "rq_key sample_rq2 = sample_key"
  "rq_tgt sample_rq1 = ''c1''" "rq_tgt sample_rq2 = ''c2''"
  by (simp_all add: sample_rq1_def sample_rq2_def)

lemma sample_rq_ok [simp]: "rq_ok sample_rq1" "rq_ok sample_rq2"
  by (simp_all add: rq_ok_def sample_rq1_def sample_rq2_def sample_ue_def sample_key_def ue_key_def
      GetGNbUeid_def)

text \<open>The world after one indication, and after its approval.\<close>

definition sample_world :: world where
  "sample_world = put_new sample_rq1 ''n1'' new_world"

lemma sample_world_wf: "wf_world sample_world"
  by (simp add: sample_world_def wf_world_put_new wf_world_new)

end
