(* ===== verification/Mho_Traces.thy ===== *)
theory Mho_Traces
  imports Mho_System Mho_Samples
begin

text \<open>
  Running the system: an executable scheduler whose actions are exactly the steps of
  \<open>sys_step\<close>, and concrete runs. The runs show interleavings that the orderly schedule
  does not have: events and handlers of different goroutines cross.
\<close>

datatype act =
    A_Connect node_id
  | A_CtrlWatch uuid "(nat \<times> nat) list"
  | A_NodeWatch nat uuid "(nat \<times> nat) list"
  | A_Cancel
  | A_Unwatch nat uuid "uuid list"
  | A_Close nat
  | A_SendClosed nat chan
  | A_NodeEnd nat
  | A_MonCtx nat
  | A_Recv nat "go_error + indication"
  | A_Mon nat
  | A_Start nat "uuid list"
  | A_ToCtrl nat
  | A_ToNode nat nat
  | A_Ctrl
  | A_Node nat

fun act_enabled :: "act \<Rightarrow> sys \<Rightarrow> bool" where
  "act_enabled (A_Connect n) s \<longleftrightarrow> \<not> sys_cancelled s"
| "act_enabled (A_CtrlWatch i late) s \<longleftrightarrow>
     sys_ctrl s = C_Init \<and> late_ok late s \<and> watchers (mstore (sys_world s)) i = None"
| "act_enabled (A_NodeWatch j i late) s \<longleftrightarrow>
     j < length (sys_nodes s) \<and> np_pc (sys_nodes s ! j) = N_Init \<and> late_ok late s \<and>
     watchers (mstore (sys_world s)) i = None"
| "act_enabled A_Cancel s \<longleftrightarrow> \<not> sys_cancelled s"
| "act_enabled (A_Unwatch j i order) s \<longleftrightarrow>
     sys_cancelled s \<and> j < length (sys_nodes s) \<and> np_reg (sys_nodes s ! j) = R_On i \<and>
     range_order (watchers (mstore (sys_world s))) order"
| "act_enabled (A_Close j) s \<longleftrightarrow>
     sys_cancelled s \<and> j < length (sys_nodes s) \<and> np_reg (sys_nodes s ! j) = R_Removed"
| "act_enabled (A_SendClosed i c) s \<longleftrightarrow> offers s i c \<and> c \<in> set (sys_closed s)"
| "act_enabled (A_NodeEnd j) s \<longleftrightarrow>
     j < length (sys_nodes s) \<and> np_pc (sys_nodes s ! j) = N_Range \<and>
     np_chan (sys_nodes s ! j) \<in> set (sys_closed s)"
| "act_enabled (A_MonCtx j) s \<longleftrightarrow>
     sys_cancelled s \<and> j < length (sys_mons s) \<and> returned (mp_loop (sys_mons s ! j)) = None"
| "act_enabled (A_Recv j r) s \<longleftrightarrow>
     j < length (sys_mons s) \<and> mp_pc (sys_mons s ! j) = M_Idle \<and> \<not> blocked (mp_loop (sys_mons s ! j))"
| "act_enabled (A_Mon j) s \<longleftrightarrow> j < length (sys_mons s) \<and> mp_pc (sys_mons s ! j) \<noteq> M_Idle"
| "act_enabled (A_Start i order) s \<longleftrightarrow>
     i < length (sends (mstore (sys_world s))) \<and> range_order (watchers (mstore (sys_world s))) order"
| "act_enabled (A_ToCtrl i) s \<longleftrightarrow> offers s i ctrl_chan \<and> sys_ctrl s = C_Range"
| "act_enabled (A_ToNode i j) s \<longleftrightarrow>
     j < length (sys_nodes s) \<and> offers s i (np_chan (sys_nodes s ! j)) \<and>
     np_pc (sys_nodes s ! j) = N_Range \<and> np_chan (sys_nodes s ! j) \<notin> set (sys_closed s)"
| "act_enabled A_Ctrl s \<longleftrightarrow> sys_ctrl s \<noteq> C_Init \<and> sys_ctrl s \<noteq> C_Range"
| "act_enabled (A_Node j) s \<longleftrightarrow>
     j < length (sys_nodes s) \<and> np_pc (sys_nodes s ! j) \<noteq> N_Init \<and> np_pc (sys_nodes s ! j) \<notin> {N_Range, N_End}"

fun act_do :: "codec \<Rightarrow> pdubuilder \<Rightarrow> act \<Rightarrow> sys \<Rightarrow> sys" where
  "act_do cd p (A_Connect n) s = do_connect n s"
| "act_do cd p (A_CtrlWatch i late) s = do_ctrl_watch i late s"
| "act_do cd p (A_NodeWatch j i late) s = do_node_watch j i late s"
| "act_do cd p A_Cancel s = do_cancel s"
| "act_do cd p (A_Unwatch j i order) s = do_unwatch j i order s"
| "act_do cd p (A_Close j) s = do_close j s"
| "act_do cd p (A_SendClosed i c) s = do_send_closed s"
| "act_do cd p (A_NodeEnd j) s = do_node_end j s"
| "act_do cd p (A_MonCtx j) s = do_mon_ctx j s"
| "act_do cd p (A_Recv j r) s = do_recv cd j r s"
| "act_do cd p (A_Mon j) s = do_mon j s"
| "act_do cd p (A_Start i order) s = do_send_start i order s"
| "act_do cd p (A_ToCtrl i) s = do_deliver_ctrl i s"
| "act_do cd p (A_ToNode i j) s = do_deliver_node i j s"
| "act_do cd p A_Ctrl s = do_ctrl s"
| "act_do cd p (A_Node j) s = do_node p j s"

definition exec_act :: "codec \<Rightarrow> pdubuilder \<Rightarrow> act \<Rightarrow> sys \<Rightarrow> sys option" where
  "exec_act cd p a s =
     (if sys_crash s = None \<and> act_enabled a s then Some (act_do cd p a s) else None)"

primrec exec_acts :: "codec \<Rightarrow> pdubuilder \<Rightarrow> act list \<Rightarrow> sys \<Rightarrow> sys option" where
  "exec_acts cd p [] s = Some s"
| "exec_acts cd p (a # as) s =
     (case exec_act cd p a s of None \<Rightarrow> None | Some t \<Rightarrow> exec_acts cd p as t)"

lemma exec_act_step: "exec_act cd p a s = Some t \<Longrightarrow> sys_step cd p s t"
  by (cases a) (auto simp: exec_act_def dom_def intro: sys_step.intros split: if_splits)

lemma step_exec_act: "sys_step cd p s t \<Longrightarrow> \<exists>a. exec_act cd p a s = Some t"
proof (induction rule: sys_step.induct)
  case (connect s n)
  then show ?case by (intro exI [of _ "A_Connect n"]) (simp add: exec_act_def)
next
  case (ctrl_watch s late i)
  then show ?case by (intro exI [of _ "A_CtrlWatch i late"]) (auto simp: exec_act_def)
next
  case (node_watch s j late i)
  then show ?case by (intro exI [of _ "A_NodeWatch j i late"]) (auto simp: exec_act_def)
next
  case (cancel s)
  then show ?case by (intro exI [of _ A_Cancel]) (simp add: exec_act_def)
next
  case (unwatch s j i order)
  then show ?case by (intro exI [of _ "A_Unwatch j i order"]) (simp add: exec_act_def)
next
  case (close s j)
  then show ?case by (intro exI [of _ "A_Close j"]) (simp add: exec_act_def)
next
  case (send_closed s i c)
  then show ?case by (intro exI [of _ "A_SendClosed i c"]) (simp add: exec_act_def)
next
  case (node_end s j)
  then show ?case by (intro exI [of _ "A_NodeEnd j"]) (simp add: exec_act_def)
next
  case (mon_ctx s j)
  then show ?case by (intro exI [of _ "A_MonCtx j"]) (simp add: exec_act_def)
next
  case (recv s j r)
  then show ?case by (intro exI [of _ "A_Recv j r"]) (simp add: exec_act_def)
next
  case (mon_move s j)
  then show ?case by (intro exI [of _ "A_Mon j"]) (simp add: exec_act_def)
next
  case (send_start s i order)
  then show ?case by (intro exI [of _ "A_Start i order"]) (simp add: exec_act_def)
next
  case (deliver_ctrl s i)
  then show ?case by (intro exI [of _ "A_ToCtrl i"]) (simp add: exec_act_def)
next
  case (deliver_node s j i)
  then show ?case by (intro exI [of _ "A_ToNode i j"]) (simp add: exec_act_def)
next
  case (ctrl_move s)
  then show ?case by (intro exI [of _ "A_Ctrl"]) (simp add: exec_act_def)
next
  case (node_move s j)
  then show ?case by (intro exI [of _ "A_Node j"]) (simp add: exec_act_def)
qed

lemma exec_acts_reachable:
  "exec_acts cd p as s = Some t \<Longrightarrow> reachable cd p s \<Longrightarrow> reachable cd p t"
  by (induction as arbitrary: s)
    (auto split: option.splits intro: reachable.reach_step dest: exec_act_step)

lemma range_order_two:
  "i \<noteq> j \<Longrightarrow> range_order [i \<mapsto> a, j \<mapsto> b] [i, j]" "i \<noteq> j \<Longrightarrow> range_order [i \<mapsto> a, j \<mapsto> b] [j, i]"
  by (auto simp: range_order_def)

lemmas do_simps =
  do_connect_def do_watch_def do_ctrl_watch_def do_node_watch_def do_recv_def mon_recv_def
  do_mon_def do_ctrl_def do_node_def do_send_start_def do_taken_def do_deliver_ctrl_def
  do_deliver_node_def offers_def ctrl_chan_def late_ok_def do_cancel_def do_unwatch_def do_close_def
  do_send_closed_def do_node_end_def do_mon_ctx_def ctx_done_def unwatch_def RemoveWatcher_def

lemmas run_simps =
  exec_act_def do_simps sys_init_def new_world_def store_simps sample_parse loop_init_def Let_def
  range_order_two put_new_def alloc_def put_value_def Put_def Send_def NewStore_def Watch_def
  AddWatcher_def HasEntry_def Get_def load_def set_state_def

text \<open>Nothing is under way: only a new indication, a connection or the end of the topology watch
  can move the system.\<close>

definition quiescent :: "sys \<Rightarrow> bool" where
  "quiescent s \<longleftrightarrow>
     sys_crash s = None \<and> sys_ctrl s = C_Range \<and> sends (mstore (sys_world s)) = [] \<and>
     (\<forall>m \<in> set (sys_nodes s).
        np_pc m = N_End \<or> np_pc m = N_Range \<and> np_chan m \<notin> set (sys_closed s)) \<and>
     (\<forall>m \<in> set (sys_nodes s). sys_cancelled s \<longrightarrow> np_reg m = R_Closed) \<and>
     (\<forall>m \<in> set (sys_mons s).
        mp_pc m = M_Idle \<and> (sys_cancelled s \<longrightarrow> returned (mp_loop m) \<noteq> None)) \<and>
     (\<forall>x \<in> set (sys_active s). snd x = [])"

definition sample_control :: "ind_request \<Rightarrow> control_msg" where
  "sample_control rq = control_for sample_pdu ''n1'' (new_value rq ''n1'')"

lemma sample_control_state [simp]:
  "control_for sample_pdu ''n1'' ((new_value rq ''n1'')\<lparr>State := st\<rparr>) = sample_control rq"
  "control_for sample_pdu ''n1'' (new_value rq ''n1'') = sample_control rq"
  by (simp_all add: sample_control_def control_for_def)

subsection \<open>Crossing events and handlers\<close>

text \<open>Prefixes shared by the runs: start one node, and take an indication up to its \<open>Put\<close>.\<close>

definition boot :: "act list" where
  "boot = [A_Connect ''n1'', A_CtrlWatch 0 [], A_NodeWatch 0 1 []]"

definition first_ind :: "act list" where
  "first_ind = [A_Recv 0 (Inr (sample_ind 1)), A_Mon 0, A_Mon 0]"

definition next_ind :: "act list" where
  "next_ind = [A_Recv 0 (Inr (sample_ind 2)), A_Mon 0, A_Mon 0, A_Mon 0, A_Mon 0]"

text \<open>Two events of one UE wait for the controller, which reads the same value for both.\<close>

definition double_run :: "act list" where
  "double_run = boot @ first_ind @ [A_Start 0 [0, 1]] @ next_ind @ [A_Start 0 [0, 1],
     A_ToCtrl 0, A_Ctrl, A_Ctrl, A_Ctrl, A_Start 0 [1, 0],
     A_ToNode 2 0, A_Node 0, A_Node 0, A_Node 0, A_Node 0,
     A_ToCtrl 1, A_Ctrl, A_Ctrl, A_Ctrl, A_Start 0 [0, 1], A_Start 0 [1, 0],
     A_ToNode 4 0, A_Node 0, A_Node 0, A_Node 0, A_Node 0,
     A_ToNode 0 0, A_Node 0, A_ToNode 1 0, A_Node 0, A_Node 0,
     A_ToCtrl 2, A_Ctrl, A_Ctrl, A_ToCtrl 3, A_Ctrl, A_Ctrl, A_ToNode 3 0, A_Node 0, A_Node 0,
     A_ToCtrl 4, A_Ctrl, A_Ctrl, A_Start 0 [0, 1],
     A_ToCtrl 5, A_Ctrl, A_Ctrl, A_ToNode 5 0, A_Node 0, A_Node 0]"

lemma double_run_result:
  "\<exists>t. exec_acts sample_codec sample_pdu double_run sys_init = Some t \<and> quiescent t \<and>
     sys_inds t = [(''n1'', sample_rq1), (''n1'', sample_rq2)] \<and>
     sys_controls t = [sample_control sample_rq2, sample_control sample_rq2] \<and>
     ue_table (sys_world t) sample_key = Some (''c2'', Done)"
  by (simp add: double_run_def boot_def first_ind_def next_ind_def run_simps quiescent_def ue_table_def)

text \<open>The southbound still holds the old value when the target changes, and puts it back.\<close>

definition lost_run :: "act list" where
  "lost_run = boot @ first_ind @ [A_Start 0 [0, 1],
     A_ToCtrl 0, A_Ctrl, A_Ctrl, A_Ctrl, A_ToNode 0 0, A_Node 0,
     A_Start 0 [1, 0], A_ToNode 1 0, A_Node 0, A_Node 0] @ next_ind @
    [A_Node 0, A_Node 0, A_ToCtrl 1, A_Ctrl, A_Ctrl,
     A_Start 0 [0, 1], A_ToCtrl 2, A_Ctrl, A_Ctrl, A_Ctrl, A_ToNode 2 0, A_Node 0, A_Node 0,
     A_Start 0 [0, 1], A_ToCtrl 3, A_Ctrl, A_Ctrl, A_ToNode 3 0, A_Node 0, A_Node 0,
     A_Start 0 [1, 0], A_ToNode 4 0, A_Node 0, A_Node 0, A_Node 0, A_Node 0, A_ToCtrl 4, A_Ctrl, A_Ctrl,
     A_Start 0 [0, 1], A_ToCtrl 5, A_Ctrl, A_Ctrl, A_ToNode 5 0, A_Node 0, A_Node 0]"

lemma lost_run_result:
  "\<exists>t. exec_acts sample_codec sample_pdu lost_run sys_init = Some t \<and> quiescent t \<and>
     sys_inds t = [(''n1'', sample_rq1), (''n1'', sample_rq2)] \<and>
     sys_controls t = [sample_control sample_rq1, sample_control sample_rq1] \<and>
     ue_table (sys_world t) sample_key = Some (''c1'', Done)"
  by (simp add: lost_run_def boot_def first_ind_def next_ind_def run_simps quiescent_def ue_table_def)

text \<open>An indication arrives before the controller has called \<open>Watch\<close>; it is repeated after.\<close>

definition early_run :: "act list" where
  "early_run = [A_Connect ''n1''] @ first_ind @ [A_Start 0 [], A_CtrlWatch 0 [], A_NodeWatch 0 1 [],
     A_Recv 0 (Inr (sample_ind 1)), A_Mon 0, A_Mon 0, A_Mon 0]"

lemma early_run_result:
  "\<exists>t. exec_acts sample_codec sample_pdu early_run sys_init = Some t \<and> quiescent t \<and>
     sys_inds t = [(''n1'', sample_rq1), (''n1'', sample_rq1)] \<and> sys_controls t = [] \<and>
     ue_table (sys_world t) sample_key = Some (''c1'', StateCreated)"
  by (simp add: early_run_def first_ind_def run_simps quiescent_def ue_table_def range_order_def)

subsection \<open>Runs past the end of the topology watch\<close>

text \<open>An event is being offered to the node watcher when the watcher's channel is closed.\<close>

definition closing_run :: "act list" where
  "closing_run = boot @ first_ind @ [A_Start 0 [1, 0], A_Cancel, A_Unwatch 0 1 [0, 1], A_Close 0,
     A_SendClosed 0 1]"

lemma closing_run_result:
  "\<exists>t. exec_acts sample_codec sample_pdu closing_run sys_init = Some t \<and>
     sys_crash t = Some Crash_Send"
  by (simp add: closing_run_def boot_def first_ind_def run_simps)

text \<open>Two nodes: removing the first node's watcher drops the controller's, removing the second's
  leaves none. An indication that the monitor still receives then goes nowhere.\<close>

definition silenced_run :: "act list" where
  "silenced_run = boot @ [A_Connect ''n2'', A_NodeWatch 1 2 [], A_Cancel, A_Unwatch 0 1 [0, 1, 2],
     A_Unwatch 1 2 [1], A_Close 0, A_Close 1, A_NodeEnd 0, A_NodeEnd 1,
     A_MonCtx 0, A_MonCtx 1] @ first_ind @ [A_Start 0 []]"

lemma silenced_run_result:
  "\<exists>t. exec_acts sample_codec sample_pdu silenced_run sys_init = Some t \<and> quiescent t \<and>
     watchers (mstore (sys_world t)) = Map.empty \<and>
     sys_inds t = [(''n1'', sample_rq1)] \<and> sys_controls t = [] \<and>
     ue_table (sys_world t) sample_key = Some (''c1'', StateCreated)"
  by (simp add: silenced_run_def boot_def first_ind_def run_simps quiescent_def ue_table_def range_order_def
      insert_commute)

end
