(* ===== verification/Mho_Settling.thy ===== *)
theory Mho_Settling
  imports Mho_Traces
begin

text \<open>
  The running system comes to rest. The internal steps are all steps except a new connection,
  a new indication and the end of the topology watch. \<open>chan_ok\<close> says who reads each channel:
  a watcher that is registered, and a channel that is still to be served, belong to the
  controller or to a node watcher that is past its \<open>Watch\<close> call. With it, a state in which
  something is under way always has an enabled internal step; \<open>work\<close> counts the internal steps
  that can still follow, and every internal step decreases it.
\<close>

subsection \<open>Who reads a channel\<close>

definition reader_ok :: "sys \<Rightarrow> chan \<Rightarrow> bool" where
  "reader_ok s c \<longleftrightarrow> c = ctrl_chan \<and> sys_ctrl s \<noteq> C_Init \<or>
     (\<exists>j < length (sys_nodes s). c = Suc j \<and> np_pc (sys_nodes s ! j) \<noteq> N_Init)"

definition unregistered :: "sys \<Rightarrow> nat" where
  "unregistered s = (if sys_ctrl s = C_Init then 1 else 0) +
     sum_list (map (\<lambda>m. if np_pc m = N_Init then 1 else 0) (sys_nodes s))"

definition node_proc_ok :: "sys \<Rightarrow> nat \<Rightarrow> node_proc \<Rightarrow> bool" where
  "node_proc_ok s j m \<longleftrightarrow> np_chan m = Suc j \<and> (np_pc m = N_Init \<longleftrightarrow> np_reg m = R_None) \<and>
     (np_pc m = N_End \<longrightarrow> Suc j \<in> set (sys_closed s))"

definition chan_ok :: "sys \<Rightarrow> bool" where
  "chan_ok s \<longleftrightarrow>
     (let ws = watchers (mstore (sys_world s)) in
      finite (dom ws) \<and> card (dom ws) + unregistered s \<le> Suc (length (sys_nodes s)) \<and>
      (\<forall>w \<in> ran ws. reader_ok s (wch w))) \<and>
     (\<forall>x \<in> set (sys_active s). \<forall>c \<in> set (snd x). reader_ok s c) \<and>
     (\<forall>j < length (sys_nodes s). node_proc_ok s j (sys_nodes s ! j))"

lemma chan_ok_init: "chan_ok sys_init"
  by (simp add: chan_ok_def sys_init_def new_world_def unregistered_def)

text \<open>What most steps do to the processes: the readers stay, the channels stay.\<close>

definition readers_le :: "sys \<Rightarrow> sys \<Rightarrow> bool" where
  "readers_le s t \<longleftrightarrow> (sys_ctrl s \<noteq> C_Init \<longrightarrow> sys_ctrl t \<noteq> C_Init) \<and>
     length (sys_nodes s) \<le> length (sys_nodes t) \<and>
     (\<forall>j < length (sys_nodes s). np_pc (sys_nodes s ! j) \<noteq> N_Init \<longrightarrow> np_pc (sys_nodes t ! j) \<noteq> N_Init)"

lemma reader_ok_mono: "readers_le s t \<Longrightarrow> reader_ok s c \<Longrightarrow> reader_ok t c"
  unfolding readers_le_def reader_ok_def by (metis less_le_trans)

lemma chan_okD:
  assumes "chan_ok s"
  shows "finite (dom (watchers (mstore (sys_world s))))"
    "card (dom (watchers (mstore (sys_world s)))) + unregistered s \<le> Suc (length (sys_nodes s))"
    "w \<in> ran (watchers (mstore (sys_world s))) \<Longrightarrow> reader_ok s (wch w)"
    "x \<in> set (sys_active s) \<Longrightarrow> c \<in> set (snd x) \<Longrightarrow> reader_ok s c"
    "j < length (sys_nodes s) \<Longrightarrow> node_proc_ok s j (sys_nodes s ! j)"
  using assms by (auto simp: chan_ok_def Let_def)

lemma chan_ok_evolve:
  assumes "chan_ok s" and le: "readers_le s t"
    and fin: "finite (dom (watchers (mstore (sys_world t))))"
    and "card (dom (watchers (mstore (sys_world t)))) + unregistered t \<le> Suc (length (sys_nodes t))"
    and ws: "\<And>w. w \<in> ran (watchers (mstore (sys_world t))) \<Longrightarrow>
        w \<in> ran (watchers (mstore (sys_world s))) \<or> reader_ok t (wch w)"
    and act: "\<And>x c. x \<in> set (sys_active t) \<Longrightarrow> c \<in> set (snd x) \<Longrightarrow>
        (\<exists>y \<in> set (sys_active s). c \<in> set (snd y)) \<or> reader_ok t c"
    and nodes: "\<And>j. j < length (sys_nodes t) \<Longrightarrow> node_proc_ok t j (sys_nodes t ! j)"
  shows "chan_ok t"
proof -
  have "reader_ok t (wch w)" if "w \<in> ran (watchers (mstore (sys_world t)))" for w
    using ws [OF that] chan_okD(3) [OF assms(1)] reader_ok_mono [OF le] by blast
  moreover have "reader_ok t c" if "x \<in> set (sys_active t)" "c \<in> set (snd x)" for x c
    using act [OF that] chan_okD(4) [OF assms(1)] reader_ok_mono [OF le] by blast
  ultimately show ?thesis using assms(3,4) nodes by (simp add: chan_ok_def Let_def)
qed

lemma readers_le_same:
  "sys_ctrl t = sys_ctrl s \<Longrightarrow> sys_nodes t = sys_nodes s \<Longrightarrow> readers_le s t"
  by (simp add: readers_le_def)

text \<open>Steps that change neither watchers nor node processes.\<close>

lemma chan_ok_simple:
  assumes "chan_ok s" "watchers (mstore (sys_world t)) = watchers (mstore (sys_world s))"
    and "sys_nodes t = sys_nodes s" "sys_closed t = sys_closed s"
    and "sys_ctrl t = C_Init \<longleftrightarrow> sys_ctrl s = C_Init"
    and "\<And>x c. x \<in> set (sys_active t) \<Longrightarrow> c \<in> set (snd x) \<Longrightarrow>
        (\<exists>y \<in> set (sys_active s). c \<in> set (snd y)) \<or> reader_ok s c"
  shows "chan_ok t"
proof -
  have "readers_le s t" using assms(3,5) by (simp add: readers_le_def)
  moreover have "reader_ok t c \<longleftrightarrow> reader_ok s c" for c using assms(3,5) by (simp add: reader_ok_def)
  moreover have "unregistered t = unregistered s" using assms(3,5) by (simp add: unregistered_def)
  moreover have "node_proc_ok t j m \<longleftrightarrow> node_proc_ok s j m" for j m
    using assms(4) by (simp add: node_proc_ok_def)
  ultimately show ?thesis
    using chan_okD [OF assms(1)] assms by (intro chan_ok_evolve [OF assms(1)]) auto
qed

subsection \<open>Every step keeps the readers\<close>

lemma monitor_step_watchers:
  "monitor_step n pc w = Ret (w', pc') \<Longrightarrow> watchers (mstore w') = watchers (mstore w)"
  by (cases pc) (auto simp: go_simps store_simps)

lemma ctrl_step_watchers:
  "ctrl_step pc w = Ret (w', pc') \<Longrightarrow> watchers (mstore w') = watchers (mstore w)"
  by (cases pc) (auto simp: go_simps store_simps split: if_splits go.splits)

lemma node_step_watchers:
  "node_step p n pc w = Ret (w', pc', out) \<Longrightarrow>
   watchers (mstore w') = watchers (mstore w) \<and> (pc' = N_Init \<longleftrightarrow> pc = N_Init) \<and> (pc' = N_End \<longleftrightarrow> pc = N_End)"
  by (cases pc) (auto simp: go_simps store_simps split: if_splits go.splits)

lemma late_visit_chans:
  assumes "x \<in> set (late_visit ch v act)" "fst v < length act" "c \<in> set (snd x)"
  shows "c = ch \<or> (\<exists>y \<in> set act. c \<in> set (snd y))"
proof -
  obtain a k where v: "v = (a, k)" by (cases v)
  obtain e chs where e: "act ! a = (e, chs)" by (cases "act ! a")
  then have mem: "(e, chs) \<in> set act" using assms(2) v by (metis fst_conv nth_mem)
  from assms(1) v e
  have "x \<in> set act \<or> x = (e, case chs of [] \<Rightarrow> [] | c # cs \<Rightarrow> c # take k cs @ ch # drop k cs)"
    by (auto simp: late_visit_def dest: set_list_updateD)
  then show ?thesis
  proof
    assume "x \<in> set act"
    with assms(3) show ?thesis by blast
  next
    assume x: "x = (e, case chs of [] \<Rightarrow> [] | c # cs \<Rightarrow> c # take k cs @ ch # drop k cs)"
    then have "c = ch \<or> c \<in> set chs"
      using assms(3) by (auto split: list.splits dest: in_set_takeD in_set_dropD)
    with mem show ?thesis by (metis snd_conv)
  qed
qed

lemma length_late_visit [simp]: "length (late_visit ch v act) = length act"
  by (simp add: late_visit_def Let_def split: prod.splits)

lemma late_visits_chans:
  "\<forall>(a, k) \<in> set late. a < length act \<Longrightarrow> x \<in> set (fold (late_visit ch) late act) \<Longrightarrow> c \<in> set (snd x) \<Longrightarrow>
   c = ch \<or> (\<exists>y \<in> set act. c \<in> set (snd y))"
proof (induction late arbitrary: act)
  case Nil
  then show ?case by auto
next
  case (Cons v late)
  then have v: "fst v < length act" by auto
  have "c = ch \<or> (\<exists>y \<in> set (late_visit ch v act). c \<in> set (snd y))"
    using Cons by (intro Cons.IH) auto
  then show ?case using late_visit_chans [OF _ v] by blast
qed

text \<open>A new watcher of the process that stops being unregistered.\<close>

lemma chan_ok_watch:
  assumes ok: "chan_ok s" and late: "late_ok late s" and i: "i \<notin> dom (watchers (mstore (sys_world s)))"
    and t: "sys_world t = sys_world (do_watch i ch late s)" "sys_active t = sys_active (do_watch i ch late s)"
    and le: "readers_le s t" and ch: "reader_ok t ch"
    and n: "length (sys_nodes t) = length (sys_nodes s)" "Suc (unregistered t) \<le> unregistered s"
    and nodes: "\<And>j. j < length (sys_nodes t) \<Longrightarrow> node_proc_ok t j (sys_nodes t ! j)"
  shows "chan_ok t"
proof -
  let ?ws = "watchers (mstore (sys_world s))"
  have ws: "watchers (mstore (sys_world t)) = ?ws(i \<mapsto> \<lparr>wid = i, wch = ch\<rparr>)"
    by (simp add: t do_watch_def store_simps)
  show ?thesis
  proof (rule chan_ok_evolve [OF ok le _ _ _ _ nodes])
    show "finite (dom (watchers (mstore (sys_world t))))" using chan_okD(1) [OF ok] ws by simp
    have "card (dom (watchers (mstore (sys_world t)))) = Suc (card (dom ?ws))"
      using chan_okD(1) [OF ok] i ws by simp
    then show "card (dom (watchers (mstore (sys_world t)))) + unregistered t \<le> Suc (length (sys_nodes t))"
      using chan_okD(2) [OF ok] n by simp
    show "w \<in> ran ?ws \<or> reader_ok t (wch w)" if "w \<in> ran (watchers (mstore (sys_world t)))" for w
      using that ch by (auto simp: ws ran_def split: if_splits)
    show "(\<exists>y \<in> set (sys_active s). c \<in> set (snd y)) \<or> reader_ok t c"
      if "x \<in> set (sys_active t)" "c \<in> set (snd x)" for x c
      using late_visits_chans [of late "sys_active s" x ch c] that late ch t(2)
      by (auto simp: do_watch_def late_ok_def)
  qed
qed

lemma sum_list_map_update:
  fixes f :: "'x \<Rightarrow> nat"
  assumes "j < length xs"
  shows "sum_list (map f (xs[j := x])) + f (xs ! j) = sum_list (map f xs) + f x"
proof -
  have "f (xs ! j) \<le> sum_list (map f xs)"
    using assms elem_le_sum_list [of j "map f xs"] by simp
  then show ?thesis using assms by (simp add: map_update sum_list_update)
qed

lemma unregistered_update:
  assumes "j < length (sys_nodes s)" "sys_ctrl t = sys_ctrl s" "sys_nodes t = (sys_nodes s)[j := m]"
  shows "unregistered t + (if np_pc (sys_nodes s ! j) = N_Init then 1 else 0) =
     unregistered s + (if np_pc m = N_Init then 1 else 0)"
  using sum_list_map_update [OF assms(1), of "\<lambda>m. if np_pc m = N_Init then 1 else 0" m]
  unfolding unregistered_def assms(2,3) by linarith

text \<open>Steps of one node process that registers nothing.\<close>

lemma chan_ok_node:
  assumes ok: "chan_ok s" and j: "j < length (sys_nodes s)" "sys_nodes t = (sys_nodes s)[j := m]"
    and m: "np_chan m = np_chan (sys_nodes s ! j)" "np_pc m = N_Init \<longleftrightarrow> np_pc (sys_nodes s ! j) = N_Init"
      "np_reg m = R_None \<longleftrightarrow> np_reg (sys_nodes s ! j) = R_None"
      "np_pc m = N_End \<Longrightarrow> np_chan m \<in> set (sys_closed t)"
    and t: "sys_ctrl t = sys_ctrl s" "set (sys_closed s) \<subseteq> set (sys_closed t)"
    and fin: "finite (dom (watchers (mstore (sys_world t))))"
    and card: "card (dom (watchers (mstore (sys_world t)))) \<le> card (dom (watchers (mstore (sys_world s))))"
    and ws: "ran (watchers (mstore (sys_world t))) \<subseteq> ran (watchers (mstore (sys_world s)))"
    and act: "\<And>x c. x \<in> set (sys_active t) \<Longrightarrow> c \<in> set (snd x) \<Longrightarrow> \<exists>y \<in> set (sys_active s). c \<in> set (snd y)"
  shows "chan_ok t"
proof -
  have le: "readers_le s t" using j m(2) t(1) by (auto simp: readers_le_def nth_list_update)
  have u: "unregistered t = unregistered s"
    using unregistered_update [OF j(1) t(1) j(2)] m(2) by simp
  have "node_proc_ok t k (sys_nodes t ! k)" if "k < length (sys_nodes t)" for k
  proof (cases "k = j")
    case True
    then show ?thesis
      using chan_okD(5) [OF ok j(1)] j m by (auto simp: node_proc_ok_def)
  next
    case False
    then show ?thesis
      using chan_okD(5) [OF ok, of k] that j t(2) by (auto simp: node_proc_ok_def)
  qed
  then show ?thesis
    using chan_okD(2) [OF ok] fin card ws act u j by (intro chan_ok_evolve [OF ok le]) auto
qed

lemma finite_range_order: "range_order (watchers (mstore (sys_world s))) order \<Longrightarrow> finite (dom (watchers (mstore (sys_world s))))"
  by (rule range_order_finite)

lemma unwatch_watchers:
  assumes "range_order ws order" "finite (dom ws)"
  shows "finite (dom (RemoveWatcher order ws i))" "card (dom (RemoveWatcher order ws i)) \<le> card (dom ws)"
    "ran (RemoveWatcher order ws i) \<subseteq> ran ws"
proof -
  have r: "set (ranged ws order) = ran ws" by (rule set_ranged_order [OF assms(1)])
  have eq: "RemoveWatcher order ws i =
      (case filter (\<lambda>x. wid x \<noteq> i) (ranged ws order) of [] \<Rightarrow> Map.empty | y # ys \<Rightarrow> [i \<mapsto> last (y # ys)])"
    by (simp add: RemoveWatcher_def remove_loop_eq)
  show "finite (dom (RemoveWatcher order ws i))" by (auto simp: eq split: list.splits)
  show "ran (RemoveWatcher order ws i) \<subseteq> ran ws"
  proof (cases "filter (\<lambda>x. wid x \<noteq> i) (ranged ws order)")
    case Nil
    then show ?thesis by (simp add: eq)
  next
    case (Cons y ys)
    then have "last (y # ys) \<in> set (ranged ws order)"
      by (metis filter_is_subset last_in_set list.distinct(1) subsetD)
    then show ?thesis using Cons r by (auto simp: eq ran_def split: if_splits)
  qed
  show "card (dom (RemoveWatcher order ws i)) \<le> card (dom ws)"
  proof (cases "filter (\<lambda>x. wid x \<noteq> i) (ranged ws order)")
    case Nil
    then show ?thesis by (simp add: eq)
  next
    case (Cons y ys)
    then have "y \<in> set (ranged ws order)" by (metis filter_is_subset list.set_intros(1) subsetD)
    then have "dom ws \<noteq> {}" using r by (auto simp: ran_def)
    then have "1 \<le> card (dom ws)" using assms(2) by (simp add: card_gt_0_iff Suc_leI)
    then show ?thesis by (simp add: eq Cons)
  qed
qed

lemma chan_ok_connect: "chan_ok s \<Longrightarrow> chan_ok (do_connect n s)"
proof (rule chan_ok_evolve)
  assume ok: "chan_ok s"
  show "readers_le s (do_connect n s)" by (auto simp: readers_le_def do_connect_def nth_append)
  show "finite (dom (watchers (mstore (sys_world (do_connect n s)))))"
    using chan_okD(1) [OF ok] by (simp add: do_connect_def)
  show "card (dom (watchers (mstore (sys_world (do_connect n s))))) + unregistered (do_connect n s)
      \<le> Suc (length (sys_nodes (do_connect n s)))"
    using chan_okD(2) [OF ok] by (simp add: do_connect_def unregistered_def)
  show "node_proc_ok (do_connect n s) j (sys_nodes (do_connect n s) ! j)"
    if "j < length (sys_nodes (do_connect n s))" for j
    using chan_okD(5) [OF ok, of j] that by (auto simp: do_connect_def node_proc_ok_def nth_append less_Suc_eq)
qed (auto simp: do_connect_def)

lemma chan_ok_ctrl_watch:
  assumes ok: "chan_ok s" and "late_ok late s" "i \<notin> dom (watchers (mstore (sys_world s)))" "sys_ctrl s = C_Init"
  shows "chan_ok (do_ctrl_watch i late s)"
proof (rule chan_ok_watch [OF ok assms(2,3)])
  show "node_proc_ok (do_ctrl_watch i late s) j (sys_nodes (do_ctrl_watch i late s) ! j)"
    if "j < length (sys_nodes (do_ctrl_watch i late s))" for j
    using chan_okD(5) [OF ok, of j] that by (auto simp: do_ctrl_watch_def do_watch_def node_proc_ok_def)
qed (use assms(4) in \<open>auto simp: do_ctrl_watch_def do_watch_def readers_le_def reader_ok_def unregistered_def\<close>)

lemma chan_ok_node_watch:
  assumes ok: "chan_ok s" and "late_ok late s" "i \<notin> dom (watchers (mstore (sys_world s)))"
    and j: "j < length (sys_nodes s)" "np_pc (sys_nodes s ! j) = N_Init"
  shows "chan_ok (do_node_watch j i late s)"
proof -
  let ?t = "do_node_watch j i late s" and ?m = "(sys_nodes s ! j)\<lparr>np_pc := N_Range, np_reg := R_On i\<rparr>"
  have c: "np_chan (sys_nodes s ! j) = Suc j" using chan_okD(5) [OF ok j(1)] by (simp add: node_proc_ok_def)
  have n: "sys_nodes ?t = (sys_nodes s)[j := ?m]" "sys_ctrl ?t = sys_ctrl s" "sys_closed ?t = sys_closed s"
    by (simp_all add: do_node_watch_def do_watch_def Let_def)
  show ?thesis
  proof (rule chan_ok_watch [OF ok assms(2,3), where ch = "np_chan (sys_nodes s ! j)"])
    show "readers_le s ?t" using n j by (auto simp: readers_le_def nth_list_update)
    show "reader_ok ?t (np_chan (sys_nodes s ! j))"
      using c j(1) n by (auto simp: reader_ok_def)
    show "Suc (unregistered ?t) \<le> unregistered s"
      using unregistered_update [OF j(1) n(2,1)] j(2) by simp
    show "node_proc_ok ?t k (sys_nodes ?t ! k)" if "k < length (sys_nodes ?t)" for k
      using chan_okD(5) [OF ok, of k] that c n by (cases "k = j") (auto simp: node_proc_ok_def)
  qed (simp_all add: do_node_watch_def do_watch_def Let_def)
qed

lemma chan_ok_recv: "chan_ok s \<Longrightarrow> chan_ok (do_recv cd j r s)"
  by (erule chan_ok_simple) (auto simp: do_recv_def split: go.splits)

lemma chan_ok_mon: "chan_ok s \<Longrightarrow> chan_ok (do_mon j s)"
  by (erule chan_ok_simple)
    (auto simp: do_mon_def Let_def split: go.splits dest: monitor_step_watchers)

lemma chan_ok_ctrl: "chan_ok s \<Longrightarrow> chan_ok (do_ctrl s)"
  by (erule chan_ok_simple)
    (auto simp: do_ctrl_def split: go.splits dest: ctrl_step_watchers ctrl_step_rank)

lemma chan_ok_cancel: "chan_ok s \<Longrightarrow> chan_ok (do_cancel s)"
  by (erule chan_ok_simple) (auto simp: do_cancel_def)

lemma chan_ok_send_closed: "chan_ok s \<Longrightarrow> chan_ok (do_send_closed s)"
  by (erule chan_ok_simple) (auto simp: do_send_closed_def)

lemma chan_ok_unwatch:
  assumes ok: "chan_ok s" and j: "j < length (sys_nodes s)" "np_reg (sys_nodes s ! j) = R_On i"
    and r: "range_order (watchers (mstore (sys_world s))) order"
  shows "chan_ok (do_unwatch j i order s)"
proof (rule chan_ok_node [OF ok j(1)])
  have w: "watchers (mstore (sys_world (do_unwatch j i order s))) =
      RemoveWatcher order (watchers (mstore (sys_world s))) i"
    by (simp add: do_unwatch_def unwatch_def)
  note u = unwatch_watchers [OF r chan_okD(1) [OF ok], of i]
  show "finite (dom (watchers (mstore (sys_world (do_unwatch j i order s)))))"
    "card (dom (watchers (mstore (sys_world (do_unwatch j i order s))))) \<le> card (dom (watchers (mstore (sys_world s))))"
    "ran (watchers (mstore (sys_world (do_unwatch j i order s)))) \<subseteq> ran (watchers (mstore (sys_world s)))"
    unfolding w by (rule u)+
  show "sys_nodes (do_unwatch j i order s) = (sys_nodes s)[j := (sys_nodes s ! j)\<lparr>np_reg := R_Removed\<rparr>]"
    by (simp add: do_unwatch_def)
  show "np_chan ((sys_nodes s ! j)\<lparr>np_reg := R_Removed\<rparr>) \<in> set (sys_closed (do_unwatch j i order s))"
    if "np_pc ((sys_nodes s ! j)\<lparr>np_reg := R_Removed\<rparr>) = N_End"
    using that chan_okD(5) [OF ok j(1)] by (simp add: node_proc_ok_def do_unwatch_def)
qed (auto simp: do_unwatch_def j(2))

lemma chan_ok_close:
  assumes ok: "chan_ok s" and j: "j < length (sys_nodes s)" "np_reg (sys_nodes s ! j) = R_Removed"
  shows "chan_ok (do_close j s)"
  by (rule chan_ok_node [OF ok j(1), of _ "(sys_nodes s ! j)\<lparr>np_reg := R_Closed\<rparr>"])
    (use chan_okD(1,5) [OF ok] j in \<open>auto simp: do_close_def node_proc_ok_def\<close>)

lemma chan_ok_node_end:
  assumes ok: "chan_ok s" and j: "j < length (sys_nodes s)" "np_pc (sys_nodes s ! j) = N_Range"
    and "np_chan (sys_nodes s ! j) \<in> set (sys_closed s)"
  shows "chan_ok (do_node_end j s)"
  by (rule chan_ok_node [OF ok j(1), of _ "(sys_nodes s ! j)\<lparr>np_pc := N_End\<rparr>"])
    (use chan_okD(1) [OF ok] assms(3,4) in \<open>auto simp: do_node_end_def\<close>)

lemma chan_ok_node_move:
  assumes ok: "chan_ok s" and j: "j < length (sys_nodes s)"
    and pc: "np_pc (sys_nodes s ! j) \<noteq> N_Init" "np_pc (sys_nodes s ! j) \<noteq> N_End"
  shows "chan_ok (do_node p j s)"
proof (cases "node_step p (np_node (sys_nodes s ! j)) (np_pc (sys_nodes s ! j)) (sys_world s)")
  case (Ret x)
  obtain w pc' out where x: "x = (w, pc', out)" by (cases x)
  note st = node_step_watchers [OF Ret [unfolded x]]
  show ?thesis
    by (rule chan_ok_node [OF ok j, of _ "(sys_nodes s ! j)\<lparr>np_pc := pc'\<rparr>"])
      (use chan_okD(1) [OF ok] st pc Ret x in \<open>auto simp: do_node_def Let_def\<close>)
qed (use ok in \<open>auto simp: do_node_def Let_def elim!: chan_ok_simple\<close>)

lemma chan_ok_send_start:
  assumes ok: "chan_ok s"
  shows "chan_ok (do_send_start i order s)"
proof (rule chan_ok_simple [OF ok])
  show "(\<exists>y \<in> set (sys_active s). c \<in> set (snd y)) \<or> reader_ok s c"
    if "x \<in> set (sys_active (do_send_start i order s))" "c \<in> set (snd x)" for x c
  proof -
    have "x \<in> set (sys_active s) \<or> c \<in> wch ` set (ranged (watchers (mstore (sys_world s))) order)"
      using that by (auto simp: do_send_start_def Let_def)
    moreover have "set (ranged (watchers (mstore (sys_world s))) order) \<subseteq> ran (watchers (mstore (sys_world s)))"
      by (auto simp: set_ranged ran_def)
    ultimately show ?thesis using that(2) chan_okD(3) [OF ok] by blast
  qed
qed (simp_all add: do_send_start_def Let_def)

lemma taken_chans:
  assumes "x \<in> set (sys_active (do_taken i s))" "c \<in> set (snd x)" "i < length (sys_active s)"
  shows "\<exists>y \<in> set (sys_active s). c \<in> set (snd y)"
proof -
  have "x \<in> set (sys_active s) \<or> x = (fst (sys_active s ! i), tl (snd (sys_active s ! i)))"
    using assms(1) by (auto simp: do_taken_def dest: set_list_updateD)
  then show ?thesis
  proof
    assume "x = (fst (sys_active s ! i), tl (snd (sys_active s ! i)))"
    then have "c \<in> set (snd (sys_active s ! i))"
      using assms(2) by (cases "snd (sys_active s ! i)") auto
    with assms(3) show ?thesis by (meson nth_mem)
  qed (use assms(2) in blast)
qed

lemma offersD: "offers s i c \<Longrightarrow> i < length (sys_active s) \<and> (\<exists>cs. snd (sys_active s ! i) = c # cs)"
  by (auto simp: offers_def split: list.splits)

lemma chan_ok_deliver_ctrl:
  assumes ok: "chan_ok s" and "offers s i c" "sys_ctrl s \<noteq> C_Init"
  shows "chan_ok (do_deliver_ctrl i s)"
proof (rule chan_ok_simple [OF ok])
  show "(\<exists>y \<in> set (sys_active s). c \<in> set (snd y)) \<or> reader_ok s c"
    if "x \<in> set (sys_active (do_deliver_ctrl i s))" "c \<in> set (snd x)" for x c
    using that taken_chans [of x i s c] offersD [OF assms(2)] by (simp add: do_deliver_ctrl_def)
qed (use assms(3) in \<open>simp_all add: do_deliver_ctrl_def do_taken_def\<close>)

lemma chan_ok_deliver_node:
  assumes ok: "chan_ok s" and j: "j < length (sys_nodes s)" "np_pc (sys_nodes s ! j) = N_Range"
    and i: "offers s i c"
  shows "chan_ok (do_deliver_node i j s)"
proof (rule chan_ok_node [OF ok j(1)])
  show "sys_nodes (do_deliver_node i j s) =
      (sys_nodes s)[j := (sys_nodes s ! j)\<lparr>np_pc := N_Event (fst (sys_active s ! i))\<rparr>]"
    by (simp add: do_deliver_node_def do_taken_def)
  show "\<exists>y \<in> set (sys_active s). c \<in> set (snd y)"
    if "x \<in> set (sys_active (do_deliver_node i j s))" "c \<in> set (snd x)" for x c
    using that taken_chans [of x i s c] offersD [OF i] by (simp add: do_deliver_node_def)
qed (use chan_okD(1) [OF ok] j(2) in \<open>auto simp: do_deliver_node_def do_taken_def\<close>)

lemma chan_ok_mon_ctx: "chan_ok s \<Longrightarrow> chan_ok (do_mon_ctx j s)"
  by (erule chan_ok_simple) (auto simp: do_mon_ctx_def)

lemma sys_step_chan_ok: "sys_step cd p s t \<Longrightarrow> chan_ok s \<Longrightarrow> chan_ok t"
  by (induction rule: sys_step.induct)
    (auto intro: chan_ok_connect chan_ok_ctrl_watch chan_ok_node_watch chan_ok_cancel chan_ok_unwatch
      chan_ok_close chan_ok_send_closed chan_ok_node_end chan_ok_mon_ctx chan_ok_recv chan_ok_mon chan_ok_send_start
      chan_ok_deliver_ctrl chan_ok_deliver_node chan_ok_ctrl chan_ok_node_move)

lemma reachable_chan_ok: "reachable cd p s \<Longrightarrow> chan_ok s"
  by (induction rule: reachable.induct) (auto intro: chan_ok_init sys_step_chan_ok)

subsection \<open>Internal steps and progress\<close>

fun internal :: "act \<Rightarrow> bool" where
  "internal (A_Connect n) \<longleftrightarrow> False"
| "internal (A_Recv j r) \<longleftrightarrow> False"
| "internal A_Cancel \<longleftrightarrow> False"
| "internal _ \<longleftrightarrow> True"

definition can_move :: "sys \<Rightarrow> bool" where
  "can_move s \<longleftrightarrow> (\<exists>a. internal a \<and> act_enabled a s)"

lemma can_moveI: "internal a \<Longrightarrow> act_enabled a s \<Longrightarrow> can_move s"
  by (auto simp: can_move_def)

lemma fresh_uuid: "chan_ok s \<Longrightarrow> \<exists>i. watchers (mstore (sys_world s)) i = None"
  using ex_new_if_finite [OF infinite_UNIV_nat chan_okD(1)] by (auto simp: dom_def)

lemma late_ok_Nil [simp]: "late_ok [] s"
  by (simp add: late_ok_def)

lemma node_can_move:
  assumes ok: "chan_ok s" and j: "j < length (sys_nodes s)"
    and "\<not> can_move s"
  shows "np_pc (sys_nodes s ! j) = N_End \<or>
      np_pc (sys_nodes s ! j) = N_Range \<and> np_chan (sys_nodes s ! j) \<notin> set (sys_closed s)"
    and "sys_cancelled s \<Longrightarrow> np_reg (sys_nodes s ! j) = R_Closed"
proof -
  obtain i where i: "watchers (mstore (sys_world s)) i = None" using fresh_uuid [OF ok] by blast
  have init: "np_pc (sys_nodes s ! j) \<noteq> N_Init"
    using assms(3) can_moveI [of "A_NodeWatch j i []" s] j i by auto
  then show "np_pc (sys_nodes s ! j) = N_End \<or>
      np_pc (sys_nodes s ! j) = N_Range \<and> np_chan (sys_nodes s ! j) \<notin> set (sys_closed s)"
    using assms(3) can_moveI [of "A_Node j" s] can_moveI [of "A_NodeEnd j" s] j by auto
  assume c: "sys_cancelled s"
  obtain order where order: "range_order (watchers (mstore (sys_world s))) order"
    using range_order_exists [OF chan_okD(1) [OF ok]] by blast
  have "np_reg (sys_nodes s ! j) \<noteq> R_None"
    using init chan_okD(5) [OF ok j] by (simp add: node_proc_ok_def)
  moreover have "np_reg (sys_nodes s ! j) \<noteq> R_On u" for u
    using assms(3) can_moveI [of "A_Unwatch j u order" s] j c order by auto
  moreover have "np_reg (sys_nodes s ! j) \<noteq> R_Removed"
    using assms(3) can_moveI [of "A_Close j" s] j c by auto
  ultimately show "np_reg (sys_nodes s ! j) = R_Closed" by (cases "np_reg (sys_nodes s ! j)") auto
qed

text \<open>If no internal step is enabled, nothing is under way.\<close>

lemma stuck_quiescent:
  assumes ok: "chan_ok s" and "sys_crash s = None" and stuck: "\<not> can_move s"
  shows "quiescent s"
proof -
  obtain i where i: "watchers (mstore (sys_world s)) i = None" using fresh_uuid [OF ok] by blast
  have ctrl: "sys_ctrl s = C_Range"
    using stuck can_moveI [of A_Ctrl s] can_moveI [of "A_CtrlWatch i []" s] i by auto
  obtain order where "range_order (watchers (mstore (sys_world s))) order"
    using range_order_exists [OF chan_okD(1) [OF ok]] by blast
  then have sends: "sends (mstore (sys_world s)) = []"
    using stuck can_moveI [of "A_Start 0 order" s] by auto
  have mons: "mp_pc m = M_Idle \<and> (sys_cancelled s \<longrightarrow> returned (mp_loop m) \<noteq> None)" if "m \<in> set (sys_mons s)" for m
  proof -
    note mem = that
    obtain i where i: "i < length (sys_mons s)" "m = sys_mons s ! i" using mem by (metis in_set_conv_nth)
    then show ?thesis
      using stuck can_moveI [of "A_Mon i" s] can_moveI [of "A_MonCtx i" s]
      by (cases "returned (mp_loop m)") auto
  qed
  have act: "snd x = []" if "x \<in> set (sys_active s)" for x
  proof (rule ccontr)
    note mem = that
    assume "snd x \<noteq> []"
    then obtain c cs where c: "snd x = c # cs" by (cases "snd x") auto
    obtain a where a: "a < length (sys_active s)" "sys_active s ! a = x"
      using mem by (auto simp: in_set_conv_nth)
    then have o: "offers s a c" by (simp add: offers_def c)
    then have opn: "c \<notin> set (sys_closed s)"
      using stuck can_moveI [of "A_SendClosed a c" s] by auto
    have "reader_ok s c" using chan_okD(4) [OF ok that] c by simp
    then consider "c = ctrl_chan"
      | j where "j < length (sys_nodes s)" "c = Suc j" "np_pc (sys_nodes s ! j) \<noteq> N_Init"
      by (auto simp: reader_ok_def)
    then show False
    proof cases
      case 1
      then show False using stuck can_moveI [of "A_ToCtrl a" s] o ctrl by auto
    next
      case 2
      then have "np_chan (sys_nodes s ! j) = c" "np_pc (sys_nodes s ! j) \<noteq> N_End"
        using chan_okD(5) [OF ok, of j] opn by (auto simp: node_proc_ok_def)
      then show False
        using stuck can_moveI [of "A_ToNode a j" s] o node_can_move(1) [OF ok 2(1) stuck] 2(1) by auto
    qed
  qed
  have nodes: "(np_pc m = N_End \<or> np_pc m = N_Range \<and> np_chan m \<notin> set (sys_closed s)) \<and>
      (sys_cancelled s \<longrightarrow> np_reg m = R_Closed)" if "m \<in> set (sys_nodes s)" for m
  proof -
    from that obtain j where "j < length (sys_nodes s)" "m = sys_nodes s ! j"
      by (metis in_set_conv_nth)
    then show ?thesis using node_can_move [OF ok _ stuck] by blast
  qed
  show ?thesis unfolding quiescent_def using assms(2) ctrl sends mons act nodes by blast
qed

subsection \<open>Work that is left\<close>

text \<open>
  The work of an event with \<open>k\<close> possible readers: one step to start its goroutine, and per
  reader its delivery, the steps of the handler, and the work of the event that the handler
  may put. New requests lead to approvals, approvals to Done, Done to nothing.
\<close>

definition done_work :: "nat \<Rightarrow> nat" where "done_work k = 1 + k * 6"
definition approved_work :: "nat \<Rightarrow> nat" where "approved_work k = 1 + k * (6 + done_work k)"
definition new_work :: "nat \<Rightarrow> nat" where "new_work k = 1 + k * (6 + approved_work k)"

definition put_work :: "nat \<Rightarrow> mho_state \<Rightarrow> nat" where
  "put_work k st = (case st of StateCreated \<Rightarrow> approved_work k | Denied \<Rightarrow> approved_work k
     | Approved \<Rightarrow> done_work k | _ \<Rightarrow> 0)"

definition delivery_work :: "nat \<Rightarrow> event \<Rightarrow> nat" where
  "delivery_work k e = 6 + put_work k (EventMHOState e)"

definition send_work :: "nat \<Rightarrow> event \<Rightarrow> nat" where
  "send_work k e = 1 + k * delivery_work k e"

lemma send_work_simps:
  "EventMHOState e = Done \<Longrightarrow> send_work k e = done_work k"
  "EventMHOState e = Approved \<Longrightarrow> send_work k e = approved_work k"
  "EventMHOState e = StateCreated \<Longrightarrow> send_work k e = new_work k"
  "EventMHOState e = Denied \<Longrightarrow> send_work k e = new_work k"
  by (simp_all add: send_work_def delivery_work_def put_work_def done_work_def approved_work_def new_work_def)

fun ctrl_work :: "nat \<Rightarrow> ctrl_pc \<Rightarrow> nat" where
  "ctrl_work k C_Init = 1"
| "ctrl_work k C_Range = 0"
| "ctrl_work k (C_Event e) = 3 + put_work k (EventMHOState e)"
| "ctrl_work k (C_Got e a) = 2 + put_work k (EventMHOState e)"
| "ctrl_work k (C_Put e a) = 1 + approved_work k"

fun node_work :: "nat \<Rightarrow> node_pc \<Rightarrow> nat" where
  "node_work k N_Init = 1"
| "node_work k N_Range = 1"
| "node_work k N_End = 0"
| "node_work k (N_Event e) = 5 + put_work k (EventMHOState e)"
| "node_work k (N_Got e a) = 4 + put_work k (EventMHOState e)"
| "node_work k (N_Sent e a) = 3 + done_work k"
| "node_work k (N_Put e a) = 2 + done_work k"

fun reg_work :: "registration \<Rightarrow> nat" where
  "reg_work R_None = 3"
| "reg_work (R_On i) = 2"
| "reg_work R_Removed = 1"
| "reg_work R_Closed = 0"

fun mon_work :: "nat \<Rightarrow> monitor_pc \<Rightarrow> nat" where
  "mon_work k M_Idle = 0"
| "mon_work k (M_Has rq) = 4 + new_work k"
| "mon_work k (M_Get rq) = 3 + new_work k"
| "mon_work k (M_Got rq a) = 2 + new_work k"
| "mon_work k (M_New rq) = 1 + new_work k"
| "mon_work k (M_Same rq a) = 1 + new_work k"

abbreviation mon_proc_work :: "nat \<Rightarrow> mon_proc \<Rightarrow> nat" where
  "mon_proc_work k m \<equiv> mon_work k (mp_pc m) + (if returned (mp_loop m) = None then 1 else 0)"

definition sends_work :: "nat \<Rightarrow> world \<Rightarrow> nat" where
  "sends_work k w = sum_list (map (send_work k) (sends (mstore w)))"

definition active_work :: "nat \<Rightarrow> nat \<Rightarrow> event \<times> chan list \<Rightarrow> nat" where
  "active_work k u x = (if snd x = [] then 0 else delivery_work k (fst x) * (length (snd x) + u))"

definition work :: "sys \<Rightarrow> nat" where
  "work s =
     (let k = Suc (length (sys_nodes s)) in
      sends_work k (sys_world s) + sum_list (map (active_work k (unregistered s)) (sys_active s)) +
      ctrl_work k (sys_ctrl s) +
      sum_list (map (\<lambda>m. node_work k (np_pc m) + reg_work (np_reg m)) (sys_nodes s)) +
      sum_list (map (mon_proc_work k) (sys_mons s)) +
      (if sys_crash s = None then 1 else 0))"

subsection \<open>Handlers pay for what they put\<close>

lemma sends_work_put [simp]:
  "sends_work k (put_value key a st w) = sends_work k w + send_work k (put_event key a st (mstore w))"
  by (simp add: sends_work_def store_simps)

lemma sends_work_set_state [simp]: "sends_work k (set_state a st w) = sends_work k w"
  by (simp add: sends_work_def store_simps)

lemma put_event_work [simp]:
  "send_work k (put_event key a Done s) = done_work k"
  "send_work k (put_event key a Approved s) = approved_work k"
  "send_work k (put_event key a StateCreated s) = new_work k"
  "send_work k (put_event key a Denied s) = new_work k"
  by (simp_all add: send_work_simps)

lemma sends_work_put_new [simp]: "sends_work k (put_new rq n w) = sends_work k w + new_work k"
  by (simp add: put_new_def Let_def split: prod.split) (simp add: sends_work_def alloc_def)

lemma monitor_pays:
  "monitor_step n pc w = Ret (w', pc') \<Longrightarrow> pc \<noteq> M_Idle \<Longrightarrow>
   sends_work k w' + mon_work k pc' < sends_work k w + mon_work k pc"
  by (cases pc) (auto simp: go_simps)

lemma ctrl_pays:
  "ctrl_step pc w = Ret (w', pc') \<Longrightarrow> pc \<noteq> C_Init \<Longrightarrow> pc \<noteq> C_Range \<Longrightarrow>
   sends_work k w' + ctrl_work k pc' < sends_work k w + ctrl_work k pc"
  by (cases pc) (auto simp: go_simps put_work_def split: if_splits go.splits)

lemma node_pays:
  "node_step p n pc w = Ret (w', pc', out) \<Longrightarrow> pc \<noteq> N_Init \<Longrightarrow> pc \<noteq> N_Range \<Longrightarrow> pc \<noteq> N_End \<Longrightarrow>
   sends_work k w' + node_work k pc' < sends_work k w + node_work k pc"
  by (cases pc) (auto simp: go_simps put_work_def split: if_splits go.splits)

subsection \<open>Every internal step uses up work\<close>

abbreviation proc_work :: "nat \<Rightarrow> node_proc \<Rightarrow> nat" where
  "proc_work k m \<equiv> node_work k (np_pc m) + reg_work (np_reg m)"

lemma work_mon:
  assumes j: "j < length (sys_mons s)" "mp_pc (sys_mons s ! j) \<noteq> M_Idle" and c: "sys_crash s = None"
  shows "work (do_mon j s) < work s"
proof -
  let ?k = "Suc (length (sys_nodes s))" and ?m = "sys_mons s ! j"
  note upd = sum_list_map_update [OF j(1), of "mon_proc_work ?k"]
  show ?thesis
  proof (cases "monitor_step (mp_node ?m) (mp_pc ?m) (sys_world s)")
    case (Ret x)
    obtain w pc where x: "x = (w, pc)" by (cases x)
    have "sends_work ?k w + mon_work ?k pc < sends_work ?k (sys_world s) + mon_work ?k (mp_pc ?m)"
      using monitor_pays [OF Ret [unfolded x] j(2)] .
    then show ?thesis
      using upd [of "?m\<lparr>mp_pc := pc\<rparr>"] Ret x by (simp add: do_mon_def work_def Let_def unregistered_def)
  next
    case (Fail e)
    have "0 < mon_work ?k (mp_pc ?m)" using j(2) by (cases "mp_pc ?m") auto
    moreover obtain y where "returned (send_err e (mp_loop ?m)) = Some y"
      by (cases "returned (mp_loop ?m)") (simp_all add: send_err_def)
    ultimately show ?thesis
      using upd [of "?m\<lparr>mp_pc := M_Idle, mp_loop := send_err e (mp_loop ?m)\<rparr>"] Fail
      by (simp add: do_mon_def work_def Let_def unregistered_def)
  next
    case Panic
    then show ?thesis using c by (simp add: do_mon_def work_def Let_def unregistered_def)
  qed
qed

lemma work_mon_ctx:
  assumes j: "j < length (sys_mons s)" and "returned (mp_loop (sys_mons s ! j)) = None"
  shows "work (do_mon_ctx j s) < work s"
  using sum_list_map_update [OF j, of "mon_proc_work (Suc (length (sys_nodes s)))"
      "(sys_mons s ! j)\<lparr>mp_loop := ctx_done (mp_loop (sys_mons s ! j))\<rparr>"] assms(2)
  by (simp add: do_mon_ctx_def work_def Let_def unregistered_def ctx_done_def)

lemma work_ctrl:
  assumes "sys_ctrl s \<noteq> C_Init" "sys_ctrl s \<noteq> C_Range" and c: "sys_crash s = None"
  shows "work (do_ctrl s) < work s"
proof (cases "ctrl_step (sys_ctrl s) (sys_world s)")
  case (Ret x)
  obtain w pc where x: "x = (w, pc)" by (cases x)
  let ?k = "Suc (length (sys_nodes s))"
  have "sends_work ?k w + ctrl_work ?k pc < sends_work ?k (sys_world s) + ctrl_work ?k (sys_ctrl s)"
    using ctrl_pays [OF Ret [unfolded x] assms(1,2)] .
  moreover have "pc \<noteq> C_Init" using ctrl_step_rank [OF Ret [unfolded x]] assms(1) by simp
  ultimately show ?thesis
    using Ret x assms(1) by (simp add: do_ctrl_def work_def Let_def unregistered_def)
qed (use c in \<open>simp_all add: do_ctrl_def work_def Let_def unregistered_def\<close>)

lemma work_node_update:
  assumes j: "j < length (sys_nodes s)" "sys_nodes t = (sys_nodes s)[j := m]"
    and "np_pc m = N_Init \<longleftrightarrow> np_pc (sys_nodes s ! j) = N_Init"
    and "sys_ctrl t = sys_ctrl s" "sys_mons t = sys_mons s" "sys_active t = sys_active s" "sys_crash t = sys_crash s"
    and less: "sends_work (Suc (length (sys_nodes s))) (sys_world t) + proc_work (Suc (length (sys_nodes s))) m <
      sends_work (Suc (length (sys_nodes s))) (sys_world s) + proc_work (Suc (length (sys_nodes s))) (sys_nodes s ! j)"
  shows "work t < work s"
proof -
  have "unregistered t = unregistered s"
    using unregistered_update [OF j(1) assms(4) j(2)] assms(3) by simp
  then show ?thesis
    using sum_list_map_update [OF j(1), of "proc_work (Suc (length (sys_nodes s)))" m] less assms(4-7) j(2)
    by (simp add: work_def Let_def)
qed

lemma work_node:
  assumes j: "j < length (sys_nodes s)" and pc: "np_pc (sys_nodes s ! j) \<noteq> N_Init"
    "np_pc (sys_nodes s ! j) \<noteq> N_Range" "np_pc (sys_nodes s ! j) \<noteq> N_End" and c: "sys_crash s = None"
  shows "work (do_node p j s) < work s"
proof (cases "node_step p (np_node (sys_nodes s ! j)) (np_pc (sys_nodes s ! j)) (sys_world s)")
  case (Ret x)
  obtain w pc' out where x: "x = (w, pc', out)" by (cases x)
  show ?thesis
    by (rule work_node_update [OF j, of _ "(sys_nodes s ! j)\<lparr>np_pc := pc'\<rparr>"])
      (use Ret x pc node_pays [OF Ret [unfolded x] pc] node_step_watchers [OF Ret [unfolded x]] in
        \<open>simp_all add: do_node_def Let_def\<close>)
qed (use c in \<open>simp_all add: do_node_def work_def Let_def unregistered_def\<close>)

lemma work_unwatch:
  "j < length (sys_nodes s) \<Longrightarrow> np_reg (sys_nodes s ! j) = R_On i \<Longrightarrow> work (do_unwatch j i order s) < work s"
  by (rule work_node_update [of j s _ "(sys_nodes s ! j)\<lparr>np_reg := R_Removed\<rparr>"])
    (simp_all add: do_unwatch_def unwatch_def sends_work_def)

lemma work_close:
  "j < length (sys_nodes s) \<Longrightarrow> np_reg (sys_nodes s ! j) = R_Removed \<Longrightarrow> work (do_close j s) < work s"
  by (rule work_node_update [of j s _ "(sys_nodes s ! j)\<lparr>np_reg := R_Closed\<rparr>"]) (simp_all add: do_close_def)

lemma work_node_end:
  "j < length (sys_nodes s) \<Longrightarrow> np_pc (sys_nodes s ! j) = N_Range \<Longrightarrow> work (do_node_end j s) < work s"
  by (rule work_node_update [of j s _ "(sys_nodes s ! j)\<lparr>np_pc := N_End\<rparr>"]) (simp_all add: do_node_end_def)

lemma work_send_closed: "sys_crash s = None \<Longrightarrow> work (do_send_closed s) < work s"
  by (simp add: do_send_closed_def work_def Let_def unregistered_def)

lemma sum_list_take_drop:
  fixes f :: "'x \<Rightarrow> nat"
  shows "i < length xs \<Longrightarrow> sum_list (map f (take i xs @ drop (Suc i) xs)) + f (xs ! i) = sum_list (map f xs)"
proof -
  assume "i < length xs"
  then have "sum_list (map f xs) = sum_list (map f (take i xs @ xs ! i # drop (Suc i) xs))"
    by (simp flip: id_take_nth_drop)
  then show ?thesis by simp
qed

lemma work_send_start:
  assumes ok: "chan_ok s" and i: "i < length (sends (mstore (sys_world s)))"
    and r: "range_order (watchers (mstore (sys_world s))) order"
  shows "work (do_send_start i order s) < work s"
proof -
  let ?k = "Suc (length (sys_nodes s))" and ?evs = "sends (mstore (sys_world s))"
  let ?chs = "map wch (ranged (watchers (mstore (sys_world s))) order)"
  have "length ?chs + unregistered s \<le> ?k"
    using chan_okD(2) [OF ok] length_ranged [OF r] by simp
  then have "active_work ?k (unregistered s) (?evs ! i, ?chs) \<le> delivery_work ?k (?evs ! i) * ?k"
    unfolding active_work_def fst_conv snd_conv by (meson le_simps(1) mult_le_mono2 zero_le order_refl le0 if_splits)
  then have "active_work ?k (unregistered s) (?evs ! i, ?chs) < send_work ?k (?evs ! i)"
    by (simp add: send_work_def mult.commute)
  moreover have "unregistered (do_send_start i order s) = unregistered s"
    by (simp add: unregistered_def do_send_start_def Let_def)
  ultimately show ?thesis
    using sum_list_take_drop [OF i, of "send_work ?k"]
    by (simp add: work_def Let_def do_send_start_def sends_work_def)
qed

lemma active_taken:
  assumes "offers s i c"
  shows "sum_list (map (active_work k u) (sys_active (do_taken i s))) + delivery_work k (fst (sys_active s ! i)) \<le>
    sum_list (map (active_work k u) (sys_active s))"
proof -
  obtain cs where o: "i < length (sys_active s)" "snd (sys_active s ! i) = c # cs"
    using offersD [OF assms] by blast
  let ?x = "(fst (sys_active s ! i), tl (snd (sys_active s ! i)))"
  have "active_work k u ?x + delivery_work k (fst (sys_active s ! i)) \<le> active_work k u (sys_active s ! i)"
    by (cases cs) (auto simp: active_work_def o(2) algebra_simps)
  then show ?thesis
    using sum_list_map_update [OF o(1), of "active_work k u" ?x] by (simp add: do_taken_def)
qed

lemma work_deliver_ctrl:
  assumes "offers s i c" "sys_ctrl s = C_Range"
  shows "work (do_deliver_ctrl i s) < work s"
proof -
  have "unregistered (do_deliver_ctrl i s) = unregistered s"
    using assms(2) by (simp add: unregistered_def do_deliver_ctrl_def do_taken_def)
  then show ?thesis
    using active_taken [OF assms(1), of "Suc (length (sys_nodes s))" "unregistered s"] assms(2)
    by (simp add: work_def Let_def do_deliver_ctrl_def do_taken_def delivery_work_def)
qed

lemma work_deliver_node:
  assumes o: "offers s i c" and j: "j < length (sys_nodes s)" "np_pc (sys_nodes s ! j) = N_Range"
  shows "work (do_deliver_node i j s) < work s"
proof -
  let ?k = "Suc (length (sys_nodes s))"
  let ?m = "(sys_nodes s ! j)\<lparr>np_pc := N_Event (fst (sys_active s ! i))\<rparr>"
  have n: "sys_nodes (do_deliver_node i j s) = (sys_nodes s)[j := ?m]"
    "sys_ctrl (do_deliver_node i j s) = sys_ctrl s"
    by (simp_all add: do_deliver_node_def do_taken_def)
  have "unregistered (do_deliver_node i j s) = unregistered s"
    using unregistered_update [OF j(1) n(2,1)] j(2) by simp
  then show ?thesis
    using active_taken [OF o, of ?k "unregistered s"] sum_list_map_update [OF j(1), of "proc_work ?k" ?m] j(2) n
    by (simp add: work_def Let_def do_deliver_node_def do_taken_def delivery_work_def)
qed

text \<open>A late watcher adds at most one visit to a range, and none to one that has ended.\<close>

definition visit_le :: "nat \<Rightarrow> event \<times> chan list \<Rightarrow> event \<times> chan list \<Rightarrow> bool" where
  "visit_le d x y \<longleftrightarrow> fst y = fst x \<and> (snd x = [] \<longrightarrow> snd y = []) \<and> length (snd y) \<le> length (snd x) + d"

lemma late_visit_nth:
  assumes "fst v < length act" "j < length act"
  shows "visit_le (if j = fst v then 1 else 0) (act ! j) (late_visit ch v act ! j)"
  using assms by (auto simp: visit_le_def late_visit_def Let_def nth_list_update split: prod.splits list.splits)

lemma late_visits_nth:
  "distinct (map fst late) \<Longrightarrow> \<forall>v \<in> set late. fst v < length act \<Longrightarrow> j < length act \<Longrightarrow>
   visit_le (if j \<in> fst ` set late then 1 else 0) (act ! j) (fold (late_visit ch) late act ! j)"
proof (induction late arbitrary: act)
  case Nil
  then show ?case by (simp add: visit_le_def)
next
  case (Cons v late)
  let ?act = "late_visit ch v act"
  have one: "visit_le (if j = fst v then 1 else 0) (act ! j) (?act ! j)"
    using Cons.prems by (intro late_visit_nth) auto
  have rest: "visit_le (if j \<in> fst ` set late then 1 else 0) (?act ! j) (fold (late_visit ch) late ?act ! j)"
    using Cons.prems by (intro Cons.IH) auto
  have "\<not> (j = fst v \<and> j \<in> fst ` set late)" using Cons.prems(1) by auto
  then show ?case using one rest by (auto simp: visit_le_def split: if_splits)
qed

lemma length_late_visits: "length (fold (late_visit ch) late act) = length act"
  by (induction late arbitrary: act) auto

lemma active_work_mono:
  assumes "fst y = fst x" "snd x = [] \<longrightarrow> snd y = []" "length (snd y) + u \<le> length (snd x) + v"
  shows "active_work k u y \<le> active_work k v x"
proof (cases "snd y = []")
  case True
  then show ?thesis by (simp add: active_work_def)
next
  case False
  then have "snd x \<noteq> []" using assms(2) by blast
  then show ?thesis
    using mult_le_mono2 [OF assms(3), of "delivery_work k (fst x)"] False assms(1)
    by (simp only: active_work_def if_False)
qed

lemma active_late:
  assumes "late_ok late s"
  shows "sum_list (map (active_work k u) (fold (late_visit ch) late (sys_active s))) \<le>
    sum_list (map (active_work k (Suc u)) (sys_active s))"
proof (rule sum_list_mono2)
  show "length (map (active_work k u) (fold (late_visit ch) late (sys_active s))) =
      length (map (active_work k (Suc u)) (sys_active s))"
    by (simp add: length_late_visits)
  show "j < length (map (active_work k u) (fold (late_visit ch) late (sys_active s))) \<longrightarrow>
      map (active_work k u) (fold (late_visit ch) late (sys_active s)) ! j \<le>
      map (active_work k (Suc u)) (sys_active s) ! j" for j
  proof (intro impI)
    assume "j < length (map (active_work k u) (fold (late_visit ch) late (sys_active s)))"
    then have j: "j < length (sys_active s)" by (simp add: length_late_visits)
    let ?x = "sys_active s ! j" and ?y = "fold (late_visit ch) late (sys_active s) ! j"
    have "visit_le (if j \<in> fst ` set late then 1 else 0) ?x ?y"
      using assms j by (intro late_visits_nth) (auto simp: late_ok_def)
    then have "fst ?y = fst ?x" "snd ?x = [] \<longrightarrow> snd ?y = []" "length (snd ?y) + u \<le> length (snd ?x) + Suc u"
      by (auto simp: visit_le_def split: if_splits)
    then have "active_work k u ?y \<le> active_work k (Suc u) ?x"
      by (rule active_work_mono)
    then show "map (active_work k u) (fold (late_visit ch) late (sys_active s)) ! j \<le>
        map (active_work k (Suc u)) (sys_active s) ! j"
      using j by (simp add: length_late_visits)
  qed
qed

lemma work_ctrl_watch:
  assumes "late_ok late s" "sys_ctrl s = C_Init"
  shows "work (do_ctrl_watch i late s) < work s"
proof -
  have "unregistered s = Suc (unregistered (do_ctrl_watch i late s))"
    using assms(2) by (simp add: unregistered_def do_ctrl_watch_def do_watch_def)
  then show ?thesis
    using active_late [OF assms(1), of "Suc (length (sys_nodes s))" "unregistered (do_ctrl_watch i late s)" ctrl_chan]
      assms(2)
    by (simp add: work_def Let_def do_ctrl_watch_def do_watch_def sends_work_def store_simps)
qed

lemma work_node_watch:
  assumes "late_ok late s" and ok: "chan_ok s" and j: "j < length (sys_nodes s)" "np_pc (sys_nodes s ! j) = N_Init"
  shows "work (do_node_watch j i late s) < work s"
proof -
  let ?k = "Suc (length (sys_nodes s))" and ?t = "do_node_watch j i late s"
  let ?m = "(sys_nodes s ! j)\<lparr>np_pc := N_Range, np_reg := R_On i\<rparr>"
  have n: "sys_nodes ?t = (sys_nodes s)[j := ?m]" "sys_ctrl ?t = sys_ctrl s"
    by (simp_all add: do_node_watch_def do_watch_def Let_def)
  have u: "unregistered s = Suc (unregistered ?t)"
    using unregistered_update [OF j(1) n(2,1)] j(2) by simp
  have "np_reg (sys_nodes s ! j) = R_None"
    using chan_okD(5) [OF ok j(1)] j(2) by (simp add: node_proc_ok_def)
  then show ?thesis
    using active_late [OF assms(1), of ?k "unregistered ?t" "np_chan (sys_nodes s ! j)"] u n j(2)
      sum_list_map_update [OF j(1), of "proc_work ?k" ?m]
    by (simp add: work_def Let_def) (simp add: do_node_watch_def do_watch_def Let_def sends_work_def store_simps)
qed

lemma internal_works:
  assumes "internal a" "act_enabled a s" "chan_ok s" "sys_crash s = None"
  shows "work (act_do cd p a s) < work s"
  using assms
  by (cases a)
    (auto intro: work_ctrl_watch work_node_watch work_mon work_send_start work_deliver_ctrl
      work_deliver_node work_ctrl work_node work_unwatch work_close work_send_closed work_node_end work_mon_ctx)

lemma internal_bound:
  "exec_acts cd p as s = Some t \<Longrightarrow> chan_ok s \<Longrightarrow> \<forall>a \<in> set as. internal a \<Longrightarrow> length as + work t \<le> work s"
proof (induction as arbitrary: s)
  case Nil
  then show ?case by simp
next
  case (Cons a as)
  then obtain u where u: "exec_act cd p a s = Some u" "exec_acts cd p as u = Some t"
    by (auto split: option.splits)
  then have e: "sys_crash s = None" "act_enabled a s" "u = act_do cd p a s"
    by (auto simp: exec_act_def split: if_splits)
  have "work u < work s" using internal_works [of a s cd p] e Cons.prems by simp
  moreover have "length as + work t \<le> work u"
    using Cons.IH [OF u(2)] sys_step_chan_ok [OF exec_act_step [OF u(1)]] Cons.prems by simp
  ultimately show ?case by simp
qed

lemma settles:
  "chan_ok s \<Longrightarrow> \<exists>as t. exec_acts cd p as s = Some t \<and> (\<forall>a \<in> set as. internal a) \<and>
     (sys_crash t = None \<longrightarrow> quiescent t)"
proof (induction "work s" arbitrary: s rule: less_induct)
  case less
  show ?case
  proof (cases "sys_crash s = None \<and> can_move s")
    case False
    then show ?thesis
      using stuck_quiescent [OF less.prems] by (intro exI [of _ "[]"] exI [of _ s]) auto
  next
    case True
    then obtain a where a: "internal a" "act_enabled a s" by (auto simp: can_move_def)
    let ?u = "act_do cd p a s"
    have e: "exec_act cd p a s = Some ?u" using a True by (simp add: exec_act_def)
    have "work ?u < work s" using internal_works [OF a less.prems] True by simp
    moreover have "chan_ok ?u" using sys_step_chan_ok [OF exec_act_step [OF e] less.prems] .
    ultimately have "\<exists>as t. exec_acts cd p as ?u = Some t \<and> (\<forall>a \<in> set as. internal a) \<and>
        (sys_crash t = None \<longrightarrow> quiescent t)"
      by (rule less.hyps)
    then obtain more t where "exec_acts cd p more ?u = Some t" "\<forall>a \<in> set more. internal a"
      "sys_crash t = None \<longrightarrow> quiescent t"
      by (elim exE conjE)
    then show ?thesis using a e by (intro exI [of _ "a # more"] exI [of _ t]) simp
  qed
qed

text \<open>Internal steps leave the cancellation flag alone, and do not read indications.\<close>

lemma internal_flags:
  assumes "internal a" "act_enabled a s" "sys_crash s = None"
  shows "sys_cancelled (act_do cd p a s) = sys_cancelled s \<and>
    sys_crash (act_do cd p a s) \<noteq> Some Crash_Indication"
  using assms by (cases a) (auto simp: do_simps Let_def split: go.splits)

lemma internal_run_flags:
  "exec_acts cd p as s = Some t \<Longrightarrow> \<forall>a \<in> set as. internal a \<Longrightarrow> sys_crash s = None \<Longrightarrow>
   sys_cancelled t = sys_cancelled s \<and> sys_crash t \<noteq> Some Crash_Indication"
proof (induction as arbitrary: s)
  case Nil
  then show ?case by simp
next
  case (Cons a as)
  then obtain u where u: "exec_act cd p a s = Some u" "exec_acts cd p as u = Some t"
    by (auto split: option.splits)
  then have e: "act_enabled a s" "u = act_do cd p a s" by (auto simp: exec_act_def split: if_splits)
  note f = internal_flags [OF _ e(1) Cons.prems(3), of cd p]
  show ?case
  proof (cases "sys_crash u = None")
    case True
    then show ?thesis using Cons.IH [OF u(2)] Cons.prems f e by simp
  next
    case False
    then have "as = []" using u(2) by (cases as) (auto simp: exec_act_def)
    then show ?thesis using u(2) Cons.prems f e by simp
  qed
qed

text \<open>Where an internal run has stopped, nothing is under way or another internal step is enabled.\<close>

lemma internal_run_rests:
  assumes "reachable cd p s" "sys_crash s = None" "\<not> sys_cancelled s"
    and "exec_acts cd p as s = Some t" "\<forall>a \<in> set as. internal a"
  shows "quiescent t \<or> (\<exists>a u. internal a \<and> exec_act cd p a t = Some u)"
proof -
  have r: "reachable cd p t" by (rule exec_acts_reachable [OF assms(4,1)])
  have "sys_crash t = None"
    using internal_run_flags [OF assms(4,5,2)] sys_invD(7) [OF reachable_inv [OF r]] assms(3)
    by (auto simp: crash_ok_def)
  then show ?thesis
    using stuck_quiescent [OF reachable_chan_ok [OF r]] by (auto simp: can_move_def exec_act_def)
qed

text \<open>Internal steps accept no indication, connect nobody and cancel nothing.\<close>

lemma internal_keeps:
  assumes "internal a" "act_enabled a s"
  shows "sys_inds (act_do cd p a s) = sys_inds s \<and> sys_cancelled (act_do cd p a s) = sys_cancelled s \<and>
    map np_node (sys_nodes (act_do cd p a s)) = map np_node (sys_nodes s) \<and>
    map mp_node (sys_mons (act_do cd p a s)) = map mp_node (sys_mons s)"
  using assms by (cases a) (auto simp: do_simps Let_def map_update_same split: go.splits)

lemma internal_run_keeps:
  "exec_acts cd p as s = Some t \<Longrightarrow> \<forall>a \<in> set as. internal a \<Longrightarrow>
   sys_inds t = sys_inds s \<and> sys_cancelled t = sys_cancelled s \<and> map np_node (sys_nodes t) = map np_node (sys_nodes s)"
proof (induction as arbitrary: s)
  case Nil
  then show ?case by simp
next
  case (Cons a as)
  then obtain u where u: "exec_act cd p a s = Some u" "exec_acts cd p as u = Some t"
    by (auto split: option.splits)
  then have "act_enabled a s" "u = act_do cd p a s" by (auto simp: exec_act_def split: if_splits)
  then show ?case using internal_keeps [of a s cd p] Cons.IH [OF u(2)] Cons.prems by simp
qed

end
