(* ===== verification/Mho_Rounds.thy ===== *)
theory Mho_Rounds
  imports Mho_Invariants
begin

text \<open>
  Handover rounds under the orderly schedule: events are handled one after the other, each
  first by the controller and then by the watcher of every connected node, before the next
  one is taken. \<open>ns\<close> lists the nodes that have a watcher; a node that was announced twice is
  in the list twice, as the source starts a watcher per topology event.
\<close>

primrec dispatch_nodes ::
  "pdubuilder \<Rightarrow> node_id list \<Rightarrow> event \<Rightarrow> world \<Rightarrow> (world \<times> control_msg list) go" where
  "dispatch_nodes p [] e w = Ret (w, [])"
| "dispatch_nodes p (n # ns) e w =
     go_bind (watchMHOChanges_event p n e w) (\<lambda>(w1, out1).
     go_bind (dispatch_nodes p ns e w1) (\<lambda>(w2, out2). Ret (w2, out1 @ out2)))"

definition dispatch ::
  "pdubuilder \<Rightarrow> node_id list \<Rightarrow> event \<Rightarrow> world \<Rightarrow> (world \<times> control_msg list) go" where
  "dispatch p ns e w = go_bind (controlHandover_event e w) (dispatch_nodes p ns e)"

definition with_sends :: "event list \<Rightarrow> world \<Rightarrow> world" where
  "with_sends es w = w\<lparr>mstore := (mstore w)\<lparr>sends := es\<rparr>\<rparr>"

text \<open>Handle pending events first in, first out; the number bounds how many.\<close>

fun settle :: "pdubuilder \<Rightarrow> node_id list \<Rightarrow> nat \<Rightarrow> world \<Rightarrow> (world \<times> control_msg list) go" where
  "settle p ns 0 w = Ret (w, [])"
| "settle p ns (Suc k) w =
     (case sends (mstore w) of
        [] \<Rightarrow> Ret (w, [])
      | e # es \<Rightarrow>
          go_bind (dispatch p ns e (with_sends es w)) (\<lambda>(w1, out1).
          go_bind (settle p ns k w1) (\<lambda>(w2, out2). Ret (w2, out1 @ out2))))"

lemma with_sends_simps [simp]:
  "heap (with_sends es w) = heap w"
  "records (mstore (with_sends es w)) = records (mstore w)"
  "sends (mstore (with_sends es w)) = es"
  "HasEntry k (mstore (with_sends es w)) = HasEntry k (mstore w)"
  "Get k (mstore (with_sends es w)) = Get k (mstore w)"
  "wf_world (with_sends es w) = wf_world w"
  "ue_table (with_sends es w) = ue_table w"
  "with_sends fs (with_sends es w) = with_sends fs w"
  by (auto simp: with_sends_def HasEntry_def Get_def wf_world_def ue_table_def fun_eq_iff
      split: option.splits)

subsection \<open>Events that nobody acts on\<close>

definition inert :: "world \<Rightarrow> event \<Rightarrow> bool" where
  "inert w e \<longleftrightarrow> HasEntry (EvKey e) (mstore w) \<and> EventMHOState e = Done"

lemma controlHandover_ignores:
  assumes "wf_world w" "HasEntry (EvKey e) (mstore w)" "\<not> decides e"
  shows "controlHandover_event e w = Ret w"
  using assms wf_worldD(2) [OF assms(1), of "EvKey e"]
  by (auto simp: controlHandover_event_def HasEntry_def Get_def load_def decides_def)

lemma watchMHOChanges_ignores:
  assumes "wf_world w" "HasEntry (EvKey e) (mstore w)"
    and "EvType e = Updated \<Longrightarrow> EventMHOState e \<noteq> Approved"
  shows "watchMHOChanges_event p n e w = Ret (w, [])"
  using assms wf_worldD(2) [OF assms(1), of "EvKey e"]
  by (auto simp: watchMHOChanges_event_def HasEntry_def Get_def load_def)

lemma dispatch_nodes_ignores:
  assumes "wf_world w" "HasEntry (EvKey e) (mstore w)"
    and "EvType e = Updated \<Longrightarrow> EventMHOState e \<noteq> Approved"
  shows "dispatch_nodes p ns e w = Ret (w, [])"
  by (induction ns) (simp_all add: watchMHOChanges_ignores [OF assms])

lemma settle_inert:
  "wf_world w \<Longrightarrow> \<forall>e \<in> set (sends (mstore w)). inert w e \<Longrightarrow>
   settle p ns (length (sends (mstore w))) w = Ret (with_sends [] w, [])"
proof (induction "length (sends (mstore w))" arbitrary: w)
  case 0
  then show ?case by (simp add: with_sends_def)
next
  case (Suc k)
  then obtain e es where es: "sends (mstore w) = e # es" by (cases "sends (mstore w)") auto
  let ?w = "with_sends es w"
  have e: "wf_world ?w" "HasEntry (EvKey e) (mstore ?w)" "EventMHOState e = Done"
    using Suc.prems es by (auto simp: inert_def)
  then have "dispatch p ns e ?w = Ret (?w, [])"
    by (simp add: dispatch_def controlHandover_ignores dispatch_nodes_ignores decides_def)
  moreover have "settle p ns k ?w = Ret (with_sends [] ?w, [])"
    using Suc.hyps(1) [of ?w] Suc.hyps(2) Suc.prems es by (simp add: inert_def)
  ultimately show ?case using es Suc.hyps(2) by simp
qed

subsection \<open>An approved event\<close>

definition mark_done :: "string \<Rightarrow> addr \<Rightarrow> world \<Rightarrow> world" where
  "mark_done k a w = put_value k a Done (set_state a Done w)"

lemma mark_done_simps:
  "records (mstore (mark_done k a w)) = (records (mstore w))(k \<mapsto> \<lparr>Key = k, Value = a\<rparr>)"
  "length (heap (mark_done k a w)) = length (heap w)"
  "b < length (heap w) \<Longrightarrow> heap (mark_done k a w) ! b =
     (if a = b then (heap w ! b)\<lparr>State := Done\<rparr> else heap w ! b)"
  "HasEntry k (mstore w) \<Longrightarrow> sends (mstore (mark_done k a w)) = sends (mstore w) @
     [\<lparr>EvKey = k, EvValue = \<lparr>Key = k, Value = a\<rparr>, EvType = Updated, EventMHOState = Done\<rparr>]"
  by (simp_all add: mark_done_def store_simps put_event_def)

lemma wf_world_mark_done:
  assumes "wf_world w" "records (mstore w) k = Some \<lparr>Key = k, Value = a\<rparr>"
  shows "wf_world (mark_done k a w)"
  using wf_world_approve [OF assms] by (simp add: mark_done_def)

lemma dispatch_nodes_approved:
  assumes "EvKey e = k" "EvType e = Updated" "EventMHOState e = Approved"
  shows "wf_world w \<Longrightarrow> records (mstore w) k = Some \<lparr>Key = k, Value = a\<rparr> \<Longrightarrow>
    same_ident (heap w ! a) nv \<Longrightarrow>
    dispatch_nodes p ns e w =
      Ret ((mark_done k a ^^ count_list ns (E2NodeID nv)) w,
           replicate (count_list ns (E2NodeID nv)) (control_for p (E2NodeID nv) nv))"
proof (induction ns arbitrary: w)
  case Nil
  then show ?case by simp
next
  case (Cons n ns)
  have a: "a < length (heap w)" using wf_worldD(2) [OF Cons.prems(1,2)] by simp
  have node: "E2NodeID (heap w ! a) = E2NodeID nv" using Cons.prems(3) by (simp add: same_ident_def)
  have step: "watchMHOChanges_event p n e w =
      Ret (if n = E2NodeID nv then (mark_done k a w, [control_for p n (heap w ! a)]) else (w, []))"
    using watchMHOChanges_event_simps [of w e "\<lparr>Key = k, Value = a\<rparr>" p n] Cons.prems assms node
    by (auto simp: mark_done_def)
  have "same_ident (heap (mark_done k a w) ! a) nv"
    using Cons.prems(3) a by (simp add: mark_done_simps same_ident_def)
  then have "dispatch_nodes p ns e (mark_done k a w) =
      Ret ((mark_done k a ^^ count_list ns (E2NodeID nv)) (mark_done k a w),
           replicate (count_list ns (E2NodeID nv)) (control_for p (E2NodeID nv) nv))"
    using wf_world_mark_done [OF Cons.prems(1,2)] by (intro Cons.IH) (simp_all add: mark_done_simps)
  moreover have "control_for p n (heap w ! a) = control_for p n nv"
    using Cons.prems(3) by (rule control_for_ident)
  ultimately show ?case
    using Cons.IH [OF Cons.prems] step by (auto simp: funpow_swap1)
qed

text \<open>What \<open>c\<close> Done marks in a row leave behind.\<close>

lemma mark_done_iter:
  assumes "wf_world w" "records (mstore w) k = Some \<lparr>Key = k, Value = a\<rparr>" "sends (mstore w) = []"
  shows "wf_world ((mark_done k a ^^ c) w) \<and>
    records (mstore ((mark_done k a ^^ c) w)) k = Some \<lparr>Key = k, Value = a\<rparr> \<and>
    length (sends (mstore ((mark_done k a ^^ c) w))) = c \<and>
    (\<forall>e \<in> set (sends (mstore ((mark_done k a ^^ c) w))). EvKey e = k \<and> EventMHOState e = Done) \<and>
    ue_table ((mark_done k a ^^ c) w) =
      (if c = 0 then ue_table w else (ue_table w)(k \<mapsto> (TgtCellID (heap w ! a), Done))) \<and>
    TgtCellID (heap ((mark_done k a ^^ c) w) ! a) = TgtCellID (heap w ! a)"
proof (induction c)
  case 0
  then show ?case using assms by simp
next
  case (Suc c)
  let ?w = "(mark_done k a ^^ c) w"
  have wf: "wf_world ?w" and r: "records (mstore ?w) k = Some \<lparr>Key = k, Value = a\<rparr>"
    using Suc.IH by auto
  have "HasEntry k (mstore ?w)" using r by (simp add: HasEntry_def)
  moreover have "ue_table (mark_done k a ?w) = (ue_table ?w)(k \<mapsto> (TgtCellID (heap ?w ! a), Done))"
    using approve_spec [OF wf r] by (simp add: mark_done_def)
  ultimately show ?case
    using Suc.IH wf_world_mark_done [OF wf r] wf_worldD(2) [OF wf r] by (auto simp: mark_done_simps)
qed

subsection \<open>A whole round\<close>

lemma settle_Suc:
  "sends (mstore w) = [e] \<Longrightarrow> dispatch p ns e (with_sends [] w) = Ret (w1, out1) \<Longrightarrow>
   settle p ns k w1 = Ret (w2, out2) \<Longrightarrow> settle p ns (Suc k) w = Ret (w2, out1 @ out2)"
  by simp

text \<open>A pending approval: the nodes named like the sender of the value send their message,
  then the row is done.\<close>

lemma settle_approved:
  assumes "wf_world w" "records (mstore w) k = Some \<lparr>Key = k, Value = a\<rparr>"
    and "sends (mstore w) = [e]" "EvKey e = k" "EvType e = Updated" "EventMHOState e = Approved"
    and "same_ident (heap w ! a) nv" "n = E2NodeID nv"
  shows "\<exists>w'. settle p ns (Suc (count_list ns n)) w =
              Ret (w', replicate (count_list ns n) (control_for p n nv)) \<and>
           sends (mstore w') = [] \<and> wf_world w' \<and>
           ue_table w' = (if n \<in> set ns then (ue_table w)(k \<mapsto> (TgtCellID nv, Done)) else ue_table w)"
proof -
  let ?c = "count_list ns n" and ?w1 = "with_sends [] w"
  let ?w2 = "(mark_done k a ^^ ?c) ?w1"
  have w1: "wf_world ?w1" "records (mstore ?w1) k = Some \<lparr>Key = k, Value = a\<rparr>" "sends (mstore ?w1) = []"
    using assms by simp_all
  note w2 = mark_done_iter [OF w1, of ?c]
  have "HasEntry k (mstore ?w1)" "HasEntry k (mstore ?w2)"
    using w1(2) w2 by (simp_all add: HasEntry_def)
  moreover from this(1) have "dispatch p ns e ?w1 = Ret (?w2, replicate ?c (control_for p n nv))"
    using dispatch_nodes_approved [OF assms(4-6) w1(1,2), of nv p ns] assms(4,6-8) w1(1)
    by (simp add: dispatch_def controlHandover_ignores decides_def)
  moreover have "settle p ns ?c ?w2 = Ret (with_sends [] ?w2, [])"
    using settle_inert [of ?w2 p ns] w2 \<open>HasEntry k (mstore ?w2)\<close> by (auto simp: inert_def)
  ultimately have "settle p ns (Suc ?c) w =
      Ret (with_sends [] ?w2, replicate ?c (control_for p n nv) @ [])"
    using assms(3) by (intro settle_Suc)
  moreover have "TgtCellID (heap w ! a) = TgtCellID nv" using assms(7) by (simp add: same_ident_def)
  ultimately show ?thesis
    using w2 by (auto simp: count_list_0_iff)
qed

lemma handover_settles:
  assumes "wf_world w" "sends (mstore w) = []" "rq_ok rq"
    and "\<And>s. ue_table w (rq_key rq) \<noteq> Some (rq_tgt rq, s)"
  shows "\<exists>w'. settle p ns (2 + count_list ns n) (fst (record_target rq n w)) =
              Ret (w', replicate (count_list ns n) (control_for p n (new_value rq n))) \<and>
           sends (mstore w') = [] \<and> wf_world w' \<and>
           ue_table w' = (ue_table w)(rq_key rq \<mapsto> (rq_tgt rq, if n \<in> set ns then Done else Approved))"
proof -
  let ?k = "rq_key rq" and ?a = "length (heap w)" and ?w0 = "put_new rq n w"
  let ?w1 = "put_value ?k ?a Approved (set_state ?a Approved (with_sends [] ?w0))"
  have rec: "fst (record_target rq n w) = ?w0"
    using assms(1,4) by (cases rule: record_target_cases [where rq = rq and n = n]) auto
  define e0 where "e0 = put_event ?k ?a StateCreated (mstore w)"
  have w0: "wf_world ?w0" "records (mstore ?w0) ?k = Some \<lparr>Key = ?k, Value = ?a\<rparr>"
    "sends (mstore ?w0) = [e0]"
    using assms by (simp_all add: wf_world_put_new store_simps e0_def)
  have e0: "EvKey e0 = ?k" "EventMHOState e0 = StateCreated" "EvType e0 \<in> {Created, Updated}"
    by (simp_all add: e0_def)
  have w1: "wf_world ?w1" using wf_world_approve [of "with_sends [] ?w0" ?k "\<lparr>Key = ?k, Value = ?a\<rparr>" Approved] w0
    by simp
  have has: "HasEntry ?k (mstore ?w1)" "HasEntry ?k (mstore ?w0)"
    by (simp_all add: store_simps HasEntry_def)
  have "controlHandover_event e0 (with_sends [] ?w0) = Ret ?w1"
    using controlHandover_event_simps [of "with_sends [] ?w0" e0] w0 e0 by (simp add: decides_def)
  then have "dispatch p ns e0 (with_sends [] ?w0) = Ret (?w1, [])"
    using w1 has e0 by (simp add: dispatch_def dispatch_nodes_ignores)
  moreover have "same_ident (heap ?w1 ! ?a) (new_value rq n)"
    by (simp add: store_simps same_ident_def)
  then obtain w' where "settle p ns (Suc (count_list ns n)) ?w1 =
      Ret (w', replicate (count_list ns n) (control_for p n (new_value rq n)))"
    "sends (mstore w') = []" "wf_world w'"
    "ue_table w' = (if n \<in> set ns then (ue_table ?w1)(?k \<mapsto> (rq_tgt rq, Done)) else ue_table ?w1)"
    using settle_approved [OF w1, of ?k ?a _ "new_value rq n" n p ns] has
    by (auto simp: store_simps put_event_def)
  moreover have "ue_table ?w1 = (ue_table w)(?k \<mapsto> (rq_tgt rq, Approved))"
    using approve_spec [of "with_sends [] ?w0" ?k "\<lparr>Key = ?k, Value = ?a\<rparr>" Approved] w0
      ue_table_put_new [OF assms(1)] by (simp add: store_simps)
  ultimately show ?thesis using rec w0(3) by auto
qed

end
