(* ===== verification/Mho_Monitor_Props.thy ===== *)
theory Mho_Monitor_Props
  imports Mho_Samples
begin

text \<open>
  The properties of the indication monitor: the effect of an indication on the UE table,
  what a repeated indication does, and how the receive loop ends.
\<close>

text \<open>
  C18. An accepted indication updates the UE table as specified and nothing else: on a
  well-formed store the handler returns without error, a UE that is new or that asks for
  another target cell gets the new target in state StateCreated, a UE that repeats its target
  keeps target and state, every other row is unchanged, and the store stays well-formed.
\<close>

theorem monitor_refines_table:
  assumes "wf_world w" "parse_indication cd ind = Ret rq"
  shows "snd (processIndication cd ind n w) = Ret () \<and>
    wf_world (fst (processIndication cd ind n w)) \<and>
    ue_table (fst (processIndication cd ind n w)) =
      (ue_table w)(rq_key rq := spec_indication (rq_tgt rq) (ue_table w (rq_key rq)))"
  using assms record_target_returns [of w rq n] record_target_wf [of w rq n]
    record_target_spec [of w rq n] parse_indication_ok [of cd ind rq]
  by (simp add: processIndication_def processInsertIndicationHeader2Message5_def)

theorem monitor_refines_table_witness:
  "ue_table (fst (processIndication sample_codec (sample_ind 2) ''n1'' sample_world)) sample_key =
     Some (''c2'', StateCreated)"
proof -
  have "ue_table sample_world sample_key = Some (''c1'', StateCreated)"
    by (simp add: sample_world_def ue_table_put_new wf_world_new)
  then show ?thesis
    using monitor_refines_table [OF sample_world_wf sample_parse(2), of "''n1''"]
    by (simp add: spec_indication_def)
qed

text \<open>
  Repeating an indication is harmless: once an indication has been handled, handling it
  again changes nothing at all (no store write, no event), unless the row was Denied for that
  very target, the one state in which the source writes again to trigger the controller.
\<close>

lemma monitor_idempotent:
  assumes "wf_world w" "parse_indication cd ind = Ret rq"
    and "ue_table w (rq_key rq) \<noteq> Some (rq_tgt rq, Denied)"
  shows "processIndication cd ind n (fst (processIndication cd ind n w)) =
           (fst (processIndication cd ind n w), Ret ())"
proof -
  let ?w = "fst (record_target rq n w)"
  have wf: "wf_world ?w" using assms parse_indication_ok record_target_wf by blast
  have "\<exists>s. ue_table ?w (rq_key rq) = Some (rq_tgt rq, s) \<and> s \<noteq> Denied"
    using record_target_spec [OF assms(1), of rq n] assms(3)
    by (auto simp: spec_indication_def split: option.splits)
  with wf have "record_target rq n ?w = (?w, Ret ())"
    by (cases rule: record_target_cases [where rq = rq and n = n]) auto
  then show ?thesis
    using assms(2) by (simp add: processIndication_def processInsertIndicationHeader2Message5_def)
qed

lemma monitor_idempotent_witness:
  "fst (processIndication sample_codec (sample_ind 1) ''n1''
          (fst (processIndication sample_codec (sample_ind 1) ''n1'' new_world))) =
     fst (processIndication sample_codec (sample_ind 1) ''n1'' new_world)"
proof -
  have h: "ue_table new_world (rq_key sample_rq1) \<noteq> Some (rq_tgt sample_rq1, Denied)"
    by (simp add: ue_table_def new_world_def)
  show ?thesis using monitor_idempotent [OF wf_world_new sample_parse(1) h, of "''n1''"] by simp
qed

lemma processIndication_Fail:
  "parse_indication cd ind = Fail e \<Longrightarrow> processIndication cd ind n w = (w, Fail e)"
  by (simp add: processIndication_def processInsertIndicationHeader2Message5_def)

text \<open>What an event offers to the select of \<open>Start\<close>: errors on \<open>errCh\<close>, or the end of the context.\<close>

datatype signal = Err go_error | Cancelled

definition parse_errors :: "codec \<Rightarrow> indication \<Rightarrow> signal list" where
  "parse_errors cd i = (case parse_indication cd i of Fail e \<Rightarrow> [Err e] | _ \<Rightarrow> [])"

fun signals :: "codec \<Rightarrow> loop_event \<Rightarrow> signal list" where
  "signals cd (Received (Inl e)) = Err e # parse_errors cd zero_indication"
| "signals cd (Received (Inr i)) = parse_errors cd i"
| "signals cd CtxDone = [Cancelled]"

fun take_signal :: "signal \<Rightarrow> monitor_loop \<Rightarrow> monitor_loop" where
  "take_signal (Err e) l = send_err e l"
| "take_signal Cancelled l = ctx_done l"

definition loop_ok :: "monitor_loop \<Rightarrow> bool" where
  "loop_ok l \<longleftrightarrow> (blocked l \<longrightarrow> returned l \<noteq> None)"

lemma take_signal_ok: "loop_ok l \<Longrightarrow> loop_ok (take_signal s l)"
  by (cases s) (auto simp: send_err_def ctx_done_def loop_ok_def)

lemma take_signal_blocked: "loop_ok l \<Longrightarrow> blocked l \<Longrightarrow> take_signal s l = l"
  by (cases s) (auto simp: send_err_def ctx_done_def loop_ok_def)

lemma fold_signals_ok: "loop_ok l \<Longrightarrow> loop_ok (fold take_signal ss l)"
  by (induction ss arbitrary: l) (simp_all add: take_signal_ok)

lemma fold_signals_blocked: "loop_ok l \<Longrightarrow> blocked l \<Longrightarrow> fold take_signal ss l = l"
  by (induction ss) (simp_all add: take_signal_blocked)

text \<open>Once \<open>Start\<close> has returned, an error blocks and the context changes nothing.\<close>

lemma fold_signals_returned:
  assumes "returned l \<noteq> None"
  shows "returned (fold take_signal ss l) = returned l \<and>
    (blocked (fold take_signal ss l) \<longleftrightarrow> blocked l \<or> (\<exists>e. Err e \<in> set ss))"
  using assms
proof (induction ss arbitrary: l)
  case (Cons s ss)
  have "returned (take_signal s l) = returned l" "blocked (take_signal s l) \<longleftrightarrow> blocked l \<or> (\<exists>e. s = Err e)"
    using Cons.prems by (cases s; auto simp: send_err_def ctx_done_def)+
  then show ?case using Cons.IH [of "take_signal s l"] Cons.prems by auto
qed simp

lemma fold_signals_init:
  "returned (fold take_signal ss loop_init) =
     (case ss of [] \<Rightarrow> None | Err e # _ \<Rightarrow> Some e | Cancelled # _ \<Rightarrow> Some Canceled) \<and>
   (blocked (fold take_signal ss loop_init) \<longleftrightarrow> (\<exists>e. Err e \<in> set (tl ss)))"
proof (cases ss)
  case (Cons s ss')
  have "returned (take_signal s loop_init) = (case s of Err e \<Rightarrow> Some e | Cancelled \<Rightarrow> Some Canceled)"
    "\<not> blocked (take_signal s loop_init)"
    by (cases s; simp add: loop_init_def send_err_def ctx_done_def)+
  then show ?thesis
    using fold_signals_returned [of "take_signal s loop_init" ss'] Cons by (simp split: signal.splits)
qed (simp add: loop_init_def)

lemma processIndication_wf:
  assumes "wf_world w" "parse_indication cd i = Ret rq"
  shows "\<exists>w'. processIndication cd i n w = (w', Ret ()) \<and> wf_world w'"
  using assms record_target_returns [of w rq n] record_target_wf [of w rq n]
    parse_indication_ok [of cd i rq]
  by (cases "record_target rq n w")
    (simp add: processIndication_def processInsertIndicationHeader2Message5_def)

lemma loop_turn_signals:
  assumes "wf_world w" "loop_ok l" "\<not> blocked l \<or> ev = CtxDone"
    and safe: "\<And>i. parse_indication cd i \<noteq> Panic"
  shows "\<exists>w'. loop_turn cd n ev (w, l) = Some (w', fold take_signal (signals cd ev) l) \<and> wf_world w'"
proof (cases ev)
  case CtxDone
  then show ?thesis using assms(1) by simp
next
  case (Received r)
  have process: "\<exists>w'. (if blocked k then Some (w, k)
       else (case processIndication cd i n w of
               (w', Ret _) \<Rightarrow> Some (w', k) | (w', Fail e) \<Rightarrow> Some (w', send_err e k) | (w', Panic) \<Rightarrow> None)) =
     Some (w', fold take_signal (parse_errors cd i) k) \<and> wf_world w'" if k: "loop_ok k" for i k
  proof (cases "blocked k")
    case True
    then show ?thesis using assms(1) fold_signals_blocked [OF k True] by simp
  next
    case False
    show ?thesis
    proof (cases "parse_indication cd i")
      case (Ret rq)
      then show ?thesis using processIndication_wf [OF assms(1) Ret, of n] False by (auto simp: parse_errors_def)
    next
      case (Fail e)
      then show ?thesis using assms(1) False by (simp add: parse_errors_def processIndication_Fail)
    qed (use safe in simp)
  qed
  show ?thesis
  proof (cases r)
    case (Inl e)
    have "loop_ok (send_err e l)" using take_signal_ok [OF assms(2), of "Err e"] by simp
    from process [OF this, of zero_indication] show ?thesis by (simp add: Received Inl)
  next
    case (Inr i)
    then show ?thesis using process [OF assms(2), of i] by (simp add: Received Inr)
  qed
qed

lemma loop_run_signals:
  "wf_world w \<Longrightarrow> loop_ok l \<Longrightarrow> (\<And>i. parse_indication cd i \<noteq> Panic) \<Longrightarrow>
   \<exists>w'. loop_run cd n evs (w, l) = Some (w', fold take_signal (concat (map (signals cd) evs)) l) \<and> wf_world w'"
proof (induction evs arbitrary: w l)
  case (Cons ev evs)
  show ?case
  proof (cases "blocked l \<and> ev \<noteq> CtxDone")
    case True
    then show ?thesis
      using Cons.IH [OF Cons.prems(1,2,3)] fold_signals_blocked [OF Cons.prems(2)] by simp
  next
    case False
    obtain w1 where w1: "loop_turn cd n ev (w, l) = Some (w1, fold take_signal (signals cd ev) l)" "wf_world w1"
      using loop_turn_signals [OF Cons.prems(1,2) _ Cons.prems(3), of ev n] False by blast
    then show ?thesis
      using Cons.IH [OF w1(2) fold_signals_ok [OF Cons.prems(2)] Cons.prems(3)]
      unfolding loop_run.simps snd_conv if_not_P [OF False] by simp
  qed
qed simp

lemma loop_run_blocked:
  "blocked l \<Longrightarrow> loop_ok l \<Longrightarrow> loop_run cd n evs (w, l) = Some (w, l)"
proof (induction evs)
  case (Cons ev evs)
  have "ctx_done l = l" using take_signal_blocked [OF Cons.prems(2,1), of Cancelled] by simp
  then show ?case using Cons by (cases ev) simp_all
qed simp

lemma loop_run_append:
  "loop_run cd n (evs @ evs') wl = (case loop_run cd n evs wl of None \<Rightarrow> None | Some wl' \<Rightarrow> loop_run cd n evs' wl')"
  by (induction evs arbitrary: wl) (simp_all split: option.split)

text \<open>
  C22. How the receive loop ends. With a codec that never makes the handler panic, over any sequence
  of received items and with the end of the context at any point of it: \<open>Start\<close> returns the
  first error there is, or the error of the context if that comes first, and does not return
  while there is neither. From then on nobody reads the channel of the errors, so the goroutine,
  which goes on, blocks at the next error, at the first one already if the context had ended
  before; it blocks for no other reason. Once it is blocked no further item changes anything.
  A receive error counts twice when the zero indication that comes with it is rejected.
\<close>

theorem monitor_loop_errors:
  assumes "wf_world w" "\<And>i. parse_indication cd i \<noteq> Panic"
  shows "\<exists>w' l'. loop_run cd n evs (w, loop_init) = Some (w', l') \<and> wf_world w' \<and>
    returned l' = (case concat (map (signals cd) evs) of
        [] \<Rightarrow> None | Err e # _ \<Rightarrow> Some e | Cancelled # _ \<Rightarrow> Some Canceled) \<and>
    (blocked l' \<longleftrightarrow> (\<exists>e. Err e \<in> set (tl (concat (map (signals cd) evs))))) \<and>
    (blocked l' \<longrightarrow> (\<forall>more. loop_run cd n (evs @ more) (w, loop_init) = Some (w', l')))"
proof -
  let ?l = "fold take_signal (concat (map (signals cd) evs)) loop_init"
  have ok: "loop_ok loop_init" by (simp add: loop_ok_def loop_init_def)
  obtain w' where run: "loop_run cd n evs (w, loop_init) = Some (w', ?l)" "wf_world w'"
    using loop_run_signals [OF assms(1) ok assms(2), of n evs] by blast
  have "loop_run cd n (evs @ more) (w, loop_init) = Some (w', ?l)" if "blocked ?l" for more
    using loop_run_blocked [OF that fold_signals_ok [OF ok]] run(1) by (simp add: loop_run_append)
  then show ?thesis
    using run fold_signals_init [of "concat (map (signals cd) evs)"] by (intro exI [of _ w'] exI [of _ ?l]) simp
qed

definition strict_codec :: codec where
  "strict_codec = \<lparr>unmarshal_header = (\<lambda>b. if b = [] then Inl (External ''bad header'')
      else Inr (IndicationHeaderFormat2 (Some \<lparr>UeId = sample_ue\<rparr>))),
    unmarshal_message = (\<lambda>b. Inr (IndicationMessageFormat5 (Some (sample_format5 ''c1''))))\<rparr>"

lemma strict_codec_parse:
  "parse_indication strict_codec i =
     (if Header i = [] then Fail (External ''bad header'')
      else Ret \<lparr>rq_ue = sample_ue, rq_key = sample_key, rq_tgt = ''c1'', rq_cpid = CallProcessId i\<rparr>)"
  by (simp add: parse_indication_def strict_codec_def GetIndicationHeaderFormat2_def
      GetIndicationMessageFormat5_def target_cell_sample sample_key_def GetGNbUeid_def sample_ue_def)

theorem monitor_loop_errors_witness:
  "(\<exists>w' l'. loop_run strict_codec ''n1'' [Received (Inr (sample_ind 1)), CtxDone, Received (Inr zero_indication)]
     (new_world, loop_init) = Some (w', l') \<and> returned l' = Some Canceled \<and> blocked l') \<and>
   (\<exists>w' l'. loop_run strict_codec ''n1'' [Received (Inr zero_indication), Received (Inr (sample_ind 1)), CtxDone]
     (new_world, loop_init) = Some (w', l') \<and> returned l' = Some (External ''bad header'') \<and> \<not> blocked l')"
proof -
  have h: "parse_indication strict_codec i \<noteq> Panic" for i by (simp add: strict_codec_parse)
  have e: "parse_errors strict_codec zero_indication = [Err (External ''bad header'')]"
    "parse_errors strict_codec (sample_ind 1) = []"
    by (simp_all add: parse_errors_def strict_codec_parse zero_indication_def sample_ind_def)
  show ?thesis
    using monitor_loop_errors [OF wf_world_new h, of "''n1''"
        "[Received (Inr (sample_ind 1)), CtxDone, Received (Inr zero_indication)]"]
      monitor_loop_errors [OF wf_world_new h, of "''n1''"
        "[Received (Inr zero_indication), Received (Inr (sample_ind 1)), CtxDone]"]
    by (simp add: e del: loop_run.simps) blast
qed

text \<open>
  Cutting the handler at its store calls loses nothing: run without interference, the
  atomic steps of the monitor compute the whole handler, with the same store, the same result
  and at most four steps.
\<close>

lemma monitor_steps_refine_handler:
  "parse_indication cd ind = Ret rq \<Longrightarrow>
   monitor_run 4 n (M_Has rq) w =
     (case processIndication cd ind n w of
        (w', Ret _) \<Rightarrow> Ret (w', M_Idle) | (_, Fail e) \<Rightarrow> Fail e | (_, Panic) \<Rightarrow> Panic)"
  by (simp add: monitor_run_record_target processIndication_def
      processInsertIndicationHeader2Message5_def)

lemma monitor_steps_refine_handler_witness:
  "monitor_run 4 ''n1'' (M_Has sample_rq1) new_world =
     Ret (fst (processIndication sample_codec (sample_ind 1) ''n1'' new_world), M_Idle)"
  using monitor_steps_refine_handler [OF sample_parse(1), of "''n1''" new_world]
    processIndication_wf [OF wf_world_new sample_parse(1), of "''n1''"] by auto

end
