(* ===== verification/Mho_Northbound.thy ===== *)
theory Mho_Northbound
  imports Mho_Samples
begin

text \<open>
  \<open>pkg/northbound/mho.go\<close>: the gRPC service that lists UEs and cells.

  Both handlers read the records of the store through the channel of \<open>Entries\<close>: the reading
  goroutine appends to a slice or counts in a map, and the handler waits for it. The order of
  the records is the map order (\<open>order\<close>), the order of the cells is the order of the local
  counting map (\<open>corder\<close>). \<open>Entries\<close> of the store never returns an error. Here a handler runs
  alone; \<open>Mho_Requests\<close> interleaves its steps with everything else and relates the replies to
  these functions. How the service gets its store is in \<open>Mho_Main\<close>.
\<close>

record ue_info =
  UeInfo_UeId :: string
  UeInfo_HoState :: string
  UeInfo_Cgi :: string

record cell_info =
  CellInfo_Cgi :: string
  CellInfo_NumUes :: int

definition ue_row :: "metric_value \<Rightarrow> ueid_gnb \<Rightarrow> ue_info" where
  "ue_row v g = \<lparr>UeInfo_UeId = dec_int (GetAmfUeNgapId g), UeInfo_HoState = MHOState_String (State v),
                 UeInfo_Cgi = TgtCellID v\<rparr>"

primrec ues_loop :: "world \<Rightarrow> entry list \<Rightarrow> ue_info list \<Rightarrow> ue_info list go" where
  "ues_loop w [] ues = Ret ues"
| "ues_loop w (e # es) ues =
     go_bind (load (Value e) w) (\<lambda>v.
     case GetGNbUeid (RawUEID v) of
       None \<Rightarrow> ues_loop w es ues
     | Some g \<Rightarrow> ues_loop w es (ues @ [ue_row v g]))"

definition GetUes :: "string list \<Rightarrow> world \<Rightarrow> ue_info list go" where
  "GetUes order w = ues_loop w (Entries order (mstore w)) []"

text \<open>\<open>result[v.TgtCellID]++\<close>, a missing key counting from zero.\<close>

definition incr :: "string \<Rightarrow> (string \<rightharpoonup> int) \<Rightarrow> (string \<rightharpoonup> int)" where
  "incr c m = m(c \<mapsto> (case m c of None \<Rightarrow> 0 | Some n \<Rightarrow> n) + 1)"

primrec count_loop :: "world \<Rightarrow> entry list \<Rightarrow> (string \<rightharpoonup> int) \<Rightarrow> (string \<rightharpoonup> int) go" where
  "count_loop w [] result = Ret result"
| "count_loop w (e # es) result =
     go_bind (load (Value e) w) (\<lambda>v.
     case GetGNbUeid (RawUEID v) of
       None \<Rightarrow> count_loop w es result
     | Some g \<Rightarrow> count_loop w es (incr (TgtCellID v) result))"

definition cells_of :: "string list \<Rightarrow> (string \<rightharpoonup> int) \<Rightarrow> cell_info list" where
  "cells_of corder result =
     foldl (\<lambda>cells k. case result k of
              None \<Rightarrow> cells
            | Some v \<Rightarrow> cells @ [\<lparr>CellInfo_Cgi = k, CellInfo_NumUes = v\<rparr>]) [] corder"

definition cell_counts :: "string list \<Rightarrow> world \<Rightarrow> (string \<rightharpoonup> int) go" where
  "cell_counts order w = count_loop w (Entries order (mstore w)) Map.empty"

definition GetCells :: "string list \<Rightarrow> string list \<Rightarrow> world \<Rightarrow> cell_info list go" where
  "GetCells order corder w =
     go_bind (cell_counts order w) (\<lambda>result. Ret (cells_of corder result))"

subsection \<open>The loops on a well-formed store\<close>

text \<open>The values behind the entries, each with its gNB identifier.\<close>

definition stored :: "world \<Rightarrow> entry \<Rightarrow> metric_value" where
  "stored w e = heap w ! Value e"

definition gnb_entry :: "world \<Rightarrow> entry \<Rightarrow> bool" where
  "gnb_entry w e \<longleftrightarrow> Value e < length (heap w) \<and> GetGNbUeid (RawUEID (stored w e)) \<noteq> None"

definition row_of :: "world \<Rightarrow> entry \<Rightarrow> ue_info" where
  "row_of w e = ue_row (stored w e) (the (GetGNbUeid (RawUEID (stored w e))))"

lemma gnb_entry_load: "gnb_entry w e \<Longrightarrow> load (Value e) w = Ret (stored w e)"
  by (simp add: gnb_entry_def load_def stored_def)

lemma ues_loop_rows:
  "\<forall>e \<in> set es. gnb_entry w e \<Longrightarrow> ues_loop w es ues = Ret (ues @ map (row_of w) es)"
proof (induction es arbitrary: ues)
  case Nil
  then show ?case by simp
next
  case (Cons e es)
  then obtain g where g: "GetGNbUeid (RawUEID (stored w e)) = Some g"
    by (auto simp: gnb_entry_def)
  with Cons show ?case by (simp add: gnb_entry_load row_of_def)
qed

definition tally :: "string list \<Rightarrow> string \<rightharpoonup> int" where
  "tally cs c = (if c \<in> set cs then Some (int (count_list cs c)) else None)"

lemma incr_tally: "incr c (tally cs) = tally (cs @ [c])"
  by (auto simp: incr_def tally_def fun_eq_iff)

lemma count_loop_tally:
  "\<forall>e \<in> set es. gnb_entry w e \<Longrightarrow>
   count_loop w es (tally cs) = Ret (tally (cs @ map (\<lambda>e. TgtCellID (stored w e)) es))"
proof (induction es arbitrary: cs)
  case Nil
  then show ?case by simp
next
  case (Cons e es)
  then obtain g where g: "GetGNbUeid (RawUEID (stored w e)) = Some g"
    by (auto simp: gnb_entry_def)
  with Cons show ?case by (simp add: gnb_entry_load incr_tally)
qed

lemma cells_of_map:
  assumes "range_order m corder"
  shows "cells_of corder m = map (\<lambda>k. \<lparr>CellInfo_Cgi = k, CellInfo_NumUes = the (m k)\<rparr>) corder"
proof -
  have "foldl (\<lambda>cells k. case m k of None \<Rightarrow> cells
          | Some v \<Rightarrow> cells @ [\<lparr>CellInfo_Cgi = k, CellInfo_NumUes = v\<rparr>]) acc ks =
        acc @ map (\<lambda>k. \<lparr>CellInfo_Cgi = k, CellInfo_NumUes = the (m k)\<rparr>) ks"
    if "set ks \<subseteq> dom m" for acc ks
    using that by (induction ks arbitrary: acc) auto
  with assms show ?thesis by (simp add: cells_of_def range_order_def)
qed

lemma Entries_gnb:
  assumes "wf_world w"
  shows "\<forall>e \<in> set (Entries order (mstore w)). gnb_entry w e"
proof
  fix e
  assume "e \<in> set (Entries order (mstore w))"
  then obtain k where "records (mstore w) k = Some e" by (auto simp: Entries_def set_ranged)
  with wf_worldD [OF assms this] show "gnb_entry w e"
    by (auto simp: gnb_entry_def stored_def ue_key_def)
qed

lemma GetUes_rows:
  "wf_world w \<Longrightarrow> GetUes order w = Ret (map (row_of w) (Entries order (mstore w)))"
  by (simp add: GetUes_def ues_loop_rows Entries_gnb)

lemma cell_counts_tally:
  "wf_world w \<Longrightarrow>
   cell_counts order w = Ret (tally (map (\<lambda>e. TgtCellID (stored w e)) (Entries order (mstore w))))"
  using count_loop_tally [OF Entries_gnb, of w order "[]"]
  by (simp add: cell_counts_def tally_def [of "[]"] fun_eq_iff cong: if_cong)
    (simp add: tally_def [abs_def])

subsection \<open>The rows and counts in terms of the UE table\<close>

lemma Entries_map:
  assumes "range_order (records (mstore w)) order"
  shows "Entries order (mstore w) = map (\<lambda>k. the (records (mstore w) k)) order"
proof -
  have "set ks \<subseteq> dom m \<Longrightarrow> ranged m ks = map (\<lambda>k. the (m k)) ks" for ks and m :: "string \<rightharpoonup> entry"
    by (induction ks) auto
  with assms show ?thesis by (simp add: Entries_def range_order_def)
qed

definition value_at :: "world \<Rightarrow> string \<Rightarrow> metric_value" where
  "value_at w k = stored w (the (records (mstore w) k))"

lemma ue_table_value_at:
  "ue_table w k = (if k \<in> dom (records (mstore w)) then Some (TgtCellID (value_at w k), State (value_at w k))
                   else None)"
  by (auto simp: ue_table_def value_at_def stored_def split: option.splits)

lemma dom_ue_table: "dom (ue_table w) = dom (records (mstore w))"
  by (auto simp: ue_table_value_at split: if_splits)

lemma value_at_key:
  assumes "wf_world w" "k \<in> dom (records (mstore w))"
  shows "\<exists>g. GetGNbUeid (RawUEID (value_at w k)) = Some g \<and> GenerateGnbUeIDString g = k"
  using assms wf_worldD(3) [OF assms(1), of k] by (auto simp: value_at_def stored_def ue_key_def)

lemma count_list_map_distinct:
  "distinct ks \<Longrightarrow> count_list (map f ks) c = card {k \<in> set ks. f k = c}"
proof (induction ks)
  case Nil
  then show ?case by simp
next
  case (Cons k ks)
  have "{j \<in> set (k # ks). f j = c} = (if f k = c then insert k {j \<in> set ks. f j = c} else {j \<in> set ks. f j = c})"
    by auto
  with Cons show ?case by simp
qed

lemma int_sum_list: "(\<Sum>x \<leftarrow> xs. int (f x)) = int (\<Sum>x \<leftarrow> xs. f x)"
  by (induction xs) auto

lemma tally_range:
  "range_order (tally cs) corder \<Longrightarrow> distinct corder \<and> set corder = set cs"
  by (auto simp: range_order_def tally_def dom_def)

text \<open>The row of a key.\<close>

definition row_at :: "world \<Rightarrow> string \<Rightarrow> ue_info" where
  "row_at w k = row_of w (the (records (mstore w) k))"

lemma rows_at: "range_order (records (mstore w)) order \<Longrightarrow> map (row_of w) (Entries order (mstore w)) = map (row_at w) order"
  by (simp add: Entries_map row_at_def)

lemma row_at_table:
  assumes "wf_world w" "ue_table w k = Some (t, st)"
  shows "UeInfo_Cgi (row_at w k) = t \<and> UeInfo_HoState (row_at w k) = MHOState_String st \<and>
    (\<exists>g. GenerateGnbUeIDString g = k \<and> UeInfo_UeId (row_at w k) = dec_int (GetAmfUeNgapId g))"
proof -
  have k: "k \<in> dom (records (mstore w))" "t = TgtCellID (value_at w k)" "st = State (value_at w k)"
    using assms(2) by (auto simp: ue_table_value_at split: if_splits)
  obtain g where "GetGNbUeid (RawUEID (value_at w k)) = Some g" "GenerateGnbUeIDString g = k"
    using value_at_key [OF assms(1) k(1)] by blast
  then show ?thesis by (auto simp: k row_at_def row_of_def ue_row_def value_at_def)
qed

subsection \<open>Properties\<close>

text \<open>
  C36. \<open>GetUes\<close> lists every UE of the store exactly once, in the order of the records, with the
  state and target cell of its row and the AMF UE NGAP identifier that its key was made from.
  It neither fails nor skips a UE, since only gNB identifiers are ever stored.
\<close>

theorem GetUes_lists_table:
  assumes "wf_world w" "range_order (records (mstore w)) order"
  shows "\<exists>row. GetUes order w = Ret (map row order) \<and> distinct order \<and> set order = dom (ue_table w) \<and>
    (\<forall>k t st. ue_table w k = Some (t, st) \<longrightarrow>
       UeInfo_Cgi (row k) = t \<and> UeInfo_HoState (row k) = MHOState_String st \<and>
       (\<exists>g. GenerateGnbUeIDString g = k \<and> UeInfo_UeId (row k) = dec_int (GetAmfUeNgapId g)))"
proof (intro exI [of _ "row_at w"] conjI)
  show "GetUes order w = Ret (map (row_at w) order)"
    by (simp add: GetUes_rows [OF assms(1)] rows_at [OF assms(2)])
  show "distinct order" "set order = dom (ue_table w)"
    using assms(2) by (simp_all add: range_order_def dom_ue_table)
qed (use row_at_table [OF assms(1)] in blast)

lemma sample_world_order: "range_order (records (mstore sample_world)) [sample_key]"
  by (simp add: range_order_def sample_world_def store_simps new_world_def)

theorem GetUes_lists_table_witness:
  "\<exists>u. GetUes [sample_key] sample_world = Ret [u] \<and> UeInfo_Cgi u = ''c1'' \<and>
     UeInfo_HoState u = ''StateCreated''"
proof -
  have "ue_table sample_world sample_key = Some (''c1'', StateCreated)"
    by (simp add: ue_table_def sample_world_def store_simps new_world_def put_new_def alloc_def
        put_value_def new_value_def)
  then show ?thesis using GetUes_lists_table [OF sample_world_wf sample_world_order] by auto
qed

text \<open>
  C37. \<open>GetCells\<close> counts right, whatever order the two maps are visited in: a cell is listed
  once, with the number of UEs whose target it is, exactly when that number is positive, and
  the numbers add up to the number of UEs.
\<close>

theorem GetCells_counts:
  assumes "wf_world w" "range_order (records (mstore w)) order"
    and "cell_counts order w = Ret result" "range_order result corder"
  shows "\<exists>cells. GetCells order corder w = Ret cells \<and> distinct (map CellInfo_Cgi cells) \<and>
    (\<forall>c n. \<lparr>CellInfo_Cgi = c, CellInfo_NumUes = n\<rparr> \<in> set cells \<longleftrightarrow>
       0 < n \<and> n = int (card {k. \<exists>st. ue_table w k = Some (c, st)})) \<and>
    (\<Sum>cell \<leftarrow> cells. CellInfo_NumUes cell) = int (card (dom (ue_table w)))"
proof -
  define tgts where "tgts = map (\<lambda>k. TgtCellID (value_at w k)) order"
  let ?cells = "map (\<lambda>c. \<lparr>CellInfo_Cgi = c, CellInfo_NumUes = int (count_list tgts c)\<rparr>) corder"
  have result: "result = tally tgts"
    using assms(3) by (simp add: cell_counts_tally [OF assms(1)] Entries_map [OF assms(2)] tgts_def
        value_at_def comp_def)
  with assms(4) have c: "distinct corder" "set corder = set tgts" by (simp_all add: tally_range)
  have order: "distinct order" "set order = dom (ue_table w)"
    using assms(2) by (simp_all add: range_order_def dom_ue_table)
  have "cells_of corder result = ?cells"
    unfolding cells_of_map [OF assms(4)] using c by (simp add: result tally_def)
  then have "GetCells order corder w = Ret ?cells" using assms(3) by (simp add: GetCells_def)
  moreover have "distinct (map CellInfo_Cgi ?cells)" using c(1) by (simp add: comp_def)
  moreover have "count_list tgts c = card {k. \<exists>st. ue_table w k = Some (c, st)}" for c
  proof -
    have "{k \<in> set order. TgtCellID (value_at w k) = c} = {k. \<exists>st. ue_table w k = Some (c, st)}"
      using order(2) by (auto simp: ue_table_value_at dom_ue_table split: if_splits)
    then show ?thesis by (simp add: tgts_def count_list_map_distinct [OF order(1)])
  qed
  then have "\<forall>c n. \<lparr>CellInfo_Cgi = c, CellInfo_NumUes = n\<rparr> \<in> set ?cells \<longleftrightarrow>
      0 < n \<and> n = int (card {k. \<exists>st. ue_table w k = Some (c, st)})"
    using c(2) count_list_0_iff [of tgts] by (auto simp flip: neq0_conv)
  moreover have "(\<Sum>c \<leftarrow> corder. count_list tgts c) = length tgts"
    using c sum_count_set [of tgts "set tgts"] by (simp add: sum_list_distinct_conv_sum_set)
  then have "(\<Sum>cell \<leftarrow> ?cells. CellInfo_NumUes cell) = int (card (dom (ue_table w)))"
    using distinct_card [OF order(1)] order(2)
    by (simp add: comp_def tgts_def int_sum_list)
  ultimately show ?thesis by blast
qed


theorem GetCells_counts_witness:
  "\<exists>cells. GetCells [sample_key] [''c1''] sample_world = Ret cells \<and>
     (\<Sum>cell \<leftarrow> cells. CellInfo_NumUes cell) = 1"
proof -
  have c: "cell_counts [sample_key] sample_world = Ret (tally [''c1''])"
    by (simp add: cell_counts_tally [OF sample_world_wf] Entries_map [OF sample_world_order])
      (simp add: stored_def sample_world_def store_simps new_world_def put_new_def alloc_def
        put_value_def new_value_def)
  have r: "range_order (tally [''c1'']) [''c1'']" by (simp add: range_order_def tally_def dom_def)
  have "dom (ue_table sample_world) = {sample_key}"
    using sample_world_order by (simp add: dom_ue_table range_order_def)
  then show ?thesis using GetCells_counts [OF sample_world_wf sample_world_order c r] by auto
qed

end
