(* ===== verification/Mho_Rnib.thy ===== *)
theory Mho_Rnib
  imports Prelude
begin

text \<open>
  \<open>pkg/rnib/rnib.go\<close>: the R-NIB client on top of the topology SDK.

  The SDK client (\<open>Get\<close>, \<open>List\<close>, \<open>Watch\<close>), the decoding of aspects and the kind names of the
  topology API are not part of the repository: \<open>topo_client\<close> holds them. An object carries its
  \<open>Obj\<close> choice and what \<open>GetAspect\<close> returns for the two aspects the source asks for. The
  service models of a node are a map; \<open>ord\<close> gives the order in which a map is visited.
\<close>

definition oid :: string where
  "oid = ''1.3.6.1.4.1.53148.1.1.2.3''"

record any_msg =
  TypeUrl :: string
  AnyValue :: "byte list"

record service_model =
  SmName :: string
  SmOID :: string
  RanFunctions :: "any_msg list"

record e2_node =
  ServiceModels :: "string \<rightharpoonup> service_model"

type_synonym e2_cell = string

record topo_relation =
  SrcEntityID :: node_id
  TgtEntityID :: node_id

datatype topo_obj =
    Object_Entity "string option" | Object_Relation "topo_relation option" | Object_Other

record topo_object =
  Obj :: topo_obj
  AspectE2Node :: "go_error + e2_node"
  AspectE2Cell :: "go_error + e2_cell"

datatype topo_filter =
    KindFilter string
  | RelationFilter string string string

record topo_client =
  topo_Get :: "node_id \<Rightarrow> go_error + topo_object"
  topo_List :: "topo_filter \<Rightarrow> go_error + topo_object list"
  topo_Watch :: "topo_filter \<Rightarrow> go_error option"
  kind_CONTROLS :: string
  kind_CONTAINS :: string
  kind_E2CELL :: string

type_synonym sm_order = "(string \<rightharpoonup> service_model) \<Rightarrow> string list"

definition GetKindID :: "topo_object \<Rightarrow> string" where
  "GetKindID x = (case Obj x of Object_Entity (Some k) \<Rightarrow> k | _ \<Rightarrow> [])"

definition GetE2NodeAspects :: "topo_client \<Rightarrow> node_id \<Rightarrow> go_error + e2_node" where
  "GetE2NodeAspects tc nodeID =
     (case topo_Get tc nodeID of Inl e \<Rightarrow> Inl e | Inr object \<Rightarrow> AspectE2Node object)"

primrec has_oid :: "string \<Rightarrow> service_model list \<Rightarrow> bool" where
  "has_oid i [] \<longleftrightarrow> False"
| "has_oid i (sm # sms) \<longleftrightarrow> (if SmOID sm = i then True else has_oid i sms)"

definition HasRcRANFunction :: "topo_client \<Rightarrow> sm_order \<Rightarrow> node_id \<Rightarrow> string \<Rightarrow> bool" where
  "HasRcRANFunction tc ord nodeID i =
     (case GetE2NodeAspects tc nodeID of
        Inl e \<Rightarrow> False
      | Inr e2Node \<Rightarrow> has_oid i (ranged (ServiceModels e2Node) (ord (ServiceModels e2Node))))"

definition getControlRelationFilter :: "topo_client \<Rightarrow> topo_filter" where
  "getControlRelationFilter tc = KindFilter (kind_CONTROLS tc)"

text \<open>The loop panics on an object that is not a relation.\<close>

primrec node_ids_loop ::
  "(node_id \<Rightarrow> bool) \<Rightarrow> topo_object list \<Rightarrow> node_id list \<Rightarrow> node_id list go" where
  "node_ids_loop has [] ids = Ret ids"
| "node_ids_loop has (x # xs) ids =
     (case Obj x of
        Object_Relation (Some r) \<Rightarrow>
          node_ids_loop has xs (if has (TgtEntityID r) then ids @ [TgtEntityID r] else ids)
      | _ \<Rightarrow> Panic)"

definition E2NodeIDs :: "topo_client \<Rightarrow> sm_order \<Rightarrow> string \<Rightarrow> node_id list go" where
  "E2NodeIDs tc ord i =
     (case topo_List tc (getControlRelationFilter tc) of
        Inl e \<Rightarrow> Fail e
      | Inr objects \<Rightarrow>
          node_ids_loop (\<lambda>n. HasRcRANFunction tc ord n i) objects (replicate (length objects) []))"

primrec cells_loop :: "string \<Rightarrow> topo_object list \<Rightarrow> e2_cell list \<Rightarrow> e2_cell list" where
  "cells_loop k [] cells = cells"
| "cells_loop k (x # xs) cells =
     (if GetKindID x = k
      then (case AspectE2Cell x of
              Inr cellObject \<Rightarrow> cells_loop k xs (cells @ [cellObject])
            | Inl e \<Rightarrow> cells_loop k xs cells)
      else cells_loop k xs cells)"

definition rnib_GetCells :: "topo_client \<Rightarrow> node_id \<Rightarrow> go_error + e2_cell list" where
  "rnib_GetCells tc nodeID =
     (case topo_List tc (RelationFilter nodeID (kind_CONTAINS tc) []) of
        Inl e \<Rightarrow> Inl e
      | Inr objects \<Rightarrow>
          (let cells = cells_loop (kind_E2CELL tc) objects []
           in if length cells = 0 then Inl NotFound else Inr cells))"

definition WatchE2Connections :: "topo_client \<Rightarrow> go_error option" where
  "WatchE2Connections tc =
     (case topo_Watch tc (getControlRelationFilter tc) of Some e \<Rightarrow> Some e | None \<Rightarrow> None)"

subsection \<open>What the loops compute\<close>

text \<open>Orders that visit every finite map completely.\<close>

definition visits_all :: "sm_order \<Rightarrow> bool" where
  "visits_all ord \<longleftrightarrow> (\<forall>m. finite (dom m) \<longrightarrow> range_order m (ord m))"

lemma has_oid_iff: "has_oid i sms \<longleftrightarrow> (\<exists>sm \<in> set sms. SmOID sm = i)"
  by (induction sms) auto

lemma HasRcRANFunction_iff:
  assumes "GetE2NodeAspects tc n = Inr node" "finite (dom (ServiceModels node))" "visits_all ord"
  shows "HasRcRANFunction tc ord n i \<longleftrightarrow> (\<exists>sm \<in> ran (ServiceModels node). SmOID sm = i)"
  using assms set_ranged_order [of "ServiceModels node"]
  by (simp add: HasRcRANFunction_def has_oid_iff visits_all_def)

lemma cells_loop_eq:
  "cells_loop k xs cells =
     cells @ List.map_filter (\<lambda>x. if GetKindID x = k then (case AspectE2Cell x of Inr c \<Rightarrow> Some c | Inl _ \<Rightarrow> None)
                                  else None) xs"
  by (induction xs arbitrary: cells) (auto simp: List.map_filter_def split: sum.splits)

definition relation_targets :: "topo_object list \<Rightarrow> node_id list option" where
  "relation_targets xs =
     those (map (\<lambda>x. case Obj x of Object_Relation r \<Rightarrow> map_option TgtEntityID r | _ \<Rightarrow> None) xs)"

lemma node_ids_loop_eq:
  "node_ids_loop has xs ids =
     (case relation_targets xs of Some ts \<Rightarrow> Ret (ids @ filter has ts) | None \<Rightarrow> Panic)"
proof (induction xs arbitrary: ids)
  case Nil
  then show ?case by (simp add: relation_targets_def)
next
  case (Cons x xs)
  then show ?case
    by (cases "Obj x") (auto simp: relation_targets_def split: option.splits)
qed

subsection \<open>Properties\<close>

definition rc_model :: service_model where
  "rc_model = \<lparr>SmName = ''oran-e2sm-rc'', SmOID = oid,
     RanFunctions = [\<lparr>TypeUrl = ''RCRanFunction'', AnyValue = []\<rparr>]\<rparr>"

definition control_relation :: "node_id \<Rightarrow> topo_object" where
  "control_relation n =
     \<lparr>Obj = Object_Relation (Some \<lparr>SrcEntityID = ''mho'', TgtEntityID = n\<rparr>),
      AspectE2Node = Inl NotFound, AspectE2Cell = Inl NotFound\<rparr>"

text \<open>A topology in which every node has the RC model and no node has cells.\<close>

definition sample_topo :: "node_id list \<Rightarrow> topo_client" where
  "sample_topo ns =
     \<lparr>topo_Get = (\<lambda>n. Inr \<lparr>Obj = Object_Entity (Some ''e2node''),
        AspectE2Node = Inr \<lparr>ServiceModels = [''rc'' \<mapsto> rc_model]\<rparr>, AspectE2Cell = Inl NotFound\<rparr>),
      topo_List = (\<lambda>f. case f of KindFilter _ \<Rightarrow> Inr (map control_relation ns) | _ \<Rightarrow> Inr []),
      topo_Watch = (\<lambda>_. None),
      kind_CONTROLS = ''controls'', kind_CONTAINS = ''contains'', kind_E2CELL = ''e2cell''\<rparr>"

definition sample_order :: sm_order where
  "sample_order m = (if dom m = {''rc''} then [''rc''] else [])"

lemma sample_has_rc: "HasRcRANFunction (sample_topo ns) sample_order n oid"
  by (simp add: HasRcRANFunction_def GetE2NodeAspects_def sample_topo_def sample_order_def rc_model_def)

text \<open>
  \<open>E2NodeIDs\<close> pads its answer: when the listed objects are all relations, the result is one
  empty identifier per listed relation, followed by the targets whose service models include
  the wanted object identifier; an object of another kind panics. So a caller is told of twice
  the connections, half of them without a name, when every node has the function.
\<close>

lemma E2NodeIDs_padded:
  assumes "topo_List tc (KindFilter (kind_CONTROLS tc)) = Inr objects"
  shows "E2NodeIDs tc ord i =
    (case relation_targets objects of
       None \<Rightarrow> Panic
     | Some ts \<Rightarrow> Ret (replicate (length ts) [] @ filter (\<lambda>n. HasRcRANFunction tc ord n i) ts))"
proof -
  have "length ts = length objects" if "relation_targets objects = Some ts" for ts
  proof -
    have "those xs = Some ys \<Longrightarrow> length ys = length xs" for xs :: "node_id option list" and ys
      by (induction xs arbitrary: ys) (auto split: option.splits)
    with that show ?thesis by (auto simp: relation_targets_def)
  qed
  then show ?thesis
    using assms by (auto simp: E2NodeIDs_def getControlRelationFilter_def node_ids_loop_eq split: option.splits)
qed

lemma E2NodeIDs_padded_witness:
  "E2NodeIDs (sample_topo [''n1'', ''n2'']) sample_order oid = Ret [[], [], ''n1'', ''n2'']"
proof -
  have l: "topo_List (sample_topo [''n1'', ''n2'']) (KindFilter (kind_CONTROLS (sample_topo [''n1'', ''n2'']))) =
      Inr (map control_relation [''n1'', ''n2''])"
    by (simp add: sample_topo_def)
  show ?thesis
    using E2NodeIDs_padded [OF l, of sample_order oid]
    by (simp add: relation_targets_def control_relation_def sample_has_rc eval_nat_numeral)
qed

end
