(* ===== verification/Mho_Options.thy ===== *)
theory Mho_Options
  imports Prelude
begin

text \<open>
  The functional options of \<open>pkg/monitoring/options.go\<close> and \<open>pkg/southbound/e2/options.go\<close>, and
  the constructors that apply them: \<open>NewMonitor\<close> and the option part of the E2 \<open>NewManager\<close>.

  What the options carry are interfaces and pointers that the constructors only pass on: a
  reference is a number, and \<open>None\<close> is nil (an \<open>rnib.Client\<close> is a struct around one interface,
  and stands for that interface). The E2 client's handle of a node is given by the identifier of the node. An \<open>Option\<close> is its function, which \<open>apply\<close> runs on the
  options; both packages have the same \<open>funcOption\<close>.
\<close>

type_synonym iface = "nat option"

type_synonym 'o opt = "'o \<Rightarrow> 'o"

definition newOption :: "('o \<Rightarrow> 'o) \<Rightarrow> 'o opt" where
  "newOption f = f"

definition apply_option :: "'o opt \<Rightarrow> 'o \<Rightarrow> 'o" where
  "apply_option opt options = opt options"

definition apply_options :: "'o opt list \<Rightarrow> 'o \<Rightarrow> 'o" where
  "apply_options opts options = foldl (\<lambda>options opt. apply_option opt options) options opts"

subsection \<open>Monitor options (pkg/monitoring)\<close>

record mon_app_options =
  MA_Config :: iface
  MA_RNIBClient :: iface
  MA_MetricStore :: iface

record mon_monitor_options =
  MM_Node :: "string option"
  MM_NodeID :: node_id
  MM_StreamReader :: iface

record mon_options =
  MO_App :: mon_app_options
  MO_Monitor :: mon_monitor_options

definition mon_zero :: mon_options where
  "mon_zero = \<lparr>MO_App = \<lparr>MA_Config = None, MA_RNIBClient = None, MA_MetricStore = None\<rparr>,
     MO_Monitor = \<lparr>MM_Node = None, MM_NodeID = [], MM_StreamReader = None\<rparr>\<rparr>"

definition WithNodeID :: "node_id \<Rightarrow> mon_options opt" where
  "WithNodeID nodeID = newOption (\<lambda>options. options\<lparr>MO_Monitor := (MO_Monitor options)\<lparr>MM_NodeID := nodeID\<rparr>\<rparr>)"

definition WithStreamReader :: "iface \<Rightarrow> mon_options opt" where
  "WithStreamReader streamReader =
     newOption (\<lambda>options. options\<lparr>MO_Monitor := (MO_Monitor options)\<lparr>MM_StreamReader := streamReader\<rparr>\<rparr>)"

definition WithNode :: "string option \<Rightarrow> mon_options opt" where
  "WithNode n = newOption (\<lambda>options. options\<lparr>MO_Monitor := (MO_Monitor options)\<lparr>MM_Node := n\<rparr>\<rparr>)"

definition WithAppConfig :: "iface \<Rightarrow> mon_options opt" where
  "WithAppConfig config = newOption (\<lambda>options. options\<lparr>MO_App := (MO_App options)\<lparr>MA_Config := config\<rparr>\<rparr>)"

definition WithRNIBClient :: "iface \<Rightarrow> mon_options opt" where
  "WithRNIBClient rnibClient =
     newOption (\<lambda>options. options\<lparr>MO_App := (MO_App options)\<lparr>MA_RNIBClient := rnibClient\<rparr>\<rparr>)"

definition WithMetricStore :: "iface \<Rightarrow> mon_options opt" where
  "WithMetricStore metricStore =
     newOption (\<lambda>options. options\<lparr>MO_App := (MO_App options)\<lparr>MA_MetricStore := metricStore\<rparr>\<rparr>)"

record monitor =
  mon_streamReader :: iface
  mon_appConfig :: iface
  mon_metricStore :: iface
  mon_nodeID :: node_id
  mon_rnibClient :: iface

definition NewMonitor :: "mon_options opt list \<Rightarrow> monitor" where
  "NewMonitor opts =
     (let options = apply_options opts mon_zero in
      \<lparr>mon_streamReader = MM_StreamReader (MO_Monitor options), mon_appConfig = MA_Config (MO_App options),
       mon_metricStore = MA_MetricStore (MO_App options), mon_nodeID = MM_NodeID (MO_Monitor options),
       mon_rnibClient = MA_RNIBClient (MO_App options)\<rparr>)"

subsection \<open>E2 manager options (pkg/southbound/e2)\<close>

record service_options =
  SO_Host :: string
  SO_Port :: int

record service_model_options =
  SM_Name :: string
  SM_Version :: string

record e2_app_options =
  EA_AppID :: string
  EA_Config :: iface
  EA_Broker :: iface
  EA_MetricStore :: iface

record e2_options =
  E2TService :: service_options
  E2SubService :: service_options
  ServiceModel :: service_model_options
  EO_App :: e2_app_options

definition e2_zero :: e2_options where
  "e2_zero = \<lparr>E2TService = \<lparr>SO_Host = [], SO_Port = 0\<rparr>, E2SubService = \<lparr>SO_Host = [], SO_Port = 0\<rparr>,
     ServiceModel = \<lparr>SM_Name = [], SM_Version = []\<rparr>,
     EO_App = \<lparr>EA_AppID = [], EA_Config = None, EA_Broker = None, EA_MetricStore = None\<rparr>\<rparr>"

definition WithE2TAddress :: "string \<Rightarrow> int \<Rightarrow> e2_options opt" where
  "WithE2TAddress host port = newOption (\<lambda>options.
     let options = options\<lparr>E2TService := (E2TService options)\<lparr>SO_Host := host\<rparr>\<rparr>
     in options\<lparr>E2TService := (E2TService options)\<lparr>SO_Port := port\<rparr>\<rparr>)"

definition WithE2THost :: "string \<Rightarrow> e2_options opt" where
  "WithE2THost host = newOption (\<lambda>options. options\<lparr>E2TService := (E2TService options)\<lparr>SO_Host := host\<rparr>\<rparr>)"

definition WithE2TPort :: "int \<Rightarrow> e2_options opt" where
  "WithE2TPort port = newOption (\<lambda>options. options\<lparr>E2TService := (E2TService options)\<lparr>SO_Port := port\<rparr>\<rparr>)"

definition WithE2SubAddress :: "string \<Rightarrow> int \<Rightarrow> e2_options opt" where
  "WithE2SubAddress host port = newOption (\<lambda>options.
     let options = options\<lparr>E2SubService := (E2SubService options)\<lparr>SO_Host := host\<rparr>\<rparr>
     in options\<lparr>E2SubService := (E2SubService options)\<lparr>SO_Port := port\<rparr>\<rparr>)"

definition WithServiceModel :: "string \<Rightarrow> string \<Rightarrow> e2_options opt" where
  "WithServiceModel name version = newOption (\<lambda>options.
     options\<lparr>ServiceModel := \<lparr>SM_Name = name, SM_Version = version\<rparr>\<rparr>)"

definition WithAppID :: "string \<Rightarrow> e2_options opt" where
  "WithAppID appID = newOption (\<lambda>options. options\<lparr>EO_App := (EO_App options)\<lparr>EA_AppID := appID\<rparr>\<rparr>)"

definition e2_WithAppConfig :: "iface \<Rightarrow> e2_options opt" where
  "e2_WithAppConfig c = newOption (\<lambda>options. options\<lparr>EO_App := (EO_App options)\<lparr>EA_Config := c\<rparr>\<rparr>)"

definition WithBroker :: "iface \<Rightarrow> e2_options opt" where
  "WithBroker b = newOption (\<lambda>options. options\<lparr>EO_App := (EO_App options)\<lparr>EA_Broker := b\<rparr>\<rparr>)"

definition e2_WithMetricStore :: "iface \<Rightarrow> e2_options opt" where
  "e2_WithMetricStore m = newOption (\<lambda>options. options\<lparr>EO_App := (EO_App options)\<lparr>EA_MetricStore := m\<rparr>\<rparr>)"

lemmas option_defs =
  newOption_def WithNodeID_def WithStreamReader_def WithNode_def WithAppConfig_def
  WithRNIBClient_def WithMetricStore_def WithE2TAddress_def WithE2THost_def WithE2TPort_def
  WithE2SubAddress_def WithServiceModel_def WithAppID_def e2_WithAppConfig_def WithBroker_def
  e2_WithMetricStore_def

text \<open>
  \<open>e2.NewManager\<close>. The E2 client of the SDK is its configuration; \<open>rnib.NewClient\<close> wraps what
  the topology SDK returns. On an error the zero \<open>Manager\<close> is returned with it.
\<close>

record e2_client_config =
  EC_ServiceModelName :: string
  EC_ServiceModelVersion :: string
  EC_AppID :: string
  EC_Host :: string
  EC_Port :: int

record e2_manager =
  EM_e2client :: "e2_client_config option"
  EM_rnibClient :: iface
  EM_serviceModel :: service_model_options
  EM_appConfig :: iface
  EM_streams :: iface
  EM_metricStore :: iface

definition e2_manager_zero :: e2_manager where
  "e2_manager_zero = \<lparr>EM_e2client = None, EM_rnibClient = None,
     EM_serviceModel = \<lparr>SM_Name = [], SM_Version = []\<rparr>,
     EM_appConfig = None, EM_streams = None, EM_metricStore = None\<rparr>"

definition rnib_NewClient :: "go_error + nat \<Rightarrow> iface \<times> go_error option" where
  "rnib_NewClient sdkClient = (case sdkClient of Inl e \<Rightarrow> (None, Some e) | Inr c \<Rightarrow> (Some c, None))"

definition e2_NewManager ::
  "go_error + nat \<Rightarrow> e2_options opt list \<Rightarrow> e2_manager \<times> go_error option" where
  "e2_NewManager sdkClient opts =
     (let options = apply_options opts e2_zero;
          e2Client = \<lparr>EC_ServiceModelName = SM_Name (ServiceModel options),
            EC_ServiceModelVersion = SM_Version (ServiceModel options),
            EC_AppID = EA_AppID (EO_App options), EC_Host = SO_Host (E2TService options),
            EC_Port = SO_Port (E2TService options)\<rparr>;
          (rnibClient, err) = rnib_NewClient sdkClient
      in case err of
           Some e \<Rightarrow> (e2_manager_zero, Some e)
         | None \<Rightarrow>
             (\<lparr>EM_e2client = Some e2Client, EM_rnibClient = rnibClient,
               EM_serviceModel = \<lparr>SM_Name = SM_Name (ServiceModel options),
                                  SM_Version = SM_Version (ServiceModel options)\<rparr>,
               EM_appConfig = EA_Config (EO_App options), EM_streams = EA_Broker (EO_App options),
               EM_metricStore = EA_MetricStore (EO_App options)\<rparr>, None))"

subsection \<open>The contract of an option\<close>

text \<open>
  An option writes one part of the options, which \<open>get\<close> reads: the last one applied wins, and
  options that leave the part alone do not matter for it.
\<close>

lemma apply_options_fold: "apply_options opts = fold (\<lambda>f. f) opts"
  by (rule ext) (simp add: apply_options_def apply_option_def foldl_conv_fold)

locale option_setter =
  fixes upd :: "'v \<Rightarrow> 'o opt"
    and get :: "'o \<Rightarrow> 'v"
  assumes get_upd: "get (upd v x) = v"
begin

lemma get_unchanged:
  "\<forall>g \<in> set gs. \<forall>y. get (g y) = get y \<Longrightarrow> get (apply_options gs x) = get x"
  by (induction gs arbitrary: x) (auto simp: apply_options_fold)

lemma last_wins:
  assumes "\<forall>g \<in> set gs. \<forall>y. get (g y) = get y"
  shows "get (apply_options (fs @ upd v # gs) x) = v"
  using get_unchanged [OF assms] by (simp add: apply_options_fold get_upd)

lemma one_of:
  assumes "upd v \<in> set opts" "\<forall>g \<in> set opts. g = upd v \<or> (\<forall>y. get (g y) = get y)"
  shows "get (apply_options opts x) = v"
proof -
  obtain fs gs where s: "opts = fs @ upd v # gs" "upd v \<notin> set gs"
    using assms(1) by (metis split_list_last)
  have "get (g y) = get y" if "g \<in> set gs" for g y
  proof -
    from that s have "g \<noteq> upd v" "g \<in> set opts" by auto
    with assms(2) show ?thesis by blast
  qed
  with s last_wins show ?thesis by blast
qed

end

interpretation node_id: option_setter WithNodeID "MM_NodeID \<circ> MO_Monitor"
  by unfold_locales (simp add: option_defs)
interpretation reader: option_setter WithStreamReader "MM_StreamReader \<circ> MO_Monitor"
  by unfold_locales (simp add: option_defs)
interpretation config: option_setter WithAppConfig "MA_Config \<circ> MO_App"
  by unfold_locales (simp add: option_defs)
interpretation rnib: option_setter WithRNIBClient "MA_RNIBClient \<circ> MO_App"
  by unfold_locales (simp add: option_defs)
interpretation mstore: option_setter WithMetricStore "MA_MetricStore \<circ> MO_App"
  by unfold_locales (simp add: option_defs)

interpretation e2t: option_setter "\<lambda>(h, p). WithE2TAddress h p"
  "\<lambda>x. (SO_Host (E2TService x), SO_Port (E2TService x))"
  by unfold_locales (simp add: option_defs Let_def split: prod.split)
interpretation smodel: option_setter "\<lambda>(n, v). WithServiceModel n v"
  "\<lambda>x. (SM_Name (ServiceModel x), SM_Version (ServiceModel x))"
  by unfold_locales (simp add: option_defs split: prod.split)
interpretation app_id: option_setter WithAppID "EA_AppID \<circ> EO_App"
  by unfold_locales (simp add: option_defs)
interpretation e2_config: option_setter e2_WithAppConfig "EA_Config \<circ> EO_App"
  by unfold_locales (simp add: option_defs)
interpretation e2_broker: option_setter WithBroker "EA_Broker \<circ> EO_App"
  by unfold_locales (simp add: option_defs)
interpretation e2_mstore: option_setter e2_WithMetricStore "EA_MetricStore \<circ> EO_App"
  by unfold_locales (simp add: option_defs)

subsection \<open>Properties\<close>

text \<open>
  The order of options does not matter: a monitor built from the six options the southbound
  passes, in any order, reads its own stream, uses the given configuration, R-NIB client and
  metric store, and carries the given node identifier; the node option is dropped.
\<close>

lemma NewMonitor_any_order:
  assumes "set opts = {WithAppConfig c, WithNode d, WithStreamReader r, WithNodeID n, WithRNIBClient b,
     WithMetricStore m}"
  shows "NewMonitor opts = \<lparr>mon_streamReader = r, mon_appConfig = c, mon_metricStore = m,
     mon_nodeID = n, mon_rnibClient = b\<rparr>"
proof -
  let ?o = "apply_options opts mon_zero"
  have "(MM_StreamReader \<circ> MO_Monitor) ?o = r"
    by (rule reader.one_of) (auto simp: assms option_defs)
  moreover have "(MA_Config \<circ> MO_App) ?o = c"
    by (rule config.one_of) (auto simp: assms option_defs)
  moreover have "(MA_MetricStore \<circ> MO_App) ?o = m"
    by (rule mstore.one_of) (auto simp: assms option_defs)
  moreover have "(MM_NodeID \<circ> MO_Monitor) ?o = n"
    by (rule node_id.one_of) (auto simp: assms option_defs)
  moreover have "(MA_RNIBClient \<circ> MO_App) ?o = b"
    by (rule rnib.one_of) (auto simp: assms option_defs)
  ultimately show ?thesis by (simp add: NewMonitor_def Let_def)
qed

lemma NewMonitor_any_order_witness:
  "NewMonitor [WithNodeID ''n1'', WithNode None, WithMetricStore (Some 3), WithStreamReader (Some 1),
     WithRNIBClient None, WithAppConfig (Some 2)] =
   \<lparr>mon_streamReader = Some 1, mon_appConfig = Some 2, mon_metricStore = Some 3, mon_nodeID = ''n1'',
    mon_rnibClient = None\<rparr>"
  by (rule NewMonitor_any_order [where d = None]) auto

end
