(* ===== verification/Mho_Stream.thy ===== *)
theory Mho_Stream
  imports Prelude
begin

text \<open>
  \<open>pkg/broker/stream.go\<close>: the buffered stream between the E2 subscription and the monitor.

  A stream is a bounded buffer guarded by a mutex and a condition variable, and a drain
  goroutine that takes indications from the buffer and hands them to the reader over an
  unbuffered channel. Each critical section is one step. The drain goroutine is about to
  enter \<open>next\<close> (\<open>D_Next\<close>), asleep in \<open>cond.Wait\<close> (\<open>D_Waiting\<close>), offering an indication on
  the channel (\<open>D_Sending\<close>), or finished with the channel closed (\<open>D_Done\<close>). \<open>cond.Signal\<close>
  wakes the only possible waiter; Go's condition variables have no spurious wake-ups.
\<close>

definition bufferMaxSize :: nat where
  "bufferMaxSize = 10000"

datatype 'a drain_pc = D_Next | D_Waiting | D_Sending 'a | D_Done

record 'a stream =
  buffer :: "'a list"
  closed :: bool
  drain :: "'a drain_pc"

definition newBufferedWriter :: "'a stream" where
  "newBufferedWriter = \<lparr>buffer = [], closed = False, drain = D_Next\<rparr>"

definition signal :: "'a stream \<Rightarrow> 'a stream" where
  "signal s = (if drain s = D_Waiting then s\<lparr>drain := D_Next\<rparr> else s)"

definition stream_Send :: "'a \<Rightarrow> 'a stream \<Rightarrow> 'a stream \<times> (go_error + unit)" where
  "stream_Send ind s =
     (if closed s then (s, Inl EOF)
      else if length (buffer s) = bufferMaxSize then (s, Inl Unavailable)
      else (signal (s\<lparr>buffer := buffer s @ [ind]\<rparr>), Inr ()))"

definition stream_Close :: "'a stream \<Rightarrow> 'a stream" where
  "stream_Close s = s\<lparr>closed := True\<rparr>"

text \<open>One pass of \<open>next\<close> and \<open>drain\<close>: enabled when the goroutine holds or can take the lock.\<close>

definition drain_step :: "'a stream \<Rightarrow> 'a stream option" where
  "drain_step s =
     (case drain s of
        D_Next \<Rightarrow>
          Some (case buffer s of
                  [] \<Rightarrow> if closed s then s\<lparr>drain := D_Done\<rparr> else s\<lparr>drain := D_Waiting\<rparr>
                | x # xs \<Rightarrow> s\<lparr>buffer := xs, drain := D_Sending x\<rparr>)
      | _ \<Rightarrow> None)"

text \<open>
  Receiving from the reader's channel: the value, \<open>None\<close> in it when the channel is closed, or
  \<open>None\<close> while nothing is offered. \<open>Recv\<close> selects between that and the context: the list has
  the outcomes the select may take (either one when both cases are ready), and is empty while
  the call blocks. \<open>ctx\<close> is \<open>ctx.Err()\<close>, \<open>None\<close> while the context is not done.
\<close>

definition chan_recv :: "'a stream \<Rightarrow> ('a stream \<times> 'a option) option" where
  "chan_recv s =
     (case drain s of
        D_Sending x \<Rightarrow> Some (s\<lparr>drain := D_Next\<rparr>, Some x)
      | D_Done \<Rightarrow> Some (s, None)
      | _ \<Rightarrow> None)"

definition stream_Recv :: "go_error option \<Rightarrow> 'a stream \<Rightarrow> ('a stream \<times> (go_error + 'a)) list" where
  "stream_Recv ctx s =
     (case chan_recv s of
        Some (t, Some ind) \<Rightarrow> [(t, Inr ind)]
      | Some (t, None) \<Rightarrow> [(t, Inl EOF)]
      | None \<Rightarrow> []) @
     (case ctx of Some e \<Rightarrow> [(s, Inl e)] | None \<Rightarrow> [])"

subsection \<open>The contract of a first-in-first-out channel\<close>

text \<open>
  What the writer and the reader of a stream rely on: an accepted item joins the pending ones
  at the end, a received item was the first of them, every other step leaves them alone.
\<close>

datatype 'a io = In 'a | Out 'a | Tau

fun inputs :: "'a io list \<Rightarrow> 'a list" where
  "inputs [] = []"
| "inputs (In x # ios) = x # inputs ios"
| "inputs (_ # ios) = inputs ios"

fun outputs :: "'a io list \<Rightarrow> 'a list" where
  "outputs [] = []"
| "outputs (Out x # ios) = x # outputs ios"
| "outputs (_ # ios) = outputs ios"

inductive io_run :: "('s \<Rightarrow> 'a io \<Rightarrow> 's \<Rightarrow> bool) \<Rightarrow> 's \<Rightarrow> 'a io list \<Rightarrow> 's \<Rightarrow> bool" for step where
  io_nil: "io_run step s [] s"
| io_cons: "step s io t \<Longrightarrow> io_run step t ios u \<Longrightarrow> io_run step s (io # ios) u"

lemma io_run_append: "io_run step s ios t \<Longrightarrow> io_run step t jos u \<Longrightarrow> io_run step s (ios @ jos) u"
  by (induction rule: io_run.induct) (auto intro: io_run.intros)

lemma io_run_inv:
  "io_run step s ios t \<Longrightarrow> (\<And>s io t. step s io t \<Longrightarrow> P s \<Longrightarrow> P t) \<Longrightarrow> P s \<Longrightarrow> P t"
  by (induction rule: io_run.induct) blast+

locale fifo_channel =
  fixes step :: "'s \<Rightarrow> 'a io \<Rightarrow> 's \<Rightarrow> bool"
    and pend :: "'s \<Rightarrow> 'a list"
  assumes step_In: "step s (In x) t \<Longrightarrow> pend t = pend s @ [x]"
    and step_Out: "step s (Out x) t \<Longrightarrow> pend s = x # pend t"
    and step_Tau: "step s Tau t \<Longrightarrow> pend t = pend s"
begin

lemma run_order: "io_run step s ios t \<Longrightarrow> pend s @ inputs ios = outputs ios @ pend t"
proof (induction rule: io_run.induct)
  case (io_nil s)
  then show ?case by simp
next
  case (io_cons s io t ios u)
  then show ?case using step_In step_Out step_Tau by (cases io) fastforce+
qed

lemma run_length: "io_run step s ios t \<Longrightarrow>
  length (pend s) + length (inputs ios) = length (outputs ios) + length (pend t)"
  by (drule run_order) (metis length_append)

end

text \<open>A channel that holds a limited number of items.\<close>

locale bounded_channel = fifo_channel step pend
  for step :: "'s \<Rightarrow> 'a io \<Rightarrow> 's \<Rightarrow> bool" and pend +
  fixes ok :: "'s \<Rightarrow> bool" and capacity :: nat
  assumes step_ok: "step s io t \<Longrightarrow> ok s \<Longrightarrow> ok t"
    and ok_bound: "ok s \<Longrightarrow> length (pend s) \<le> capacity"
begin

lemma run_ok: "io_run step s ios t \<Longrightarrow> ok s \<Longrightarrow> ok t"
  using io_run_inv [of step s ios t ok] step_ok by blast

lemma run_bound: "io_run step s ios t \<Longrightarrow> ok s \<Longrightarrow> length (inputs ios) \<le> length (outputs ios) + capacity"
  using run_length ok_bound run_ok by fastforce

end

subsection \<open>The buffered stream is such a channel\<close>

inductive stream_step :: "'a stream \<Rightarrow> 'a io \<Rightarrow> 'a stream \<Rightarrow> bool" where
  send: "stream_Send x s = (t, Inr ()) \<Longrightarrow> stream_step s (In x) t"
| send_rejected: "stream_Send x s = (t, Inl e) \<Longrightarrow> stream_step s Tau t"
| close: "stream_step s Tau (stream_Close s)"
| drain: "drain_step s = Some t \<Longrightarrow> stream_step s Tau t"
| recv: "(t, Inr x) \<in> set (stream_Recv ctx s) \<Longrightarrow> stream_step s (Out x) t"
| recv_err: "(t, Inl e) \<in> set (stream_Recv ctx s) \<Longrightarrow> stream_step s Tau t"

inductive_cases stream_step_In: "stream_step s (In x) t"
inductive_cases stream_step_Out: "stream_step s (Out x) t"
inductive_cases stream_step_Tau: "stream_step s Tau t"

definition inflight :: "'a stream \<Rightarrow> 'a list" where
  "inflight s = (case drain s of D_Sending x \<Rightarrow> [x] | _ \<Rightarrow> [])"

definition pending :: "'a stream \<Rightarrow> 'a list" where
  "pending s = inflight s @ buffer s"

definition stream_ok :: "'a stream \<Rightarrow> bool" where
  "stream_ok s \<longleftrightarrow> length (buffer s) \<le> bufferMaxSize \<and>
     (drain s = D_Waiting \<longrightarrow> buffer s = []) \<and> (drain s = D_Done \<longrightarrow> closed s \<and> buffer s = [])"

lemmas stream_defs =
  stream_Send_def stream_Close_def drain_step_def chan_recv_def stream_Recv_def signal_def inflight_def
  pending_def stream_ok_def

interpretation st: bounded_channel stream_step pending stream_ok "Suc bufferMaxSize"
proof
  show "pending t = pending s @ [x]" if "stream_step s (In x) t" for s :: "'a stream" and x t
    using that by (auto elim!: stream_step_In simp: stream_defs split: if_splits)
  show "pending s = x # pending t" if "stream_step s (Out x) t" for s :: "'a stream" and x t
    using that by (auto elim!: stream_step_Out simp: stream_defs split: drain_pc.splits)
  show "pending t = pending s" if "stream_step s Tau t" for s t :: "'a stream"
    using that
    by (auto elim!: stream_step_Tau simp: stream_defs split: if_splits drain_pc.splits list.splits)
  show "stream_ok t" if "stream_step s io t" "stream_ok s" for s t :: "'a stream" and io
    using that
    by (induction rule: stream_step.induct)
      (auto simp: stream_defs split: if_splits drain_pc.splits list.splits)
  show "length (pending s) \<le> Suc bufferMaxSize" if "stream_ok s" for s :: "'a stream"
    using that by (auto simp: stream_defs split: drain_pc.splits)
qed

lemma stream_ok_new [simp]: "stream_ok newBufferedWriter" "pending newBufferedWriter = []"
  by (simp_all add: newBufferedWriter_def stream_defs)

subsection \<open>Properties\<close>

text \<open>
  C30. A stream neither loses, duplicates nor reorders: in every run from a new stream, with
  any interleaving of senders, readers, the drain goroutine and \<open>Close\<close>, the indications
  accepted by \<open>Send\<close> are the ones already received followed by the ones still inside, in
  order, and at most 10001 are inside (a full buffer and the one being offered).
\<close>

theorem stream_fifo:
  assumes "io_run stream_step newBufferedWriter ios t"
  shows "inputs ios = outputs ios @ pending t \<and> length (pending t) \<le> 10001"
  using st.run_order [OF assms] st.ok_bound [OF st.run_ok [OF assms]]
  by (simp add: bufferMaxSize_def)

lemma stream_run_example:
  "io_run stream_step newBufferedWriter [Tau, In 7, Tau, Out (7 :: nat), Tau] \<lparr>buffer = [], closed = False, drain = D_Waiting\<rparr>"
proof -
  let ?s = "\<lambda>b p. \<lparr>buffer = b, closed = False, drain = p\<rparr> :: nat stream"
  have "stream_step (?s [] D_Next) Tau (?s [] D_Waiting)" "stream_step (?s [7] D_Next) Tau (?s [] (D_Sending 7))"
    by (rule stream_step.drain, simp add: stream_defs)+
  moreover have "stream_step (?s [] D_Waiting) (In 7) (?s [7] D_Next)"
    by (rule stream_step.send) (simp add: stream_defs bufferMaxSize_def)
  moreover have "stream_step (?s [] (D_Sending 7)) (Out 7) (?s [] D_Next)"
    by (rule stream_step.recv) (simp add: stream_defs)
  ultimately show ?thesis unfolding newBufferedWriter_def by (blast intro: io_run.intros)
qed

theorem stream_fifo_witness:
  "inputs [Tau, In 7, Tau, Out (7 :: nat), Tau] = outputs [Tau, In 7, Tau, Out (7 :: nat), Tau] @ []"
  using stream_fifo [OF stream_run_example] by (simp add: stream_defs)

text \<open>
  The reader sees the end of a stream only after everything in it: whenever \<open>Recv\<close> reports
  an error, either that error is EOF, the stream was closed and every accepted indication has
  been received, or it is the error of the reader's own context and the stream is unchanged.
\<close>

lemma stream_eof_last:
  assumes "io_run stream_step newBufferedWriter ios t" "(u, Inl e) \<in> set (stream_Recv ctx t)"
  shows "e = EOF \<and> closed t \<and> outputs ios = inputs ios \<or> ctx = Some e \<and> u = t"
proof -
  have "stream_ok t" using st.run_ok [OF assms(1)] by simp
  with assms(2) have "e = EOF \<and> closed t \<and> pending t = [] \<or> ctx = Some e \<and> u = t"
    by (auto simp: stream_defs split: drain_pc.splits option.splits)
  then show ?thesis using st.run_order [OF assms(1)] by auto
qed

text \<open>
  Back-pressure is exact: \<open>Send\<close> reports Unavailable only while the stream is open and at
  least 10000 accepted indications have not been received; it never drops one silently.
\<close>

lemma stream_unavailable:
  assumes "io_run stream_step newBufferedWriter ios t" "snd (stream_Send x t) = Inl Unavailable"
  shows "\<not> closed t \<and> fst (stream_Send x t) = t \<and> length (outputs ios) + 10000 \<le> length (inputs ios)"
proof -
  have "\<not> closed t \<and> length (buffer t) = 10000 \<and> fst (stream_Send x t) = t"
    using assms(2) by (auto simp: stream_defs bufferMaxSize_def split: if_splits)
  moreover from this have "10000 \<le> length (pending t)" by (simp add: pending_def)
  ultimately show ?thesis using st.run_length [OF assms(1)] by simp
qed

lemma fill_stream:
  "k \<le> bufferMaxSize \<Longrightarrow> io_run stream_step newBufferedWriter (map In (replicate k x))
     \<lparr>buffer = replicate k x, closed = False, drain = D_Next\<rparr>"
proof (induction k)
  case 0
  then show ?case by (simp add: newBufferedWriter_def io_run.io_nil)
next
  case (Suc k)
  let ?s = "\<lambda>k. \<lparr>buffer = replicate k x, closed = False, drain = D_Next\<rparr>"
  have "stream_step (?s k) (In x) (?s (Suc k))"
    using Suc.prems by (intro stream_step.send) (simp add: stream_defs replicate_append_same)
  then have "io_run stream_step (?s k) [In x] (?s (Suc k))" by (blast intro: io_run.intros)
  with Suc have "io_run stream_step newBufferedWriter (map In (replicate k x) @ [In x]) (?s (Suc k))"
    by (intro io_run_append) auto
  then show ?case by (simp add: replicate_append_same)
qed

lemma stream_unavailable_witness:
  "length (outputs (map In (replicate bufferMaxSize ()))) + 10000
     \<le> length (inputs (map In (replicate bufferMaxSize ())))"
proof -
  have h: "snd (stream_Send () \<lparr>buffer = replicate bufferMaxSize (), closed = False, drain = D_Next\<rparr>) =
      Inl Unavailable"
    by (simp add: stream_defs)
  show ?thesis using stream_unavailable [OF fill_stream [OF order_refl] h] by simp
qed

text \<open>A reader that keeps receiving, with the drain goroutine scheduled whenever it is not
  offering; the number bounds the steps.\<close>

primrec pump :: "nat \<Rightarrow> 'a stream \<Rightarrow> 'a list" where
  "pump 0 s = []"
| "pump (Suc k) s =
     (case stream_Recv None s of
        (t, Inr x) # _ \<Rightarrow> x # pump k t
      | (t, Inl e) # _ \<Rightarrow> []
      | [] \<Rightarrow> (case drain_step s of Some t \<Rightarrow> pump k t | None \<Rightarrow> []))"

lemma pump_idle: "pending s = [] \<Longrightarrow> pump k s = []"
proof (induction k arbitrary: s)
  case 0
  then show ?case by simp
next
  case (Suc k)
  then show ?case
    by (cases "drain s") (auto simp: stream_defs split: if_splits)
qed

lemma pump_pending: "stream_ok s \<Longrightarrow> 2 * length (pending s) \<le> k \<Longrightarrow> pump k s = pending s"
proof (induction k arbitrary: s rule: less_induct)
  case (less k)
  show ?case
  proof (cases "drain s")
    case D_Next
    show ?thesis
    proof (cases "buffer s")
      case Nil
      then show ?thesis using D_Next pump_idle [of s k] by (simp add: stream_defs)
    next
      case (Cons x xs)
      let ?u = "s\<lparr>buffer := xs, drain := D_Next\<rparr>"
      obtain j where k: "k = Suc (Suc j)"
        using less.prems(2) Cons D_Next by (cases k; cases "k - 1") (auto simp: stream_defs)
      have "pump j ?u = pending ?u"
        using less.prems Cons D_Next k by (intro less.IH) (auto simp: stream_defs)
      then show ?thesis using Cons D_Next k by (simp add: stream_defs)
    qed
  next
    case D_Waiting
    then show ?thesis using less.prems pump_idle [of s k] by (simp add: stream_defs)
  next
    case (D_Sending x)
    let ?u = "s\<lparr>drain := D_Next\<rparr>"
    obtain j where k: "k = Suc j" using less.prems(2) D_Sending by (cases k) (auto simp: stream_defs)
    have "pump j ?u = pending ?u"
      using less.prems D_Sending k by (intro less.IH) (auto simp: stream_defs)
    then show ?thesis using D_Sending k by (simp add: stream_defs)
  next
    case D_Done
    then show ?thesis using less.prems pump_idle [of s k] by (simp add: stream_defs)
  qed
qed

text \<open>
  Everything accepted can be received: from any state of a run, a reader that keeps
  receiving gets exactly the pending indications, in order, within two steps of reader or
  drain goroutine per indication, also after the stream was closed.
\<close>

lemma stream_delivers:
  assumes "io_run stream_step newBufferedWriter ios t" "2 * length (pending t) \<le> k"
  shows "outputs ios @ pump k t = inputs ios"
  using pump_pending [OF st.run_ok [OF assms(1)] assms(2)] st.run_order [OF assms(1)] by simp

lemma hang_step:
  "stream_step s io t \<Longrightarrow> closed s \<and> drain s = D_Waiting \<Longrightarrow> closed t \<and> drain t = D_Waiting"
  by (induction rule: stream_step.induct) (auto simp: stream_defs split: if_splits)

text \<open>
  C31. Closing an idle stream strands its reader: once a stream is closed while the drain
  goroutine sleeps in \<open>cond.Wait\<close> (\<open>Close\<close> does not signal, and \<open>Send\<close> on a closed stream does
  not either), no later step wakes it, so a \<open>Recv\<close> whose context is not cancelled blocks forever and the documented EOF is
  never delivered.
\<close>

theorem closed_idle_stream_hangs:
  assumes "io_run stream_step s ios t" "closed s" "drain s = D_Waiting"
  shows "stream_Recv None t = [] \<and> drain_step t = None"
proof -
  have "closed t \<and> drain t = D_Waiting"
    using io_run_inv [OF assms(1), of "\<lambda>s. closed s \<and> drain s = D_Waiting"] hang_step assms(2,3) by blast
  then show ?thesis by (simp add: stream_defs)
qed

theorem closed_idle_stream_hangs_witness:
  "\<exists>s. io_run stream_step newBufferedWriter [Tau, Tau] s \<and> closed s \<and> pending s = ([] :: nat list) \<and>
     stream_Recv None s = []"
proof -
  let ?s = "\<lambda>c p. \<lparr>buffer = [], closed = c, drain = p\<rparr> :: nat stream"
  have "stream_step (?s False D_Next) Tau (?s False D_Waiting)"
    by (rule stream_step.drain) (simp add: stream_defs)
  moreover have "stream_step (?s False D_Waiting) Tau (?s True D_Waiting)"
    using stream_step.close [of "?s False D_Waiting"] by (simp add: stream_defs)
  ultimately have r: "io_run stream_step newBufferedWriter [Tau, Tau] (?s True D_Waiting)"
    unfolding newBufferedWriter_def by (blast intro: io_run.intros)
  have "stream_Recv None (?s True D_Waiting) = []"
    using closed_idle_stream_hangs [OF io_run.io_nil, of "?s True D_Waiting"] by simp
  with r show ?thesis by (auto simp: stream_defs)
qed

end
