(* ===== verification/Mho_Broker.thy ===== *)
theory Mho_Broker
  imports Mho_Stream
begin

text \<open>
  \<open>pkg/broker/broker.go\<close>: the broker that owns the streams.

  Streams are shared objects: the broker's two maps and its callers hold pointers to them, so
  a stream is an index into the list \<open>objs\<close>, and both maps give such indices. An object is
  the immutable part (\<open>bufferedIO\<close>) and the buffered writer. The stream identifier is a Go
  int counter; it is modelled without its (unreachable) wrap-around. \<open>Unsubscribe\<close> is a call
  of the E2 client, whose result is an argument. \<open>OpenReader\<close> takes the lock twice, so it is
  two steps, \<open>open_lookup\<close> and \<open>open_create\<close>.
\<close>

type_synonym channel_id = string
type_synonym stream_id = int
type_synonym sref = nat

record ('n, 'p) buffered_io =
  subSpec :: 'p
  streamID :: stream_id
  channelID :: channel_id
  node :: 'n
  subName :: string

type_synonym ('n, 'p, 'a) stream_obj = "('n, 'p) buffered_io \<times> 'a stream"

record ('n, 'p, 'a) broker =
  subs :: "channel_id \<rightharpoonup> sref"
  streams :: "stream_id \<rightharpoonup> sref"
  last_id :: stream_id
  objs :: "('n, 'p, 'a) stream_obj list"

definition NewBroker :: "('n, 'p, 'a) broker" where
  "NewBroker = \<lparr>subs = Map.empty, streams = Map.empty, last_id = 0, objs = []\<rparr>"

definition newBufferedStream ::
  "'n \<Rightarrow> string \<Rightarrow> stream_id \<Rightarrow> channel_id \<Rightarrow> 'p \<Rightarrow> ('n, 'p, 'a) stream_obj" where
  "newBufferedStream n sn i c sp =
     (\<lparr>subSpec = sp, streamID = i, channelID = c, node = n, subName = sn\<rparr>, newBufferedWriter)"

text \<open>The slice is made with one empty identifier per subscription and then appended to.\<close>

definition ChannelIDs :: "channel_id list \<Rightarrow> ('n, 'p, 'a) broker \<Rightarrow> channel_id list" where
  "ChannelIDs order b = foldl (\<lambda>ids c. ids @ [c]) (replicate (card (dom (subs b))) []) order"

definition open_lookup :: "channel_id \<Rightarrow> ('n, 'p, 'a) broker \<Rightarrow> sref option" where
  "open_lookup c b = subs b c"

definition open_create ::
  "'n \<Rightarrow> string \<Rightarrow> channel_id \<Rightarrow> 'p \<Rightarrow> ('n, 'p, 'a) broker \<Rightarrow> ('n, 'p, 'a) broker \<times> sref" where
  "open_create n sn c sp b =
     (let i = last_id b + 1; r = length (objs b) in
      (b\<lparr>subs := (subs b)(c \<mapsto> r), streams := (streams b)(i \<mapsto> r), last_id := i,
         objs := objs b @ [newBufferedStream n sn i c sp]\<rparr>, r))"

definition OpenReader ::
  "'n \<Rightarrow> string \<Rightarrow> channel_id \<Rightarrow> 'p \<Rightarrow> ('n, 'p, 'a) broker \<Rightarrow> ('n, 'p, 'a) broker \<times> sref" where
  "OpenReader n sn c sp b =
     (case open_lookup c b of Some r \<Rightarrow> (b, r) | None \<Rightarrow> open_create n sn c sp b)"

definition GetWriter :: "stream_id \<Rightarrow> ('n, 'p, 'a) broker \<Rightarrow> go_error + sref" where
  "GetWriter i b = (case streams b i of Some r \<Rightarrow> Inr r | None \<Rightarrow> Inl NotFound)"

definition close_obj :: "sref \<Rightarrow> ('n, 'p, 'a) broker \<Rightarrow> ('n, 'p, 'a) broker" where
  "close_obj r b = b\<lparr>objs := (objs b)[r := (fst (objs b ! r), stream_Close (snd (objs b ! r)))]\<rparr>"

text \<open>\<open>unsub n name\<close> is the error of \<open>stream.Node().Unsubscribe(ctx, name)\<close>, \<open>None\<close> for nil.\<close>

definition CloseStream ::
  "('n \<Rightarrow> string \<Rightarrow> go_error option) \<Rightarrow> channel_id \<Rightarrow> ('n, 'p, 'a) broker
     \<Rightarrow> ('n, 'p, 'a) broker \<times> (go_error + sref)" where
  "CloseStream unsub c b =
     (case subs b c of
        None \<Rightarrow> (b, Inl NotFound)
      | Some r \<Rightarrow>
          (let info = fst (objs b ! r) in
           case unsub (node info) (subName info) of
             Some e \<Rightarrow> (b, Inl e)
           | None \<Rightarrow>
               (close_obj r (b\<lparr>subs := (subs b)(channelID info := None),
                              streams := (streams b)(streamID info := None)\<rparr>), Inr r)))"

text \<open>\<open>Close\<close> closes every stream, in map order, and keeps them all in the maps.\<close>

definition broker_Close :: "stream_id list \<Rightarrow> ('n, 'p, 'a) broker \<Rightarrow> ('n, 'p, 'a) broker" where
  "broker_Close order b = fold close_obj (ranged (streams b) order) b"

definition info_of :: "sref \<Rightarrow> ('n, 'p, 'a) broker \<Rightarrow> ('n, 'p) buffered_io" where
  "info_of r b = fst (objs b ! r)"

subsection \<open>The invariant of the two maps\<close>

definition broker_ok :: "('n, 'p, 'a) broker \<Rightarrow> bool" where
  "broker_ok b \<longleftrightarrow>
     (\<forall>c r. subs b c = Some r \<longrightarrow> r < length (objs b) \<and> channelID (info_of r b) = c \<and>
        streams b (streamID (info_of r b)) = Some r) \<and>
     (\<forall>i r. streams b i = Some r \<longrightarrow> r < length (objs b) \<and> streamID (info_of r b) = i \<and>
        i \<le> last_id b \<and> subs b (channelID (info_of r b)) = Some r) \<and>
     (\<forall>r < length (objs b). streamID (info_of r b) \<le> last_id b)"

lemma broker_okD:
  assumes "broker_ok b"
  shows "subs b c = Some r \<Longrightarrow> r < length (objs b)"
    "subs b c = Some r \<Longrightarrow> channelID (info_of r b) = c"
    "subs b c = Some r \<Longrightarrow> streams b (streamID (info_of r b)) = Some r"
    "streams b i = Some r \<Longrightarrow> r < length (objs b)"
    "streams b i = Some r \<Longrightarrow> streamID (info_of r b) = i"
    "streams b i = Some r \<Longrightarrow> i \<le> last_id b"
    "streams b i = Some r \<Longrightarrow> subs b (channelID (info_of r b)) = Some r"
  using assms by (auto simp: broker_ok_def)

lemma broker_ok_new: "broker_ok NewBroker"
  by (simp add: broker_ok_def NewBroker_def)

lemma open_create_simps:
  "subs (fst (open_create n sn c sp b)) = (subs b)(c \<mapsto> length (objs b))"
  "streams (fst (open_create n sn c sp b)) = (streams b)(last_id b + 1 \<mapsto> length (objs b))"
  "last_id (fst (open_create n sn c sp b)) = last_id b + 1"
  "length (objs (fst (open_create n sn c sp b))) = Suc (length (objs b))"
  "snd (open_create n sn c sp b) = length (objs b)"
  "r < length (objs b) \<Longrightarrow> info_of r (fst (open_create n sn c sp b)) = info_of r b"
  "info_of (length (objs b)) (fst (open_create n sn c sp b)) =
     \<lparr>subSpec = sp, streamID = last_id b + 1, channelID = c, node = n, subName = sn\<rparr>"
  by (simp_all add: open_create_def Let_def info_of_def nth_append newBufferedStream_def)

lemma open_create_ok:
  assumes "broker_ok b" "subs b c = None"
  shows "broker_ok (fst (open_create n sn c sp b))"
  using assms unfolding broker_ok_def
  by (fastforce simp: open_create_simps less_Suc_eq split: if_splits)

lemma OpenReader_ok: "broker_ok b \<Longrightarrow> broker_ok (fst (OpenReader n sn c sp b))"
  by (auto simp: OpenReader_def open_lookup_def open_create_ok split: option.splits)

lemma close_obj_simps [simp]:
  "subs (close_obj r b) = subs b" "streams (close_obj r b) = streams b"
  "last_id (close_obj r b) = last_id b" "length (objs (close_obj r b)) = length (objs b)"
  "q < length (objs b) \<Longrightarrow> info_of q (close_obj r b) = info_of q b"
  by (simp_all add: close_obj_def info_of_def) (cases "r = q"; simp)

lemma close_obj_ok: "broker_ok b \<Longrightarrow> broker_ok (close_obj r b)"
  by (auto simp: broker_ok_def)

lemma CloseStream_ok:
  assumes "broker_ok b"
  shows "broker_ok (fst (CloseStream unsub c b))"
proof (cases "subs b c")
  case None
  then show ?thesis using assms by (simp add: CloseStream_def)
next
  case (Some r)
  let ?i = "info_of r b"
  let ?b = "b\<lparr>subs := (subs b)(channelID ?i := None), streams := (streams b)(streamID ?i := None)\<rparr>"
  have inf: "info_of q ?b = info_of q b" for q by (simp add: info_of_def)
  have "broker_ok ?b"
    using assms Some unfolding broker_ok_def inf by (auto split: if_splits) (metis option.inject)+
  then show ?thesis
    using assms Some by (auto simp: CloseStream_def Let_def info_of_def close_obj_ok split: option.splits)
qed

lemma broker_Close_ok: "broker_ok b \<Longrightarrow> broker_ok (broker_Close order b)"
proof -
  have "broker_ok b \<Longrightarrow> broker_ok (fold close_obj rs b)" for rs
    by (induction rs arbitrary: b) (auto intro: close_obj_ok)
  then show "broker_ok b \<Longrightarrow> broker_ok (broker_Close order b)" by (simp add: broker_Close_def)
qed

subsection \<open>The contract of the Broker interface\<close>

text \<open>
  What a client relies on: the reader it opens for a channel has an identifier under which
  the same stream is found as a writer, the next open of that channel gives the same stream,
  and opening another channel disturbs neither.
\<close>

locale broker_contract =
  fixes inv :: "'b \<Rightarrow> bool"
    and opn :: "'c \<Rightarrow> 'b \<Rightarrow> 'b \<times> 'r"
    and ident :: "'b \<Rightarrow> 'r \<Rightarrow> 'i"
    and writer :: "'i \<Rightarrow> 'b \<Rightarrow> 'r option"
    and current :: "'c \<Rightarrow> 'b \<Rightarrow> 'r option"
  assumes inv_open: "inv b \<Longrightarrow> inv (fst (opn c b))"
    and current_open: "inv b \<Longrightarrow> current c (fst (opn c b)) = Some (snd (opn c b))"
    and open_current: "inv b \<Longrightarrow> current c b = Some r \<Longrightarrow> opn c b = (b, r)"
    and current_other: "inv b \<Longrightarrow> d \<noteq> c \<Longrightarrow> current d (fst (opn c b)) = current d b"
    and writer_current: "inv b \<Longrightarrow> current c b = Some r \<Longrightarrow> writer (ident b r) b = Some r"
    and current_inj: "inv b \<Longrightarrow> current c b = Some r \<Longrightarrow> current d b = Some r \<Longrightarrow> c = d"
begin

lemma writer_after_open: "inv b \<Longrightarrow> opn c b = (b', r) \<Longrightarrow> writer (ident b' r) b' = Some r"
  using inv_open [of b c] current_open [of b c] writer_current [of "fst (opn c b)" c] by auto

lemma reopen: "inv b \<Longrightarrow> opn c b = (b', r) \<Longrightarrow> opn c b' = (b', r)"
  using inv_open [of b c] current_open [of b c] open_current [of "fst (opn c b)" c] by auto

lemma open_keeps_others: "inv b \<Longrightarrow> c \<noteq> d \<Longrightarrow> current c b = Some r \<Longrightarrow> snd (opn d b) \<noteq> r"
  using current_open [of b d] current_other [of b c d] inv_open [of b d] current_inj [of "fst (opn d b)" c r d]
  by auto

lemma open_all: "inv b \<Longrightarrow> inv (fold (\<lambda>c b. fst (opn c b)) cs b)"
  by (induction cs arbitrary: b) (auto intro: inv_open)

lemma open_all_current:
  "inv b \<Longrightarrow> c \<in> set cs \<or> current c b \<noteq> None \<Longrightarrow>
   current c (fold (\<lambda>c b. fst (opn c b)) cs b) \<noteq> None"
proof (induction cs arbitrary: b)
  case Nil
  then show ?case by simp
next
  case (Cons d cs)
  have "c \<in> set cs \<or> current c (fst (opn d b)) \<noteq> None"
    using Cons.prems current_open [of b d] current_other [of b c d] by (cases "c = d") auto
  then show ?case using Cons inv_open by simp
qed

end

interpretation br: broker_contract broker_ok "\<lambda>c. OpenReader n sn c sp"
  "\<lambda>b r. streamID (info_of r b)" "\<lambda>i b. streams b i" "\<lambda>c b. subs b c" for n sn sp
proof
  fix b :: "('a, 'b, 'c) broker" and c d r
  assume ok: "broker_ok b"
  show "broker_ok (fst (OpenReader n sn c sp b))" using ok by (rule OpenReader_ok)
  show "subs (fst (OpenReader n sn c sp b)) c = Some (snd (OpenReader n sn c sp b))"
    by (auto simp: OpenReader_def open_lookup_def open_create_simps split: option.splits)
  show "OpenReader n sn c sp b = (b, r)" if "subs b c = Some r"
    using that by (simp add: OpenReader_def open_lookup_def)
  show "subs (fst (OpenReader n sn c sp b)) d = subs b d" if "d \<noteq> c"
    using that by (auto simp: OpenReader_def open_lookup_def open_create_simps split: option.splits)
  show "streams b (streamID (info_of r b)) = Some r" if "subs b c = Some r"
    using ok that by (rule broker_okD)
  show "c = d" if "subs b c = Some r" "subs b d = Some r"
    using broker_okD(2) [OF ok that(1)] broker_okD(2) [OF ok that(2)] by simp
qed

subsection \<open>Properties\<close>

datatype ('n, 'p) broker_op =
    BOpen 'n string channel_id 'p
  | BCloseStream channel_id "go_error option"
  | BClose "stream_id list"

fun broker_apply :: "('n, 'p) broker_op \<Rightarrow> ('n, 'p, 'a) broker \<Rightarrow> ('n, 'p, 'a) broker" where
  "broker_apply (BOpen n sn c sp) b = fst (OpenReader n sn c sp b)"
| "broker_apply (BCloseStream c e) b = fst (CloseStream (\<lambda>_ _. e) c b)"
| "broker_apply (BClose order) b = broker_Close order b"

lemma broker_run_ok: "broker_ok b \<Longrightarrow> broker_ok (fold broker_apply ops b)"
proof (induction ops arbitrary: b)
  case Nil
  then show ?case by simp
next
  case (Cons x xs)
  then have "broker_ok (broker_apply x b)"
    by (cases x) (auto intro: OpenReader_ok CloseStream_ok broker_Close_ok)
  with Cons.IH show ?case by simp
qed

lemma broker_ok_agree:
  assumes "broker_ok b"
  shows "ran (subs b) = ran (streams b) \<and>
   (\<forall>c r. subs b c = Some r \<longleftrightarrow> r \<in> ran (streams b) \<and> channelID (info_of r b) = c) \<and>
   (\<forall>i r. streams b i = Some r \<longleftrightarrow> r \<in> ran (streams b) \<and> streamID (info_of r b) = i) \<and>
   dom (streams b) \<subseteq> {..last_id b}"
proof -
  note d = broker_okD [OF assms]
  have "ran (subs b) = ran (streams b)" using d(3,7) by (fastforce simp: ran_def)
  moreover have "subs b c = Some r \<longleftrightarrow> r \<in> ran (streams b) \<and> channelID (info_of r b) = c" for c r
    using d(2) [of c r] d(3) [of c r] d(7) [of _ r] by (auto simp: ran_def)
  moreover have "streams b i = Some r \<longleftrightarrow> r \<in> ran (streams b) \<and> streamID (info_of r b) = i" for i r
    using d(5) [of _ r] by (auto simp: ran_def)
  moreover have "dom (streams b) \<subseteq> {..last_id b}" using d(6) by auto
  ultimately show ?thesis by (intro conjI allI)
qed

text \<open>
  C32. The broker's two maps stay inverse to each other: after any sequence of \<open>OpenReader\<close>,
  \<open>CloseStream\<close> (whether or not the unsubscription succeeds) and \<open>Close\<close> calls on a new broker,
  the channel map and the stream map hold the same streams, a stream is filed under its own
  channel and its own identifier, and no identifier exceeds the counter.
\<close>

theorem broker_maps_agree:
  "let b = fold broker_apply ops NewBroker in
   ran (subs b) = ran (streams b) \<and>
   (\<forall>c r. subs b c = Some r \<longleftrightarrow> r \<in> ran (streams b) \<and> channelID (info_of r b) = c) \<and>
   (\<forall>i r. streams b i = Some r \<longleftrightarrow> r \<in> ran (streams b) \<and> streamID (info_of r b) = i) \<and>
   dom (streams b) \<subseteq> {..last_id b}"
  unfolding Let_def by (rule broker_ok_agree [OF broker_run_ok [OF broker_ok_new]])

text \<open>
  A stream just opened can be written to: the reader returned by \<open>OpenReader\<close> has an
  identifier under which \<open>GetWriter\<close> finds the same stream, and opening the same channel again
  returns that stream and changes nothing.
\<close>

lemma open_then_write:
  assumes "broker_ok b" "OpenReader n sn c sp b = (b', r)"
  shows "GetWriter (streamID (info_of r b')) b' = Inr r \<and> OpenReader n' sn' c sp' b' = (b', r)"
proof -
  have "streams b' (streamID (info_of r b')) = Some r"
    using br.writer_after_open [OF assms] .
  moreover have "subs b' c = Some r" using br.current_open [OF assms(1), where c = c and n = n and sn = sn and sp = sp] assms(2) by simp
  ultimately show ?thesis by (simp add: GetWriter_def OpenReader_def open_lookup_def)
qed

lemma open_then_write_witness:
  "GetWriter 1 (fst (OpenReader () ''sub'' ''ch'' () (NewBroker :: (unit, unit, unit) broker))) = Inr 0"
proof -
  have o: "OpenReader () ''sub'' ''ch'' () (NewBroker :: (unit, unit, unit) broker) =
      (fst (OpenReader () ''sub'' ''ch'' () NewBroker), 0)"
    by (simp add: OpenReader_def open_lookup_def open_create_def NewBroker_def Let_def)
  then show ?thesis
    using open_then_write [OF broker_ok_new o]
    by (simp add: OpenReader_def open_lookup_def open_create_def NewBroker_def Let_def info_of_def
        newBufferedStream_def)
qed

text \<open>
  Closing a channel retires its stream: when the unsubscription succeeds, the stream is
  closed and neither map knows it any more; when it fails, nothing changes; a later open of
  the channel makes a new stream with an identifier never used before.
\<close>

lemma close_retires_stream:
  assumes "broker_ok b" "subs b c = Some r"
  shows "(case unsub (node (info_of r b)) (subName (info_of r b)) of
     Some e \<Rightarrow> CloseStream unsub c b = (b, Inl e)
   | None \<Rightarrow> \<exists>b'. CloseStream unsub c b = (b', Inr r) \<and> closed (snd (objs b' ! r)) \<and>
        subs b' = (subs b)(c := None) \<and> GetWriter (streamID (info_of r b)) b' = Inl NotFound \<and>
        last_id b < streamID (info_of (snd (OpenReader n sn c sp b')) (fst (OpenReader n sn c sp b'))))"
proof (cases "unsub (node (info_of r b)) (subName (info_of r b))")
  case (Some e)
  then show ?thesis using assms(2) by (simp add: CloseStream_def info_of_def)
next
  case None
  note d = broker_okD [OF assms(1)]
  let ?i = "info_of r b"
  let ?b = "b\<lparr>subs := (subs b)(c := None), streams := (streams b)(streamID ?i := None)\<rparr>"
  have c: "channelID ?i = c" using d(2) assms(2) by blast
  have "CloseStream unsub c b = (close_obj r ?b, Inr r)"
    using None assms(2) c by (simp add: CloseStream_def info_of_def)
  moreover have "closed (snd (objs (close_obj r ?b) ! r))"
    using d(1) [OF assms(2)] by (simp add: close_obj_def stream_Close_def)
  moreover have "OpenReader n sn c sp (close_obj r ?b) = open_create n sn c sp (close_obj r ?b)"
    by (simp add: OpenReader_def open_lookup_def)
  then have "last_id b < streamID (info_of (snd (OpenReader n sn c sp (close_obj r ?b)))
      (fst (OpenReader n sn c sp (close_obj r ?b))))"
    by (simp only: open_create_simps) (simp add: info_of_def open_create_def newBufferedStream_def)
  ultimately show ?thesis using None by (simp add: GetWriter_def)
qed

lemma close_retires_stream_witness:
  "\<exists>b'. CloseStream (\<lambda>_ _. None) ''ch'' (fst (OpenReader () ''sub'' ''ch'' () (NewBroker :: (unit, unit, unit) broker))) =
     (b', Inr 0) \<and> closed (snd (objs b' ! 0))"
proof -
  let ?b = "fst (OpenReader () ''sub'' ''ch'' () (NewBroker :: (unit, unit, unit) broker))"
  have s: "subs ?b ''ch'' = Some 0"
    by (simp add: OpenReader_def open_lookup_def open_create_def NewBroker_def Let_def)
  show ?thesis
    using close_retires_stream [OF OpenReader_ok [OF broker_ok_new] s, of "\<lambda>_ _. None"] by auto
qed

text \<open>
  \<open>ChannelIDs\<close> returns twice as many identifiers as there are subscriptions: one empty
  string for each, and then the channels. The slice is made with that length before the
  channels are appended to it.
\<close>

lemma ChannelIDs_padded:
  assumes "range_order (subs b) order"
  shows "ChannelIDs order b = replicate (length order) [] @ order \<and> set order = dom (subs b)"
proof -
  have "foldl (\<lambda>ids c. ids @ [c]) xs order = xs @ order" for xs
    by (induction order arbitrary: xs) auto
  moreover have "card (dom (subs b)) = length order"
    using assms distinct_card [of order] by (simp add: range_order_def)
  ultimately show ?thesis using assms by (simp add: ChannelIDs_def range_order_def)
qed

lemma ChannelIDs_padded_witness:
  "ChannelIDs [''ch''] (fst (OpenReader () ''sub'' ''ch'' () (NewBroker :: (unit, unit, unit) broker))) = [[], ''ch'']"
proof -
  have "range_order (subs (fst (OpenReader () ''sub'' ''ch'' () (NewBroker :: (unit, unit, unit) broker)))) [''ch'']"
    by (simp add: OpenReader_def open_lookup_def open_create_def NewBroker_def Let_def range_order_def)
  from ChannelIDs_padded [OF this] show ?thesis by simp
qed

text \<open>
  Two concurrent opens of one channel orphan a stream: \<open>OpenReader\<close> checks under the read
  lock and creates under the write lock without checking again, so if both callers look up a
  channel that is not there, each creates a stream; the first caller's stream stays in the
  stream map but \<open>CloseStream\<close> can no longer reach it.
\<close>

lemma open_race_orphans:
  assumes "broker_ok b" "open_lookup c b = None"
    and "open_create n1 s1 c p1 b = (b1, r1)" "open_create n2 s2 c p2 b1 = (b2, r2)"
  shows "r1 \<noteq> r2 \<and> subs b2 c = Some r2 \<and> streams b2 (streamID (info_of r1 b2)) = Some r1 \<and>
    r1 \<notin> ran (subs b2) \<and> \<not> broker_ok b2"
proof -
  have r: "r1 = length (objs b)" "r2 = length (objs b1)" "length (objs b1) = Suc (length (objs b))"
    using open_create_simps [where n = n1 and sn = s1 and c = c and sp = p1 and b = b] open_create_simps [where n = n2 and sn = s2 and c = c and sp = p2 and b = b1] assms(3,4) by auto
  have b2: "subs b2 = (subs b1)(c \<mapsto> r2)" "streams b2 = (streams b1)(last_id b1 + 1 \<mapsto> r2)"
    "info_of r1 b2 = info_of r1 b1"
    using open_create_simps [where n = n2 and sn = s2 and c = c and sp = p2 and b = b1] assms(4) r by auto
  have b1: "subs b1 = (subs b)(c \<mapsto> r1)" "streams b1 = (streams b)(last_id b + 1 \<mapsto> r1)"
    "last_id b1 = last_id b + 1" "streamID (info_of r1 b1) = last_id b + 1"
    "channelID (info_of r1 b1) = c"
    using open_create_simps [where n = n1 and sn = s1 and c = c and sp = p1 and b = b] assms(3) r by auto
  have old: "subs b d \<noteq> Some r1" for d
    using broker_okD(1) [OF assms(1), of d r1] r(1) by auto
  then have "r1 \<notin> ran (subs b2)" using b2(1) b1(1) r by (auto simp: ran_def split: if_splits)
  moreover have "streams b2 (last_id b + 1) = Some r1" using b2(2) b1(2,3) by simp
  moreover from this have "\<not> broker_ok b2"
    using broker_okD(7) [of b2 "last_id b + 1" r1] b2 b1 r by auto
  ultimately show ?thesis using b2 b1 r by simp
qed

lemma open_race_orphans_witness:
  "\<exists>b1 b2 r1 r2. open_create () ''sub'' ''ch'' () (NewBroker :: (unit, unit, unit) broker) = (b1, r1) \<and>
     open_create () ''sub'' ''ch'' () b1 = (b2, r2) \<and> r1 \<notin> ran (subs b2)"
proof -
  obtain b1 r1 where c1: "open_create () ''sub'' ''ch'' () (NewBroker :: (unit, unit, unit) broker) = (b1, r1)"
    by (cases "open_create () ''sub'' ''ch'' () (NewBroker :: (unit, unit, unit) broker)")
  obtain b2 r2 where c2: "open_create () ''sub'' ''ch'' () b1 = (b2, r2)"
    by (cases "open_create () ''sub'' ''ch'' () b1")
  have l: "open_lookup ''ch'' (NewBroker :: (unit, unit, unit) broker) = None"
    by (simp add: open_lookup_def NewBroker_def)
  show ?thesis using c1 c2 open_race_orphans [OF broker_ok_new l c1 c2] by blast
qed

end
