(* ===== verification/Mho_E2_Manager.thy ===== *)
theory Mho_E2_Manager
  imports Mho_Rnib Mho_Options Mho_Broker Mho_Monitor Rc_Pdu
begin

text \<open>
  The rest of \<open>pkg/southbound/e2/manager.go\<close>: topology events, subscriptions and the goroutine
  that feeds a stream (\<open>watchMHOChanges\<close> is in the southbound theory).

  \<open>UnmarshalAny\<close> and \<open>node.Subscribe\<close> are calls of libraries, given as functions. Monitors,
  watchers and feeding goroutines are started with \<open>go\<close>: starting one is an effect in the
  result, and what they do is the subject of their own theories.
\<close>

subsection \<open>Finding the RC function of a node\<close>

text \<open>\<open>strings.ToLower\<close> on ASCII names.\<close>

definition lower_char :: "char \<Rightarrow> char" where
  "lower_char c = (if c \<in> set ''ABCDEFGHIJKLMNOPQRSTUVWXYZ'' then char_of (of_char c + 32 :: nat) else c)"

definition ToLower :: "string \<Rightarrow> string" where
  "ToLower s = map lower_char s"

text \<open>The generated getter returns the field it is compared with.\<close>

definition GetTypeUrl :: "any_msg \<Rightarrow> string" where
  "GetTypeUrl f = TypeUrl f"

primrec first_ran_function ::
  "(any_msg \<Rightarrow> go_error + 'f) \<Rightarrow> any_msg list \<Rightarrow> (go_error + 'f) option" where
  "first_ran_function unmarshal [] = None"
| "first_ran_function unmarshal (f # fs) =
     (if TypeUrl f = GetTypeUrl f then Some (unmarshal f) else first_ran_function unmarshal fs)"

primrec ran_function_loop ::
  "(any_msg \<Rightarrow> go_error + 'f) \<Rightarrow> string \<Rightarrow> service_model list \<Rightarrow> go_error + 'f" where
  "ran_function_loop unmarshal name [] = Inl NotFound"
| "ran_function_loop unmarshal name (sm # sms) =
     (if ToLower (SmName sm) = name \<and> SmOID sm = oid
      then (case first_ran_function unmarshal (RanFunctions sm) of
              Some r \<Rightarrow> r
            | None \<Rightarrow> ran_function_loop unmarshal name sms)
      else ran_function_loop unmarshal name sms)"

definition getRanFunction ::
  "(any_msg \<Rightarrow> go_error + 'f) \<Rightarrow> e2_manager \<Rightarrow> sm_order \<Rightarrow> (string \<rightharpoonup> service_model) \<Rightarrow> go_error + 'f"
  where
  "getRanFunction unmarshal em ord sms =
     ran_function_loop unmarshal (SM_Name (EM_serviceModel em)) (ranged sms (ord sms))"

subsection \<open>Subscriptions\<close>

record sub_spec =
  SubActions :: "action list"
  EventTriggerPayload :: octets

record 'f e2_env =
  env_pdu :: pdubuilder
  env_topo :: topo_client
  env_ord :: sm_order
  env_unmarshal :: "any_msg \<Rightarrow> go_error + 'f"
  env_Subscribe :: "node_id \<Rightarrow> string \<Rightarrow> sub_spec \<Rightarrow> go_error + channel_id"

type_synonym e2_broker = "(node_id, sub_spec, indication) broker"

text \<open>What a subscription leaves behind: the broker with the stream, the identifier handed to the
  feeding goroutine, the stream handed to the monitor, and the monitor itself.\<close>

record started =
  st_broker :: e2_broker
  st_feeds :: stream_id
  st_reader :: sref
  st_monitor :: monitor

text \<open>
  \<open>createSubscription\<close> up to \<open>monitor.Start\<close>, which runs until it ends with an error that is
  only logged. A failure to build the actions is only logged too: the subscription then goes
  out with the nil slice. \<open>OpenReader\<close> never returns an error.
\<close>

definition createSubscription ::
  "'f e2_env \<Rightarrow> e2_manager \<Rightarrow> node_id \<Rightarrow> e2_broker \<Rightarrow> go_error + started" where
  "createSubscription v em e2nodeID b =
     err_bind (CreateEventTriggerDefinition (env_pdu v)) (\<lambda>eventTriggerData.
     err_bind (GetE2NodeAspects (env_topo v) e2nodeID) (\<lambda>aspects.
     err_bind (getRanFunction (env_unmarshal v) em (env_ord v) (ServiceModels aspects)) (\<lambda>_.
     let actions = (case CreateSubscriptionAction (env_pdu v) of Inl e \<Rightarrow> [] | Inr a \<Rightarrow> a);
         subName = ''onos-mho-subscription'';
         subSpec = \<lparr>SubActions = actions, EventTriggerPayload = eventTriggerData\<rparr>
     in err_bind (env_Subscribe v e2nodeID subName subSpec) (\<lambda>channelID.
        let (b', reader) = OpenReader e2nodeID subName channelID subSpec b
        in Inr \<lparr>st_broker = b', st_feeds = streamID (info_of reader b'), st_reader = reader,
                st_monitor = NewMonitor [WithAppConfig (EM_appConfig em), WithNode (Some e2nodeID),
                  WithStreamReader (Some reader), WithNodeID e2nodeID,
                  WithRNIBClient (EM_rnibClient em), WithMetricStore (EM_metricStore em)]\<rparr>))))"

definition newSubscription ::
  "'f e2_env \<Rightarrow> e2_manager \<Rightarrow> node_id \<Rightarrow> e2_broker \<Rightarrow> go_error + started" where
  "newSubscription v em e2NodeID b = createSubscription v em e2NodeID b"

subsection \<open>Feeding a stream\<close>

text \<open>
  \<open>sendIndicationOnStream\<close> receives from the subscription channel and sends to the stream until
  the first error. Between two messages the other users of the stream may run: each message
  comes with what they did before it. The result has the messages that were sent, and whether
  the goroutine has returned, after which nobody receives from the channel.
\<close>

primrec feed_loop ::
  "(('a stream \<Rightarrow> 'a stream) \<times> 'a) list \<Rightarrow> 'a stream \<Rightarrow> 'a stream \<times> 'a list \<times> bool" where
  "feed_loop [] s = (s, [], False)"
| "feed_loop (x # xs) s =
     (let (env, msg) = x; (s', r) = stream_Send msg (env s) in
      case r of
        Inl e \<Rightarrow> (s', [], True)
      | Inr _ \<Rightarrow> (let (s'', sent, stopped) = feed_loop xs s' in (s'', msg # sent, stopped)))"

definition sendIndicationOnStream ::
  "stream_id \<Rightarrow> (('a stream \<Rightarrow> 'a stream) \<times> 'a) list \<Rightarrow> ('n, 'p, 'a) broker
     \<Rightarrow> 'a stream option \<times> 'a list \<times> bool" where
  "sendIndicationOnStream i msgs b =
     (case GetWriter i b of
        Inl e \<Rightarrow> (None, [], True)
      | Inr r \<Rightarrow> (let (s, sent, stopped) = feed_loop msgs (snd (objs b ! r)) in (Some s, sent, stopped)))"

subsection \<open>Topology events\<close>

datatype topo_event_type = T_NONE | T_ADDED | T_UPDATED | T_REMOVED

record topo_event =
  TopoType :: topo_event_type
  TopoObject :: topo_object

definition relation_target :: "topo_event \<Rightarrow> node_id go" where
  "relation_target ev =
     (case Obj (TopoObject ev) of Object_Relation (Some r) \<Rightarrow> Ret (TgtEntityID r) | _ \<Rightarrow> Panic)"

text \<open>One turn of the loop: the nodes for which it starts a subscription and a watcher, and the
  error if it returns one.\<close>

definition topo_turn ::
  "'f e2_env \<Rightarrow> topo_event \<Rightarrow> (node_id list \<times> go_error option) go" where
  "topo_turn v topoEvent =
     (if TopoType topoEvent = T_ADDED \<or> TopoType topoEvent = T_NONE then
        go_bind (relation_target topoEvent) (\<lambda>e2NodeID.
        if \<not> HasRcRANFunction (env_topo v) (env_ord v) e2NodeID oid then Ret ([], None)
        else Ret ([e2NodeID], None))
      else if TopoType topoEvent = T_REMOVED then
        go_bind (relation_target topoEvent) (\<lambda>e2NodeID.
        if \<not> HasRcRANFunction (env_topo v) (env_ord v) e2NodeID oid then Ret ([], None)
        else (case rnib_GetCells (env_topo v) e2NodeID of
                Inl e \<Rightarrow> Ret ([], Some e)
              | Inr cellIDs \<Rightarrow> Ret ([], None)))
      else Ret ([], None))"

text \<open>The loop over the events received so far: the nodes started, and the error if it ended.\<close>

fun topo_loop :: "'f e2_env \<Rightarrow> topo_event list \<Rightarrow> (node_id list \<times> go_error option) go" where
  "topo_loop v [] = Ret ([], None)"
| "topo_loop v (ev # evs) =
     go_bind (topo_turn v ev) (\<lambda>(ns, r).
     case r of
       Some e \<Rightarrow> Ret (ns, Some e)
     | None \<Rightarrow> go_bind (topo_loop v evs) (\<lambda>(ms, r'). Ret (ns @ ms, r')))"

text \<open>
  \<open>watchE2Connections\<close> and the goroutine of \<open>Start\<close> around it: the second component says whether
  the context was cancelled, which happens as soon as the loop returns. A manager without an
  R-NIB client (the zero value) dereferences nil.
\<close>

definition watchE2Connections ::
  "'f e2_env \<Rightarrow> e2_manager \<Rightarrow> topo_event list \<Rightarrow> (node_id list \<times> go_error option) go" where
  "watchE2Connections v em evs =
     (case EM_rnibClient em of
        None \<Rightarrow> Panic
      | Some _ \<Rightarrow>
          (case WatchE2Connections (env_topo v) of
             Some e \<Rightarrow> Ret ([], Some e)
           | None \<Rightarrow> topo_loop v evs))"

definition e2_Start :: "'f e2_env \<Rightarrow> e2_manager \<Rightarrow> topo_event list \<Rightarrow> (node_id list \<times> bool) go" where
  "e2_Start v em evs =
     go_bind (watchE2Connections v em evs) (\<lambda>(ns, r). Ret (ns, r \<noteq> None))"

definition e2_Stop :: "e2_manager \<Rightarrow> (go_error + unit) go" where
  "e2_Stop em = Panic"

subsection \<open>Facts about the loops\<close>

lemma first_ran_function_hd:
  "first_ran_function u fs = (case fs of [] \<Rightarrow> None | f # _ \<Rightarrow> Some (u f))"
  by (cases fs) (simp_all add: GetTypeUrl_def)

definition matches :: "string \<Rightarrow> service_model \<Rightarrow> bool" where
  "matches name sm \<longleftrightarrow> ToLower (SmName sm) = name \<and> SmOID sm = oid"

lemma ran_function_loop_cases:
  "(\<exists>sm \<in> set sms. \<exists>f fs. matches name sm \<and> RanFunctions sm = f # fs \<and> ran_function_loop u name sms = u f)
   \<or> (\<forall>sm \<in> set sms. matches name sm \<longrightarrow> RanFunctions sm = []) \<and>
     ran_function_loop u name sms = Inl NotFound"
proof (induction sms)
  case Nil
  then show ?case by simp
next
  case (Cons sm sms)
  show ?case
  proof (cases "matches name sm \<and> RanFunctions sm \<noteq> []")
    case True
    then show ?thesis
      by (intro disjI1 bexI [of _ sm]) (auto simp: matches_def first_ran_function_hd split: list.split)
  next
    case False
    then have "ran_function_loop u name (sm # sms) = ran_function_loop u name sms"
      by (auto simp: matches_def first_ran_function_hd)
    with Cons False show ?thesis by auto
  qed
qed

lemma feed_loop_prefix:
  "feed_loop xs s = (t, sent, stopped) \<Longrightarrow>
   sent = take (length sent) (map snd xs) \<and> (stopped \<or> sent = map snd xs)"
proof (induction xs arbitrary: s t sent stopped)
  case Nil
  then show ?case by simp
next
  case (Cons x xs)
  obtain env msg where x: "x = (env, msg)" by (cases x)
  obtain s' r where send: "stream_Send msg (env s) = (s', r)" by (cases "stream_Send msg (env s)")
  show ?case
  proof (cases r)
    case (Inl e)
    then show ?thesis using Cons.prems x send by simp
  next
    case (Inr u)
    obtain t' sent' stopped' where rest: "feed_loop xs s' = (t', sent', stopped')"
      by (cases "feed_loop xs s'")
    then have "sent = msg # sent'" "stopped = stopped'" using Cons.prems x send Inr by auto
    with Cons.IH [OF rest] x show ?thesis by auto
  qed
qed

lemma feed_loop_stopped:
  "feed_loop xs s = (t, sent, True) \<Longrightarrow> feed_loop (xs @ ys) s = (t, sent, True)"
proof (induction xs arbitrary: s t sent)
  case Nil
  then show ?case by simp
next
  case (Cons x xs)
  obtain env msg where x: "x = (env, msg)" by (cases x)
  obtain s' r where send: "stream_Send msg (env s) = (s', r)" by (cases "stream_Send msg (env s)")
  show ?case
  proof (cases r)
    case (Inl e)
    with Cons.prems x send show ?thesis by simp
  next
    case (Inr u)
    obtain t' sent' stopped' where rest: "feed_loop xs s' = (t', sent', stopped')"
      by (cases "feed_loop xs s'")
    with Cons.prems x send Inr have "stopped'" "t = t'" "sent = msg # sent'" by auto
    with Cons.IH [of s' t' sent'] rest x send Inr show ?thesis by simp
  qed
qed

text \<open>With nobody draining the stream, it takes what fits.\<close>

lemma feed_loop_burst:
  "\<not> closed s \<Longrightarrow> length (buffer s) \<le> bufferMaxSize \<Longrightarrow>
   snd (feed_loop (map (Pair (\<lambda>s. s)) ms) s) =
     (take (bufferMaxSize - length (buffer s)) ms, bufferMaxSize - length (buffer s) < length ms)"
proof (induction ms arbitrary: s)
  case Nil
  then show ?case by simp
next
  case (Cons m ms)
  show ?case
  proof (cases "length (buffer s) = bufferMaxSize")
    case True
    with Cons.prems show ?thesis by (simp add: stream_Send_def)
  next
    case False
    let ?s = "signal (s\<lparr>buffer := buffer s @ [m]\<rparr>)"
    have s: "closed ?s = closed s" "buffer ?s = buffer s @ [m]" by (simp_all add: signal_def)
    have "bufferMaxSize - length (buffer s) = Suc (bufferMaxSize - length (buffer ?s))"
      using Cons.prems False s by simp
    moreover have "snd (feed_loop (map (Pair (\<lambda>s. s)) ms) ?s) =
        (take (bufferMaxSize - length (buffer ?s)) ms, bufferMaxSize - length (buffer ?s) < length ms)"
      using Cons.prems False s by (intro Cons.IH) simp_all
    ultimately show ?thesis
      using Cons.prems False
      by (cases "feed_loop (map (Pair (\<lambda>s. s)) ms) ?s") (simp add: stream_Send_def)
  qed
qed

lemma topo_loop_append:
  "topo_loop v (es @ fs) =
     go_bind (topo_loop v es) (\<lambda>(ns, r). case r of Some e \<Rightarrow> Ret (ns, Some e)
        | None \<Rightarrow> go_bind (topo_loop v fs) (\<lambda>(ms, r'). Ret (ns @ ms, r')))"
proof (induction es)
  case Nil
  then show ?case by (cases "topo_loop v fs") auto
next
  case (Cons e es)
  show ?case
  proof (cases "topo_turn v e")
    case (Ret x)
    obtain ns r where "x = (ns, r)" by (cases x)
    with Ret Cons show ?thesis
      by (cases r; cases "topo_loop v es"; cases "topo_loop v fs") (auto split: option.splits)
  qed simp_all
qed

subsection \<open>A concrete environment\<close>

definition sample_env :: "unit e2_env" where
  "sample_env = \<lparr>env_pdu = sample_pdu, env_topo = sample_topo [''n1'', ''n2''], env_ord = sample_order,
     env_unmarshal = (\<lambda>_. Inr ()), env_Subscribe = (\<lambda>n _ _. Inr (n @ ''-ch''))\<rparr>"

definition sample_manager :: e2_manager where
  "sample_manager = e2_manager_zero\<lparr>EM_rnibClient := Some 1, EM_metricStore := Some 2,
     EM_serviceModel := \<lparr>SM_Name = ''oran-e2sm-rc'', SM_Version = ''v1''\<rparr>\<rparr>"

definition relation_event :: "topo_event_type \<Rightarrow> node_id \<Rightarrow> topo_event" where
  "relation_event t n = \<lparr>TopoType = t, TopoObject = control_relation n\<rparr>"

lemma sample_ran_function:
  "getRanFunction (\<lambda>_. Inr ()) sample_manager sample_order [''rc'' \<mapsto> rc_model] = Inr ()"
  by (simp add: getRanFunction_def sample_manager_def sample_order_def rc_model_def GetTypeUrl_def)
    (simp add: ToLower_def lower_char_def)

lemma sample_subscription:
  "createSubscription sample_env sample_manager ''n1'' NewBroker =
     (let (b, r) = OpenReader ''n1'' ''onos-mho-subscription'' ''n1-ch''
            \<lparr>SubActions = [\<lparr>ActionID = RicActionID, ActionPayload = [4]\<rparr>], EventTriggerPayload = [3]\<rparr> NewBroker
      in Inr \<lparr>st_broker = b, st_feeds = streamID (info_of r b), st_reader = r,
           st_monitor = NewMonitor [WithAppConfig None, WithNode (Some ''n1''), WithStreamReader (Some r),
             WithNodeID ''n1'', WithRNIBClient (Some 1), WithMetricStore (Some 2)]\<rparr>)"
proof -
  have "GetE2NodeAspects (env_topo sample_env) ''n1'' = Inr \<lparr>ServiceModels = [''rc'' \<mapsto> rc_model]\<rparr>"
    by (simp add: GetE2NodeAspects_def sample_env_def sample_topo_def)
  moreover have "CreateEventTriggerDefinition (env_pdu sample_env) = Inr [3]"
    "CreateSubscriptionAction (env_pdu sample_env) = Inr [\<lparr>ActionID = RicActionID, ActionPayload = [4]\<rparr>]"
    by (simp_all add: sample_env_def sample_pdu_def CreateEventTriggerDefinition_def
        CreateSubscriptionAction_def)
  moreover have "getRanFunction (env_unmarshal sample_env) sample_manager (env_ord sample_env)
      [''rc'' \<mapsto> rc_model] = Inr ()"
    using sample_ran_function by (simp add: sample_env_def)
  moreover have "EM_appConfig sample_manager = None" "EM_rnibClient sample_manager = Some 1"
    "EM_metricStore sample_manager = Some 2"
    by (simp_all add: sample_manager_def e2_manager_zero_def)
  ultimately show ?thesis
    by (simp add: createSubscription_def Let_def sample_env_def)
qed

subsection \<open>Properties\<close>

text \<open>
  C33. A subscription is set up exactly when its event trigger could be built, the topology has
  the node with a RAN function that can be read, and the node accepted it; that its actions
  could not be built does not stop it: it then goes out with none. It is wired through: the node
  was asked under the fixed name with the built trigger and actions; the stream identifier given to
  the feeding goroutine is the writer of the very stream that the new monitor reads, which is the one
  of the channel the node answered with; and the monitor has the manager's metric store, R-NIB client
  and configuration and the node's identifier.
\<close>

theorem createSubscription_wired:
  assumes "broker_ok b"
  shows "((\<exists>st. createSubscription v em n b = Inr st) \<longleftrightarrow>
     (\<exists>trigger aspects f ch. CreateEventTriggerDefinition (env_pdu v) = Inr trigger \<and>
       GetE2NodeAspects (env_topo v) n = Inr aspects \<and>
       getRanFunction (env_unmarshal v) em (env_ord v) (ServiceModels aspects) = Inr f \<and>
       env_Subscribe v n ''onos-mho-subscription'' \<lparr>SubActions = (case CreateSubscriptionAction (env_pdu v) of Inl e \<Rightarrow> [] | Inr a \<Rightarrow> a),
           EventTriggerPayload = trigger\<rparr> = Inr ch)) \<and>
   (\<forall>st. createSubscription v em n b = Inr st \<longrightarrow>
     (\<exists>trigger. CreateEventTriggerDefinition (env_pdu v) = Inr trigger \<and>
       env_Subscribe v n ''onos-mho-subscription'' \<lparr>SubActions = (case CreateSubscriptionAction (env_pdu v) of Inl e \<Rightarrow> [] | Inr a \<Rightarrow> a),
           EventTriggerPayload = trigger\<rparr> = Inr (channelID (info_of (st_reader st) (st_broker st)))) \<and>
     GetWriter (st_feeds st) (st_broker st) = Inr (st_reader st) \<and>
     st_monitor st = \<lparr>mon_streamReader = Some (st_reader st), mon_appConfig = EM_appConfig em,
       mon_metricStore = EM_metricStore em, mon_nodeID = n, mon_rnibClient = EM_rnibClient em\<rparr> \<and>
     broker_ok (st_broker st))"
proof (intro conjI allI impI)
  let ?spec = "\<lambda>t. \<lparr>SubActions = (case CreateSubscriptionAction (env_pdu v) of Inl e \<Rightarrow> [] | Inr a \<Rightarrow> a),
        EventTriggerPayload = t\<rparr>"
  show "(\<exists>st. createSubscription v em n b = Inr st) \<longleftrightarrow>
     (\<exists>trigger aspects f ch. CreateEventTriggerDefinition (env_pdu v) = Inr trigger \<and>
       GetE2NodeAspects (env_topo v) n = Inr aspects \<and>
       getRanFunction (env_unmarshal v) em (env_ord v) (ServiceModels aspects) = Inr f \<and>
       env_Subscribe v n ''onos-mho-subscription'' (?spec trigger) = Inr ch)"
    by (auto simp: createSubscription_def go_simps Let_def split_beta)
next
  fix st
  let ?spec = "\<lambda>t. \<lparr>SubActions = (case CreateSubscriptionAction (env_pdu v) of Inl e \<Rightarrow> [] | Inr a \<Rightarrow> a),
        EventTriggerPayload = t\<rparr>"
  assume st: "createSubscription v em n b = Inr st"
  then obtain t ch where o: "CreateEventTriggerDefinition (env_pdu v) = Inr t"
    "env_Subscribe v n ''onos-mho-subscription'' (?spec t) = Inr ch"
    "(let (b', r) = OpenReader n ''onos-mho-subscription'' ch (?spec t) b in
      st = \<lparr>st_broker = b', st_feeds = streamID (info_of r b'), st_reader = r,
        st_monitor = NewMonitor [WithAppConfig (EM_appConfig em), WithNode (Some n), WithStreamReader (Some r),
          WithNodeID n, WithRNIBClient (EM_rnibClient em), WithMetricStore (EM_metricStore em)]\<rparr>)"
    by (auto simp: createSubscription_def go_simps Let_def split_beta)
  obtain b' r where s: "OpenReader n ''onos-mho-subscription'' ch (?spec t) b = (b', r)"
    "st = \<lparr>st_broker = b', st_feeds = streamID (info_of r b'), st_reader = r,
        st_monitor = NewMonitor [WithAppConfig (EM_appConfig em), WithNode (Some n), WithStreamReader (Some r),
          WithNodeID n, WithRNIBClient (EM_rnibClient em), WithMetricStore (EM_metricStore em)]\<rparr>"
    using o(3) by (cases "OpenReader n ''onos-mho-subscription'' ch (?spec t) b") simp
  have ok: "broker_ok b'" using OpenReader_ok [OF assms(1)] s(1) by (metis fst_conv)
  then show "broker_ok (st_broker st)" by (simp add: s(2))
  have "subs b' ch = Some r"
    using br.current_open [OF assms(1), where c = ch and n = n and sp = "?spec t" and sn = "''onos-mho-subscription''"] s(1)
    by (metis fst_conv snd_conv)
  then have c: "channelID (info_of r b') = ch" "streams b' (streamID (info_of r b')) = Some r"
    using broker_okD(2,3) [OF ok] by auto
  then show "GetWriter (st_feeds st) (st_broker st) = Inr (st_reader st)" by (simp add: s(2) GetWriter_def)
  show "\<exists>trigger. CreateEventTriggerDefinition (env_pdu v) = Inr trigger \<and>
       env_Subscribe v n ''onos-mho-subscription'' (?spec trigger) = Inr (channelID (info_of (st_reader st) (st_broker st)))"
    using o(1,2) c(1) by (simp add: s(2))
  show "st_monitor st = \<lparr>mon_streamReader = Some (st_reader st), mon_appConfig = EM_appConfig em,
       mon_metricStore = EM_metricStore em, mon_nodeID = n, mon_rnibClient = EM_rnibClient em\<rparr>"
    by (simp add: s(2) NewMonitor_def apply_options_fold option_defs mon_zero_def Let_def)
qed

text \<open>The subscription goes out although its actions cannot be built.\<close>

definition actionless_env :: "unit e2_env" where
  "actionless_env = sample_env\<lparr>env_pdu := sample_pdu\<lparr>MarshalAction := \<lambda>_. Inl (External ''marshal'')\<rparr>\<rparr>"

theorem createSubscription_wired_witness:
  "CreateSubscriptionAction (env_pdu actionless_env) = Inl (External ''marshal'') \<and>
   (\<exists>st. createSubscription actionless_env sample_manager ''n1'' NewBroker = Inr st \<and>
     GetWriter (st_feeds st) (st_broker st) = Inr (st_reader st))"
proof -
  have f: "CreateSubscriptionAction (env_pdu actionless_env) = Inl (External ''marshal'')"
    by (simp add: actionless_env_def sample_pdu_def CreateSubscriptionAction_def)
  have t: "CreateEventTriggerDefinition (env_pdu actionless_env) = Inr [3]"
    by (simp add: actionless_env_def sample_pdu_def CreateEventTriggerDefinition_def)
  have a: "GetE2NodeAspects (env_topo actionless_env) ''n1'' = Inr \<lparr>ServiceModels = [''rc'' \<mapsto> rc_model]\<rparr>"
    by (simp add: GetE2NodeAspects_def actionless_env_def sample_env_def sample_topo_def)
  have r: "getRanFunction (env_unmarshal actionless_env) sample_manager (env_ord actionless_env) [''rc'' \<mapsto> rc_model] = Inr ()"
    using sample_ran_function by (simp add: actionless_env_def sample_env_def)
  have "env_Subscribe actionless_env ''n1'' name sp = Inr ''n1-ch''" for name sp
    by (simp add: actionless_env_def sample_env_def)
  then obtain st where st: "createSubscription actionless_env sample_manager ''n1'' NewBroker = Inr st"
    using createSubscription_wired [OF broker_ok_new, of actionless_env sample_manager "''n1''"] t a r by fastforce
  then have "GetWriter (st_feeds st) (st_broker st) = Inr (st_reader st)"
    using createSubscription_wired [OF broker_ok_new, of actionless_env sample_manager "''n1''"] by blast
  then show ?thesis using f st by blast
qed

text \<open>
  C34. A burst stops a subscription for good: the feeding goroutine returns at the first refused
  indication. If more indications arrive, with nobody draining the stream, than its buffer has
  room for, exactly those that fit are sent and the goroutine is gone, so that later
  indications of the node are never received, however much room there is by then.
\<close>

theorem burst_stops_feed:
  assumes "GetWriter i b = Inr r" "\<not> closed (snd (objs b ! r))"
    and "length (buffer (snd (objs b ! r))) \<le> 10000"
    and "10000 < length (buffer (snd (objs b ! r))) + length burst"
  shows "snd (sendIndicationOnStream i (map (Pair (\<lambda>s. s)) burst @ later) b) =
     (take (10000 - length (buffer (snd (objs b ! r)))) burst, True)"
proof -
  let ?s = "snd (objs b ! r)"
  have burst: "snd (feed_loop (map (Pair (\<lambda>s. s)) burst) ?s) =
      (take (10000 - length (buffer ?s)) burst, True)"
    using feed_loop_burst [OF assms(2), of burst] assms(3,4) by (simp add: bufferMaxSize_def)
  then obtain t where "feed_loop (map (Pair (\<lambda>s. s)) burst) ?s = (t, take (10000 - length (buffer ?s)) burst, True)"
    by (cases "feed_loop (map (Pair (\<lambda>s. s)) burst) ?s") simp
  then have "feed_loop (map (Pair (\<lambda>s. s)) burst @ later) ?s = (t, take (10000 - length (buffer ?s)) burst, True)"
    by (rule feed_loop_stopped)
  then show ?thesis using assms(1) by (simp add: sendIndicationOnStream_def)
qed

theorem burst_stops_feed_witness:
  "snd (sendIndicationOnStream 1 (map (Pair (\<lambda>s. s)) (replicate 10001 ()) @ [(\<lambda>s. newBufferedWriter, ())])
     (fst (OpenReader () ''sub'' ''ch'' () NewBroker))) = (replicate 10000 (), True)"
proof -
  let ?b = "fst (OpenReader () ''sub'' ''ch'' () (NewBroker :: (unit, unit, unit) broker))"
  have b: "GetWriter 1 ?b = Inr 0" "snd (objs ?b ! 0) = newBufferedWriter"
    by (simp_all add: OpenReader_def open_lookup_def open_create_def NewBroker_def Let_def
        newBufferedStream_def GetWriter_def)
  show ?thesis
    using burst_stops_feed [OF b(1), of "replicate 10001 ()" "[(\<lambda>s. newBufferedWriter, ())]"]
    by (simp add: b(2) newBufferedWriter_def)
qed

text \<open>
  A departing node can end the whole southbound: when a node with the RC function is removed
  and its cells cannot be listed (they are NotFound once the topology has dropped them), the
  topology watch returns; no node announced later is served, and the context of every
  subscription and watcher started so far is cancelled.
\<close>

lemma removal_ends_watch:
  assumes "EM_rnibClient em \<noteq> None" "WatchE2Connections (env_topo v) = None"
    and "topo_loop v before = Ret (ns, None)"
    and "TopoType ev = T_REMOVED" "relation_target ev = Ret n"
    and "HasRcRANFunction (env_topo v) (env_ord v) n oid" "rnib_GetCells (env_topo v) n = Inl e"
  shows "e2_Start v em (before @ ev # later) = Ret (ns, True)"
proof -
  have "topo_turn v ev = Ret ([], Some e)" using assms(4-7) by (simp add: topo_turn_def)
  then have "topo_loop v (before @ ev # later) = Ret (ns, Some e)"
    using assms(3) by (simp add: topo_loop_append)
  then show ?thesis using assms(1,2) by (auto simp: e2_Start_def watchE2Connections_def)
qed

text \<open>
  C35. Which RAN function counts: in whatever order the service models are visited, the result is
  what decoding the first function of some model with the configured name and the RC object
  identifier returns, be it an error; and it is NotFound when no such model has a function.
  The type test in the loop compares a field with itself, so a model whose first function is of
  another type hides the ones after it.
\<close>

theorem getRanFunction_first:
  assumes "range_order sms (ord sms)"
  shows "(\<exists>k sm f fs. sms k = Some sm \<and> ToLower (SmName sm) = SM_Name (EM_serviceModel em) \<and>
       SmOID sm = oid \<and> RanFunctions sm = f # fs \<and> getRanFunction u em ord sms = u f)
   \<or> getRanFunction u em ord sms = Inl NotFound \<and>
     (\<forall>k sm. sms k = Some sm \<and> ToLower (SmName sm) = SM_Name (EM_serviceModel em) \<and> SmOID sm = oid
        \<longrightarrow> RanFunctions sm = [])"
proof -
  let ?name = "SM_Name (EM_serviceModel em)"
  have ran: "set (ranged sms (ord sms)) = ran sms" by (rule set_ranged_order [OF assms])
  have g: "getRanFunction u em ord sms = ran_function_loop u ?name (ranged sms (ord sms))"
    by (simp add: getRanFunction_def)
  from ran_function_loop_cases [of "ranged sms (ord sms)" ?name u] show ?thesis
  proof
    assume "\<exists>sm \<in> set (ranged sms (ord sms)). \<exists>f fs. matches ?name sm \<and> RanFunctions sm = f # fs \<and>
      ran_function_loop u ?name (ranged sms (ord sms)) = u f"
    then show ?thesis unfolding ran g by (intro disjI1) (auto simp: matches_def ran_def)
  next
    assume "(\<forall>sm \<in> set (ranged sms (ord sms)). matches ?name sm \<longrightarrow> RanFunctions sm = []) \<and>
      ran_function_loop u ?name (ranged sms (ord sms)) = Inl NotFound"
    then show ?thesis unfolding ran g by (intro disjI2) (auto simp: matches_def ran_def)
  qed
qed

theorem getRanFunction_first_witness:
  "\<exists>k sm. [''rc'' \<mapsto> rc_model] k = Some sm \<and> SmOID sm = oid \<and> RanFunctions sm \<noteq> [] \<and>
     getRanFunction (\<lambda>_. Inr ()) sample_manager sample_order [''rc'' \<mapsto> rc_model] = Inr ()"
proof -
  have "range_order [''rc'' \<mapsto> rc_model] (sample_order [''rc'' \<mapsto> rc_model])"
    by (simp add: range_order_def sample_order_def)
  from getRanFunction_first [where sms = "[''rc'' \<mapsto> rc_model]" and ord = sample_order, OF this,
      of sample_manager "\<lambda>_. Inr ()"] sample_ran_function
  show ?thesis by (metis list.distinct(1) sum.distinct(1))
qed

end
