(* ===== verification/Mho_Config.thy ===== *)
theory Mho_Config
  imports Prelude
begin

text \<open>
  \<open>pkg/config/config.go\<close>: the typed view of the application configuration.

  The SDK registers the configuration and answers \<open>Get\<close>; its \<open>ToUint64\<close> converts a value.
  They are not part of the repository: \<open>app_config\<close> holds them as functions. A value is an
  \<open>interface{}\<close> of which the source only asks whether it is a \<open>bool\<close>.
\<close>

datatype 'v cfg_value = BoolValue bool | OtherValue 'v

record 'v app_config =
  cfg_Get :: "string \<Rightarrow> go_error + 'v cfg_value"
  cfg_ToUint64 :: "'v cfg_value \<Rightarrow> go_error + uint64"
  cfg_Watch :: "go_error option"

definition ReportingPeriodConfigPath :: string where
  "ReportingPeriodConfigPath = ''reportingPeriod''"
definition PeriodicConfigPath :: string where
  "PeriodicConfigPath = ''periodic''"
definition UponRcvMeasConfigPath :: string where
  "UponRcvMeasConfigPath = ''uponRcvMeasReport''"
definition UponChangeRrcStatusConfigPath :: string where
  "UponChangeRrcStatusConfigPath = ''uponChangeRrcStatus''"
definition A3OffsetRangeConfigPath :: string where
  "A3OffsetRangeConfigPath = ''A3OffsetRange''"
definition HysteresisRangeConfigPath :: string where
  "HysteresisRangeConfigPath = ''HysteresisRange''"
definition CellIndividualOffsetConfigPath :: string where
  "CellIndividualOffsetConfigPath = ''CellIndividualOffset''"
definition FrequencyOffsetConfigPath :: string where
  "FrequencyOffsetConfigPath = ''FrequencyOffset''"
definition TimeToTriggerConfigPath :: string where
  "TimeToTriggerConfigPath = ''TimeToTrigger''"

lemmas config_paths =
  ReportingPeriodConfigPath_def PeriodicConfigPath_def UponRcvMeasConfigPath_def
  UponChangeRrcStatusConfigPath_def A3OffsetRangeConfigPath_def HysteresisRangeConfigPath_def
  CellIndividualOffsetConfigPath_def FrequencyOffsetConfigPath_def TimeToTriggerConfigPath_def

text \<open>What the registry hands back under the path; the type assertion panics on anything else
  than an application configuration.\<close>

datatype 'v registered = AppConfig "'v app_config" | OtherConfig

definition NewConfig ::
  "(string \<Rightarrow> go_error + 'v registered) \<Rightarrow> string \<Rightarrow> 'v app_config go" where
  "NewConfig registerConfigurable configPath =
     (case registerConfigurable configPath of
        Inl e \<Rightarrow> Fail e
      | Inr (AppConfig c) \<Rightarrow> Ret c
      | Inr OtherConfig \<Rightarrow> Panic)"

definition config_Watch :: "'v app_config \<Rightarrow> go_error option" where
  "config_Watch c = (case cfg_Watch c of Some e \<Rightarrow> Some e | None \<Rightarrow> None)"

subsection \<open>The getters\<close>

definition GetReportingPeriod :: "'v app_config \<Rightarrow> go_error + uint64" where
  "GetReportingPeriod c =
     (case cfg_Get c ReportingPeriodConfigPath of
        Inl e \<Rightarrow> Inl e
      | Inr interval \<Rightarrow> (case cfg_ToUint64 c interval of Inl e \<Rightarrow> Inl e | Inr val \<Rightarrow> Inr val))"

definition GetPeriodic :: "'v app_config \<Rightarrow> bool" where
  "GetPeriodic c =
     (case cfg_Get c PeriodicConfigPath of
        Inl e \<Rightarrow> False
      | Inr p \<Rightarrow> (case p of BoolValue b \<Rightarrow> b | _ \<Rightarrow> False))"

definition GetUponRcvMeas :: "'v app_config \<Rightarrow> bool" where
  "GetUponRcvMeas c =
     (case cfg_Get c UponRcvMeasConfigPath of
        Inl e \<Rightarrow> False
      | Inr p \<Rightarrow> (case p of BoolValue b \<Rightarrow> b | _ \<Rightarrow> False))"

definition GetUponChangeRrcStatus :: "'v app_config \<Rightarrow> bool" where
  "GetUponChangeRrcStatus c =
     (case cfg_Get c UponChangeRrcStatusConfigPath of
        Inl e \<Rightarrow> False
      | Inr p \<Rightarrow> (case p of BoolValue b \<Rightarrow> b | _ \<Rightarrow> False))"

definition GetA3OffsetRange :: "'v app_config \<Rightarrow> uint64" where
  "GetA3OffsetRange c =
     (case cfg_Get c A3OffsetRangeConfigPath of
        Inl e \<Rightarrow> 0
      | Inr x \<Rightarrow> (case cfg_ToUint64 c x of Inl e \<Rightarrow> 0 | Inr val \<Rightarrow> val))"

definition GetHysteresisRange :: "'v app_config \<Rightarrow> uint64" where
  "GetHysteresisRange c =
     (case cfg_Get c HysteresisRangeConfigPath of
        Inl e \<Rightarrow> 0
      | Inr x \<Rightarrow> (case cfg_ToUint64 c x of Inl e \<Rightarrow> 0 | Inr val \<Rightarrow> val))"

definition GetCellIndividualOffset :: "'v app_config \<Rightarrow> uint64" where
  "GetCellIndividualOffset c =
     (case cfg_Get c CellIndividualOffsetConfigPath of
        Inl e \<Rightarrow> 0
      | Inr x \<Rightarrow> (case cfg_ToUint64 c x of Inl e \<Rightarrow> 0 | Inr val \<Rightarrow> val))"

definition GetFrequencyOffset :: "'v app_config \<Rightarrow> uint64" where
  "GetFrequencyOffset c =
     (case cfg_Get c FrequencyOffsetConfigPath of
        Inl e \<Rightarrow> 0
      | Inr x \<Rightarrow> (case cfg_ToUint64 c x of Inl e \<Rightarrow> 0 | Inr val \<Rightarrow> val))"

definition GetTimeToTrigger :: "'v app_config \<Rightarrow> uint64" where
  "GetTimeToTrigger c =
     (case cfg_Get c TimeToTriggerConfigPath of
        Inl e \<Rightarrow> 0
      | Inr x \<Rightarrow> (case cfg_ToUint64 c x of Inl e \<Rightarrow> 0 | Inr val \<Rightarrow> val))"

subsection \<open>The contract of a getter\<close>

text \<open>
  A getter reads one path and decodes what is there; a failed lookup or conversion is turned
  into a default. \<open>set_path\<close> is the configuration after one path was set.
\<close>

definition set_path :: "string \<Rightarrow> go_error + 'v cfg_value \<Rightarrow> 'v app_config \<Rightarrow> 'v app_config" where
  "set_path p r c = c\<lparr>cfg_Get := (cfg_Get c)(p := r)\<rparr>"

lemma set_path_simps [simp]:
  "cfg_Get (set_path p r c) = (cfg_Get c)(p := r)" "cfg_ToUint64 (set_path p r c) = cfg_ToUint64 c"
  by (simp_all add: set_path_def)

locale config_getter =
  fixes path :: string
    and getter :: "'v app_config \<Rightarrow> 'r"
    and decode :: "'v app_config \<Rightarrow> 'v cfg_value \<Rightarrow> go_error + 'r"
    and dflt :: "go_error \<Rightarrow> 'r"
  assumes getter_reads: "getter c =
      (case cfg_Get c path of Inl e \<Rightarrow> dflt e
       | Inr v \<Rightarrow> (case decode c v of Inl e \<Rightarrow> dflt e | Inr r \<Rightarrow> r))"
    and decode_set: "decode (set_path q r c) = decode c"
begin

lemma getter_set_other: "q \<noteq> path \<Longrightarrow> getter (set_path q r c) = getter c"
  by (simp add: getter_reads decode_set split: sum.splits)

lemma getter_set_same:
  "getter (set_path path r c) =
     (case r of Inl e \<Rightarrow> dflt e | Inr v \<Rightarrow> (case decode c v of Inl e \<Rightarrow> dflt e | Inr x \<Rightarrow> x))"
  by (simp add: getter_reads decode_set split: sum.splits)

end

definition decode_bool :: "'v app_config \<Rightarrow> 'v cfg_value \<Rightarrow> go_error + bool" where
  "decode_bool c v = (case v of BoolValue b \<Rightarrow> Inr b | OtherValue _ \<Rightarrow> Inr False)"

interpretation reporting: config_getter ReportingPeriodConfigPath GetReportingPeriod
  "\<lambda>c v. map_sum id Inr (cfg_ToUint64 c v)" Inl
  by unfold_locales (auto simp: GetReportingPeriod_def split: sum.splits)

interpretation periodic: config_getter PeriodicConfigPath GetPeriodic decode_bool "\<lambda>_. False"
  by unfold_locales
    (auto simp: GetPeriodic_def decode_bool_def fun_eq_iff split: sum.splits cfg_value.splits)

interpretation upon_rcv: config_getter UponRcvMeasConfigPath GetUponRcvMeas decode_bool "\<lambda>_. False"
  by unfold_locales
    (auto simp: GetUponRcvMeas_def decode_bool_def fun_eq_iff split: sum.splits cfg_value.splits)

interpretation upon_change: config_getter UponChangeRrcStatusConfigPath GetUponChangeRrcStatus
  decode_bool "\<lambda>_. False"
  by unfold_locales
    (auto simp: GetUponChangeRrcStatus_def decode_bool_def fun_eq_iff split: sum.splits cfg_value.splits)

interpretation a3: config_getter A3OffsetRangeConfigPath GetA3OffsetRange cfg_ToUint64 "\<lambda>_. 0"
  by unfold_locales (auto simp: GetA3OffsetRange_def split: sum.splits)

interpretation hyst: config_getter HysteresisRangeConfigPath GetHysteresisRange cfg_ToUint64 "\<lambda>_. 0"
  by unfold_locales (auto simp: GetHysteresisRange_def split: sum.splits)

interpretation cio: config_getter CellIndividualOffsetConfigPath GetCellIndividualOffset
  cfg_ToUint64 "\<lambda>_. 0"
  by unfold_locales (auto simp: GetCellIndividualOffset_def split: sum.splits)

interpretation freq: config_getter FrequencyOffsetConfigPath GetFrequencyOffset cfg_ToUint64 "\<lambda>_. 0"
  by unfold_locales (auto simp: GetFrequencyOffset_def split: sum.splits)

interpretation ttt: config_getter TimeToTriggerConfigPath GetTimeToTrigger cfg_ToUint64 "\<lambda>_. 0"
  by unfold_locales (auto simp: GetTimeToTrigger_def split: sum.splits)

text \<open>The five offsets that have no error result, as one tuple, with their paths.\<close>

definition offset_paths :: "string list" where
  "offset_paths = [A3OffsetRangeConfigPath, HysteresisRangeConfigPath, CellIndividualOffsetConfigPath,
     FrequencyOffsetConfigPath, TimeToTriggerConfigPath]"

definition offsets :: "'v app_config \<Rightarrow> uint64 list" where
  "offsets c = [GetA3OffsetRange c, GetHysteresisRange c, GetCellIndividualOffset c,
     GetFrequencyOffset c, GetTimeToTrigger c]"

lemmas getter_set_same =
  a3.getter_set_same hyst.getter_set_same cio.getter_set_same freq.getter_set_same ttt.getter_set_same

lemmas getter_set_other =
  a3.getter_set_other hyst.getter_set_other cio.getter_set_other freq.getter_set_other
  ttt.getter_set_other reporting.getter_set_other

subsection \<open>Properties\<close>

text \<open>
  The offsets are independent and errors read as zero: setting the path of one of the five
  numeric offsets changes that offset only, to the converted value, or to 0 when the lookup or
  the conversion fails, which a caller cannot tell from a configured 0; the reporting period,
  which does return its errors, is not touched.
\<close>

lemma offset_set_local:
  assumes "i < 5"
  shows "offsets (set_path (offset_paths ! i) r c) =
      (offsets c)[i := (case r of Inl e \<Rightarrow> 0
                        | Inr v \<Rightarrow> (case cfg_ToUint64 c v of Inl e \<Rightarrow> 0 | Inr x \<Rightarrow> x))] \<and>
    GetReportingPeriod (set_path (offset_paths ! i) r c) = GetReportingPeriod c"
proof -
  have "i = 0 \<or> i = 1 \<or> i = 2 \<or> i = 3 \<or> i = 4" using assms by auto
  then show ?thesis
    by (elim disjE; simp add: offsets_def offset_paths_def getter_set_same eval_nat_numeral;
        simp add: getter_set_other config_paths)
qed

lemma offset_set_local_witness:
  "offsets (set_path ''HysteresisRange'' (Inr (BoolValue True))
       \<lparr>cfg_Get = (\<lambda>_. Inr (OtherValue ())), cfg_ToUint64 = (\<lambda>v. if v = BoolValue True then Inl NotFound else Inr 3),
        cfg_Watch = None\<rparr>) = [3, 0, 3, 3, 3]"
  using offset_set_local [of 1 "Inr (BoolValue True)"
      "\<lparr>cfg_Get = (\<lambda>_. Inr (OtherValue ())), cfg_ToUint64 = (\<lambda>v. if v = BoolValue True then Inl NotFound else Inr 3),
        cfg_Watch = None\<rparr>"]
  by (simp add: offset_paths_def config_paths offsets_def GetA3OffsetRange_def GetHysteresisRange_def
      GetCellIndividualOffset_def GetFrequencyOffset_def GetTimeToTrigger_def)

end
