(* ===== verification/Mho_Main.thy ===== *)
theory Mho_Main
  imports Mho_E2_Manager Mho_Config
begin

text \<open>
  \<open>pkg/manager/manager.go\<close> and \<open>cmd/onos-mho/onos-mho.go\<close>: building the application and starting it.

  Objects that are only passed on are references (\<open>iface\<close>); the references that the
  constructors \<open>NewConfig\<close>, \<open>NewBroker\<close> and \<open>NewStore\<close> return are arguments. The gRPC server
  is known by what \<open>Serve\<close> does: whether it calls back that it has started, and the error it
  returns later or at once, if any.
\<close>

subsection \<open>Configuration\<close>

record manager_config =
  CAPath :: string
  KeyPath :: string
  CertPath :: string
  ConfigPath :: string
  E2tEndpoint :: string
  GRPCPort :: int
  SMName :: string
  SMVersion :: string

record flags =
  flag_caPath :: string
  flag_keyPath :: string
  flag_certPath :: string
  flag_configPath :: string
  flag_e2tEndpoint :: string
  flag_grpcPort :: int
  flag_smName :: string
  flag_smVersion :: string

definition default_flags :: flags where
  "default_flags = \<lparr>flag_caPath = [], flag_keyPath = [], flag_certPath = [],
     flag_configPath = ''/etc/onos/config/config.json'', flag_e2tEndpoint = ''onos-e2t:5150'',
     flag_grpcPort = 5150, flag_smName = ''oran-e2sm-rc'', flag_smVersion = ''v1''\<rparr>"

definition main_config :: "flags \<Rightarrow> manager_config" where
  "main_config f = \<lparr>CAPath = flag_caPath f, KeyPath = flag_keyPath f, CertPath = flag_certPath f,
     ConfigPath = flag_configPath f, E2tEndpoint = flag_e2tEndpoint f, GRPCPort = flag_grpcPort f,
     SMName = flag_smName f, SMVersion = flag_smVersion f\<rparr>"

subsection \<open>NewManager\<close>

record mho_manager =
  mgr_appConfig :: iface
  mgr_config :: manager_config
  mgr_e2Manager :: e2_manager
  mgr_mhoCtrl :: iface
  mgr_metricStore :: iface

text \<open>\<open>NewMHOController\<close> keeps the store it is given; so does the northbound service, which hands
  it to the server it registers with gRPC.\<close>

definition NewMHOController :: "iface \<Rightarrow> iface" where
  "NewMHOController metricStore = metricStore"

record nb_service =
  Svc_metricStore :: iface

record nb_server =
  Srv_metricStore :: iface

definition NewService :: "iface \<Rightarrow> nb_service" where
  "NewService metricStore = \<lparr>Svc_metricStore = metricStore\<rparr>"

definition Register :: "nb_service \<Rightarrow> nb_server" where
  "Register s = \<lparr>Srv_metricStore = Svc_metricStore s\<rparr>"

record refs =
  ref_config :: nat
  ref_broker :: nat
  ref_store :: nat

definition manager_options :: "manager_config \<Rightarrow> iface \<Rightarrow> iface \<Rightarrow> iface \<Rightarrow> e2_options opt list" where
  "manager_options config appCfg subscriptionBroker metricStore =
     [WithE2TAddress ''onos-e2t'' 5150, WithServiceModel (SMName config) (SMVersion config),
      e2_WithAppConfig appCfg, WithAppID ''onos-mho'', WithBroker subscriptionBroker,
      e2_WithMetricStore metricStore]"

text \<open>Both constructor errors are only logged.\<close>

definition NewManager ::
  "(string \<Rightarrow> go_error + 'v registered) \<Rightarrow> go_error + nat \<Rightarrow> refs \<Rightarrow> manager_config \<Rightarrow> mho_manager go" where
  "NewManager registerConfigurable sdkClient rf config =
     (case NewConfig registerConfigurable (ConfigPath config) of
        Panic \<Rightarrow> Panic
      | r \<Rightarrow>
          (let appCfg = (case r of Ret _ \<Rightarrow> Some (ref_config rf) | _ \<Rightarrow> None);
               subscriptionBroker = Some (ref_broker rf);
               metricStore = Some (ref_store rf);
               (e2Manager, err) =
                 e2_NewManager sdkClient (manager_options config appCfg subscriptionBroker metricStore)
           in Ret \<lparr>mgr_appConfig = appCfg, mgr_config = config, mgr_e2Manager = e2Manager,
                   mgr_mhoCtrl = NewMHOController metricStore, mgr_metricStore = metricStore\<rparr>))"

subsection \<open>Starting\<close>

text \<open>The conversion \<open>int16(m.config.GRPCPort)\<close>.\<close>

definition to_int16 :: "int \<Rightarrow> int" where
  "to_int16 i = sint (word_of_int i :: 16 word)"

record server_cfg =
  sc_caPath :: string
  sc_keyPath :: string
  sc_certPath :: string
  sc_port :: int
  sc_insecure :: bool

record nb_serve =
  serve_started :: bool
  serve_error :: "go_error option"

text \<open>
  \<open>startNorthboundServer\<close>: the server's configuration and its service, and what \<open><-doneCh\<close>
  returns: \<open>None\<close> while it blocks. The goroutine that serves sends its error on the channel it
  may have closed before, which panics.
\<close>

definition northbound_cfg :: "manager_config \<Rightarrow> server_cfg" where
  "northbound_cfg c = \<lparr>sc_caPath = CAPath c, sc_keyPath = KeyPath c, sc_certPath = CertPath c,
     sc_port = to_int16 (GRPCPort c), sc_insecure = True\<rparr>"

definition startNorthboundServer ::
  "(server_cfg \<Rightarrow> nb_server \<Rightarrow> nb_serve) \<Rightarrow> mho_manager \<Rightarrow> (go_error + unit) option" where
  "startNorthboundServer serve m =
     (let s = serve (northbound_cfg (mgr_config m)) (Register (NewService (mgr_metricStore m)))
      in if serve_started s then Some (Inr ())
         else (case serve_error s of Some e \<Rightarrow> Some (Inl e) | None \<Rightarrow> None))"

definition serve_goroutine ::
  "(server_cfg \<Rightarrow> nb_server \<Rightarrow> nb_serve) \<Rightarrow> mho_manager \<Rightarrow> unit go" where
  "serve_goroutine serve m =
     (let s = serve (northbound_cfg (mgr_config m)) (Register (NewService (mgr_metricStore m)))
      in case serve_error s of
           None \<Rightarrow> Ret ()
         | Some e \<Rightarrow> if serve_started s then Panic else Ret ())"

text \<open>What \<open>start\<close> launches: the E2 manager's goroutine (\<open>Start\<close> itself never fails), then the
  controller. \<open>Run\<close> ends the process when \<open>start\<close> fails.\<close>

datatype service = ServiceE2 e2_manager | ServiceController iface

datatype run_outcome = Running "service list" | Fatal go_error | Blocked

definition manager_start ::
  "(server_cfg \<Rightarrow> nb_server \<Rightarrow> nb_serve) \<Rightarrow> mho_manager \<Rightarrow> (go_error + service list) option" where
  "manager_start serve m =
     (case startNorthboundServer serve m of
        None \<Rightarrow> None
      | Some r \<Rightarrow>
          Some (err_bind r (\<lambda>_. Inr [ServiceE2 (mgr_e2Manager m), ServiceController (mgr_mhoCtrl m)])))"

definition manager_Run :: "(server_cfg \<Rightarrow> nb_server \<Rightarrow> nb_serve) \<Rightarrow> mho_manager \<Rightarrow> run_outcome" where
  "manager_Run serve m =
     (case manager_start serve m of
        None \<Rightarrow> Blocked
      | Some (Inr services) \<Rightarrow> Running services
      | Some (Inl e) \<Rightarrow> Fatal e)"

text \<open>\<open>main\<close>: \<open>certs.HandleCertPaths\<close> is a library call whose error ends the process.\<close>

definition main_program ::
  "go_error option \<Rightarrow> (string \<Rightarrow> go_error + 'v registered) \<Rightarrow> go_error + nat \<Rightarrow> refs
     \<Rightarrow> (server_cfg \<Rightarrow> nb_server \<Rightarrow> nb_serve) \<Rightarrow> flags \<Rightarrow> run_outcome go" where
  "main_program certs registerConfigurable sdkClient rf serve f =
     (case certs of
        Some e \<Rightarrow> Ret (Fatal e)
      | None \<Rightarrow>
          go_bind (NewManager registerConfigurable sdkClient rf (main_config f)) (\<lambda>mgr.
          Ret (manager_Run serve mgr)))"

subsection \<open>Facts\<close>

lemma manager_options_result:
  "apply_options (manager_options config a b m) e2_zero =
     e2_zero\<lparr>E2TService := \<lparr>SO_Host = ''onos-e2t'', SO_Port = 5150\<rparr>,
       ServiceModel := \<lparr>SM_Name = SMName config, SM_Version = SMVersion config\<rparr>,
       EO_App := \<lparr>EA_AppID = ''onos-mho'', EA_Config = a, EA_Broker = b, EA_MetricStore = m\<rparr>\<rparr>"
  by (simp add: manager_options_def apply_options_fold option_defs e2_zero_def Let_def)

lemma e2_NewManager_main:
  "fst (e2_NewManager (Inr c) (manager_options config a b m)) =
     \<lparr>EM_e2client = Some \<lparr>EC_ServiceModelName = SMName config, EC_ServiceModelVersion = SMVersion config,
        EC_AppID = ''onos-mho'', EC_Host = ''onos-e2t'', EC_Port = 5150\<rparr>,
      EM_rnibClient = Some c, EM_serviceModel = \<lparr>SM_Name = SMName config, SM_Version = SMVersion config\<rparr>,
      EM_appConfig = a, EM_streams = b, EM_metricStore = m\<rparr>"
  by (simp add: e2_NewManager_def rnib_NewClient_def manager_options_result Let_def)

lemma NewManager_Ret:
  assumes "NewManager reg sdk rf config = Ret m"
  shows "\<exists>appCfg. (appCfg = None \<or> appCfg = Some (ref_config rf)) \<and>
    m = \<lparr>mgr_appConfig = appCfg, mgr_config = config,
         mgr_e2Manager = fst (e2_NewManager sdk (manager_options config appCfg (Some (ref_broker rf)) (Some (ref_store rf)))),
         mgr_mhoCtrl = Some (ref_store rf), mgr_metricStore = Some (ref_store rf)\<rparr>"
  using assms by (auto simp: NewManager_def Let_def split_beta NewMHOController_def split: go.splits)

subsection \<open>Properties\<close>

text \<open>
  C38. The application runs on one store: once the process is running, the northbound server has
  reported that it started, and, if the topology client could be made, the E2 manager, the
  controller and the northbound service share one metric store, the E2 manager has the R-NIB
  client and the configured service model, and talks to \<open>onos-e2t:5150\<close> whatever endpoint the
  flags name.
\<close>

theorem running_shares_store:
  assumes "main_program certs reg (Inr c) rf serve f = Ret (Running services)"
  shows "\<exists>em. services = [ServiceE2 em, ServiceController (Some (ref_store rf))] \<and>
    serve_started (serve (northbound_cfg (main_config f)) \<lparr>Srv_metricStore = Some (ref_store rf)\<rparr>) \<and>
    EM_metricStore em = Some (ref_store rf) \<and> EM_streams em = Some (ref_broker rf) \<and>
    EM_rnibClient em = Some c \<and> SM_Name (EM_serviceModel em) = flag_smName f \<and>
    map_option (\<lambda>x. (EC_Host x, EC_Port x, EC_AppID x)) (EM_e2client em) =
      Some (''onos-e2t'', 5150, ''onos-mho'')"
proof -
  obtain m where m: "NewManager reg (Inr c) rf (main_config f) = Ret m" "manager_Run serve m = Running services"
    using assms by (auto simp: main_program_def go_simps split: option.splits)
  obtain appCfg where r: "m = \<lparr>mgr_appConfig = appCfg, mgr_config = main_config f,
      mgr_e2Manager = fst (e2_NewManager (Inr c)
        (manager_options (main_config f) appCfg (Some (ref_broker rf)) (Some (ref_store rf)))),
      mgr_mhoCtrl = Some (ref_store rf), mgr_metricStore = Some (ref_store rf)\<rparr>"
    using NewManager_Ret [OF m(1)] by blast
  have "serve_started (serve (northbound_cfg (main_config f)) \<lparr>Srv_metricStore = Some (ref_store rf)\<rparr>)"
    "services = [ServiceE2 (mgr_e2Manager m), ServiceController (Some (ref_store rf))]"
    using m(2) r by (auto simp: manager_Run_def manager_start_def startNorthboundServer_def NewService_def Register_def
        Let_def split: option.splits sum.splits if_splits)
  then show ?thesis
    by (simp add: r e2_NewManager_main) (simp add: main_config_def)
qed

theorem running_shares_store_witness:
  "\<exists>em. main_program None (\<lambda>_. Inl NotFound :: go_error + unit registered) (Inr 5) \<lparr>ref_config = 1, ref_broker = 2, ref_store = 3\<rparr>
       (\<lambda>_ _. \<lparr>serve_started = True, serve_error = None\<rparr>) default_flags =
     Ret (Running [ServiceE2 em, ServiceController (Some 3)]) \<and> EM_metricStore em = Some 3"
proof -
  let ?rf = "\<lparr>ref_config = 1, ref_broker = 2, ref_store = 3\<rparr>"
  let ?r = "main_program None (\<lambda>_. Inl NotFound :: go_error + unit registered) (Inr 5) ?rf
       (\<lambda>_ _. \<lparr>serve_started = True, serve_error = None\<rparr>) default_flags"
  obtain services where s: "?r = Ret (Running services)"
    by (simp add: main_program_def NewManager_def NewConfig_def Let_def split_beta manager_Run_def
        manager_start_def startNorthboundServer_def)
  obtain em where em: "services = [ServiceE2 em, ServiceController (Some (ref_store ?rf))]"
    "EM_metricStore em = Some (ref_store ?rf)"
    using running_shares_store [OF s] by blast
  show ?thesis by (rule exI [of _ em]) (use s em in simp)
qed

text \<open>
  C39. Without a topology client the process starts and then crashes: an error of the topology
  SDK is only logged, the zero E2 manager is kept, startup goes on, and the goroutine of the E2
  manager dereferences the nil client at its first use.
\<close>

theorem startup_without_topo_crashes:
  assumes "NewManager reg (Inl e) rf config = Ret m"
  shows "e2_Start v (mgr_e2Manager m) evs = Panic \<and>
    (manager_Run serve m = Running [ServiceE2 e2_manager_zero, ServiceController (Some (ref_store rf))] \<longleftrightarrow>
     serve_started (serve (northbound_cfg config) \<lparr>Srv_metricStore = Some (ref_store rf)\<rparr>))"
proof -
  have m: "mgr_e2Manager m = e2_manager_zero" "mgr_mhoCtrl m = Some (ref_store rf)"
    "mgr_metricStore m = Some (ref_store rf)" "mgr_config m = config"
    using NewManager_Ret [OF assms] by (auto simp: e2_NewManager_def rnib_NewClient_def Let_def)
  then show ?thesis
    by (auto simp: e2_Start_def watchE2Connections_def e2_manager_zero_def manager_Run_def manager_start_def
        startNorthboundServer_def NewService_def Register_def Let_def split: option.splits)
qed

theorem startup_without_topo_crashes_witness:
  "\<exists>m. NewManager (\<lambda>_. Inl NotFound :: go_error + unit registered) (Inl Unavailable)
         \<lparr>ref_config = 1, ref_broker = 2, ref_store = 3\<rparr> (main_config default_flags) = Ret m \<and>
       e2_Start sample_env (mgr_e2Manager m) [] = Panic"
proof -
  obtain m where m: "NewManager (\<lambda>_. Inl NotFound :: go_error + unit registered) (Inl Unavailable)
         \<lparr>ref_config = 1, ref_broker = 2, ref_store = 3\<rparr> (main_config default_flags) = Ret m"
    by (simp add: NewManager_def NewConfig_def Let_def split_beta)
  with startup_without_topo_crashes [OF m] show ?thesis by blast
qed

text \<open>
  C40. The port flag is truncated to 16 signed bits: the northbound server listens on the given
  port exactly for ports below 32768; a legal port from there up to 65535 becomes negative.
\<close>

theorem grpc_port_bounds:
  assumes "0 \<le> flag_grpcPort f" "flag_grpcPort f < 65536"
  shows "sc_port (northbound_cfg (main_config f)) =
    (if flag_grpcPort f < 32768 then flag_grpcPort f else flag_grpcPort f - 65536)"
proof -
  have "sint (word_of_int p :: 16 word) = (if p < 32768 then p else p - 65536)"
    if "0 \<le> p" "p < 65536" for p :: int
  proof -
    have "sint (word_of_int p :: 16 word) = (p + 32768) mod 65536 - 32768"
      by (simp add: int_word_sint)
    moreover have "(p + 32768) mod 65536 = (if p < 32768 then p + 32768 else p - 32768)"
    proof (cases "p < 32768")
      case True
      with that show ?thesis by simp
    next
      case False
      have "(p + 32768) mod 65536 = (p - 32768 + 65536) mod 65536" by (simp add: add.commute)
      also have "\<dots> = (p - 32768) mod 65536" by (rule mod_add_self2)
      also have "\<dots> = p - 32768" using that False by simp
      finally show ?thesis using False by simp
    qed
    ultimately show ?thesis by simp
  qed
  with assms show ?thesis by (simp add: northbound_cfg_def main_config_def to_int16_def)
qed

theorem grpc_port_bounds_witness:
  "sc_port (northbound_cfg (main_config (default_flags\<lparr>flag_grpcPort := 40000\<rparr>))) = -25536"
  using grpc_port_bounds [of "default_flags\<lparr>flag_grpcPort := 40000\<rparr>"] by simp

text \<open>
  A server that fails late takes the process down: \<open>Serve\<close> returning an error after it had
  reported its start makes its goroutine send on the channel it has closed, while an error
  before that is returned and ends the process in an orderly way.
\<close>

lemma late_serve_error_panics:
  "(serve_goroutine serve m = Panic \<longleftrightarrow>
     startNorthboundServer serve m = Some (Inr ()) \<and>
     serve_error (serve (northbound_cfg (mgr_config m)) (Register (NewService (mgr_metricStore m)))) \<noteq> None) \<and>
   (manager_Run serve m = Fatal e \<longleftrightarrow> startNorthboundServer serve m = Some (Inl e))"
  by (auto simp: serve_goroutine_def startNorthboundServer_def manager_Run_def manager_start_def
      NewService_def Register_def Let_def split: option.splits sum.splits)

end
