(* ===== verification/Mho_App.thy ===== *)
theory Mho_App
  imports Mho_Settling Mho_E2_Manager
begin

text \<open>
  The whole southbound application: the topology watch, the subscriptions, the broker's streams
  with their feeding and drain goroutines, and the running system behind the monitors.

  Per announced node there is one subscription goroutine (\<open>createSubscription\<close> cut at its calls
  of the E2 client and the broker, up to \<open>monitor.Start\<close>) and the goroutine that feeds the
  stream; \<open>app_subs\<close> lists them in the order of the announcements, as \<open>sys_nodes\<close> and
  \<open>sys_mons\<close> do for the watcher and the monitor. What the SDKs answer is an argument of the step
  that asks, so it may differ from call to call. \<open>app_taken\<close>, \<open>app_fed\<close> and \<open>app_got\<close> are
  histories: the indications that a feeding goroutine took from its subscription channel, those of them
  that its stream accepted, and the ones received from a stream, with the monitor that got them.
\<close>

datatype sub_pc =
    S_Start
  | S_Lookup channel_id sub_spec
  | S_Create channel_id sub_spec
  | S_Monitor sref
  | S_Failed go_error

datatype feed_pc = F_None | F_Open stream_id | F_Range sref | F_Ended

record sub_proc =
  sp_node :: node_id
  sp_pc :: sub_pc
  sp_chan :: "channel_id option"
  sp_feed :: feed_pc

datatype topo_pc = W_Start | W_Loop | W_Ended

type_synonym stream_log = "(sref \<times> nat \<times> indication) list"

record app =
  app_sys :: sys
  app_topo :: topo_pc
  app_broker :: e2_broker
  app_subs :: "sub_proc list"
  app_taken :: stream_log
  app_fed :: stream_log
  app_got :: stream_log
  app_panic :: bool

definition app_init :: app where
  "app_init = \<lparr>app_sys = sys_init, app_topo = W_Start, app_broker = NewBroker, app_subs = [],
     app_taken = [], app_fed = [], app_got = [], app_panic = False\<rparr>"

subsection \<open>The topology watch\<close>

definition announce :: "node_id \<Rightarrow> app \<Rightarrow> app" where
  "announce n a = a\<lparr>app_sys := do_connect n (app_sys a),
     app_subs := app_subs a @ [\<lparr>sp_node = n, sp_pc = S_Start, sp_chan = None, sp_feed = F_None\<rparr>]\<rparr>"

text \<open>\<open>watchE2Connections\<close> returns, with or without an error: \<open>Start\<close> cancels the context.\<close>

definition topo_end :: "app \<Rightarrow> app" where
  "topo_end a = a\<lparr>app_topo := W_Ended, app_sys := do_cancel (app_sys a)\<rparr>"

definition app_watch :: "'f e2_env \<Rightarrow> e2_manager \<Rightarrow> app \<Rightarrow> app" where
  "app_watch v em a =
     (case EM_rnibClient em of
        None \<Rightarrow> a\<lparr>app_panic := True\<rparr>
      | Some _ \<Rightarrow>
          (case WatchE2Connections (env_topo v) of
             Some e \<Rightarrow> topo_end a
           | None \<Rightarrow> a\<lparr>app_topo := W_Loop\<rparr>))"

definition app_event :: "'f e2_env \<Rightarrow> topo_event \<Rightarrow> app \<Rightarrow> app" where
  "app_event v ev a =
     (case topo_turn v ev of
        Ret (ns, r) \<Rightarrow> (let a' = fold announce ns a in case r of None \<Rightarrow> a' | Some e \<Rightarrow> topo_end a')
      | _ \<Rightarrow> a\<lparr>app_panic := True\<rparr>)"

subsection \<open>Subscriptions and streams\<close>

text \<open>\<open>createSubscription\<close> up to the answer of \<open>node.Subscribe\<close>.\<close>

definition request_subscription ::
  "'f e2_env \<Rightarrow> e2_manager \<Rightarrow> node_id \<Rightarrow> go_error + (channel_id \<times> sub_spec)" where
  "request_subscription v em e2nodeID =
     err_bind (CreateEventTriggerDefinition (env_pdu v)) (\<lambda>eventTriggerData.
     err_bind (GetE2NodeAspects (env_topo v) e2nodeID) (\<lambda>aspects.
     err_bind (getRanFunction (env_unmarshal v) em (env_ord v) (ServiceModels aspects)) (\<lambda>_.
     let actions = (case CreateSubscriptionAction (env_pdu v) of Inl e \<Rightarrow> [] | Inr a \<Rightarrow> a);
         subName = ''onos-mho-subscription'';
         subSpec = \<lparr>SubActions = actions, EventTriggerPayload = eventTriggerData\<rparr>
     in err_bind (env_Subscribe v e2nodeID subName subSpec) (\<lambda>channelID. Inr (channelID, subSpec)))))"

definition set_sub :: "nat \<Rightarrow> sub_proc \<Rightarrow> app \<Rightarrow> app" where
  "set_sub j m a = a\<lparr>app_subs := (app_subs a)[j := m]\<rparr>"

definition sub_request :: "'f e2_env \<Rightarrow> e2_manager \<Rightarrow> nat \<Rightarrow> app \<Rightarrow> app" where
  "sub_request v em j a =
     (let m = app_subs a ! j in
      case request_subscription v em (sp_node m) of
        Inl e \<Rightarrow> set_sub j (m\<lparr>sp_pc := S_Failed e\<rparr>) a
      | Inr (c, spec) \<Rightarrow> set_sub j (m\<lparr>sp_pc := S_Lookup c spec, sp_chan := Some c\<rparr>) a)"

text \<open>\<open>OpenReader\<close> has returned: \<open>go sendIndicationOnStream\<close>, then the monitor starts.\<close>

definition sub_opened :: "nat \<Rightarrow> sref \<Rightarrow> app \<Rightarrow> app" where
  "sub_opened j r a =
     set_sub j ((app_subs a ! j)\<lparr>sp_pc := S_Monitor r, sp_feed := F_Open (streamID (info_of r (app_broker a)))\<rparr>) a"

definition sub_lookup :: "nat \<Rightarrow> channel_id \<Rightarrow> sub_spec \<Rightarrow> app \<Rightarrow> app" where
  "sub_lookup j c spec a =
     (case open_lookup c (app_broker a) of
        Some r \<Rightarrow> sub_opened j r a
      | None \<Rightarrow> set_sub j ((app_subs a ! j)\<lparr>sp_pc := S_Create c spec\<rparr>) a)"

definition sub_create :: "nat \<Rightarrow> channel_id \<Rightarrow> sub_spec \<Rightarrow> app \<Rightarrow> app" where
  "sub_create j c spec a =
     (let (b, r) = open_create (sp_node (app_subs a ! j)) ''onos-mho-subscription'' c spec (app_broker a)
      in sub_opened j r (a\<lparr>app_broker := b\<rparr>))"

definition feed_open :: "nat \<Rightarrow> stream_id \<Rightarrow> app \<Rightarrow> app" where
  "feed_open j i a =
     set_sub j ((app_subs a ! j)\<lparr>sp_feed :=
       (case GetWriter i (app_broker a) of Inl e \<Rightarrow> F_Ended | Inr r \<Rightarrow> F_Range r)\<rparr>) a"

definition stream_at :: "sref \<Rightarrow> app \<Rightarrow> indication stream" where
  "stream_at r a = snd (objs (app_broker a) ! r)"

definition set_stream :: "sref \<Rightarrow> indication stream \<Rightarrow> app \<Rightarrow> app" where
  "set_stream r s a = a\<lparr>app_broker := (app_broker a)
     \<lparr>objs := (objs (app_broker a))[r := (fst (objs (app_broker a) ! r), s)]\<rparr>\<rparr>"

text \<open>The SDK delivers a message on the subscription channel, and its goroutine sends it on.\<close>

definition feed_send :: "nat \<Rightarrow> sref \<Rightarrow> indication \<Rightarrow> app \<Rightarrow> app" where
  "feed_send j r msg a =
     (case stream_Send msg (stream_at r a) of
        (s, Inr _) \<Rightarrow> (set_stream r s a)\<lparr>app_taken := app_taken a @ [(r, j, msg)], app_fed := app_fed a @ [(r, j, msg)]\<rparr>
      | (s, Inl e) \<Rightarrow> (set_sub j ((app_subs a ! j)\<lparr>sp_feed := F_Ended\<rparr>) (set_stream r s a))
          \<lparr>app_taken := app_taken a @ [(r, j, msg)]\<rparr>)"

text \<open>The monitor receives from its stream; \<open>x\<close> is one of the outcomes of the select.\<close>

definition mon_receive ::
  "codec \<Rightarrow> nat \<Rightarrow> sref \<Rightarrow> indication stream \<times> (go_error + indication) \<Rightarrow> app \<Rightarrow> app" where
  "mon_receive cd j r x a =
     (let (s, res) = x; a' = set_stream r s (a\<lparr>app_sys := do_recv cd j res (app_sys a)\<rparr>) in
      case res of Inl e \<Rightarrow> a' | Inr ind \<Rightarrow> a'\<lparr>app_got := app_got a @ [(r, j, ind)]\<rparr>)"

definition recv_outcomes :: "sref \<Rightarrow> app \<Rightarrow> (indication stream \<times> (go_error + indication)) list" where
  "recv_outcomes r a =
     stream_Recv (if sys_cancelled (app_sys a) then Some Canceled else None) (stream_at r a)"

subsection \<open>The steps\<close>

datatype 'f app_act =
    P_Watch "'f e2_env"
  | P_Event "'f e2_env" topo_event
  | P_WatchClosed
  | P_Request "'f e2_env" nat
  | P_Lookup nat
  | P_Create nat
  | P_FeedOpen nat
  | P_FeedSend nat indication
  | P_FeedClosed nat
  | P_Drain sref
  | P_Recv nat nat
  | P_Inner act

fun app_do :: "codec \<Rightarrow> pdubuilder \<Rightarrow> e2_manager \<Rightarrow> 'f app_act \<Rightarrow> app \<Rightarrow> app option" where
  "app_do cd p em (P_Watch v) a = (if app_topo a = W_Start then Some (app_watch v em a) else None)"
| "app_do cd p em (P_Event v ev) a = (if app_topo a = W_Loop then Some (app_event v ev a) else None)"
| "app_do cd p em P_WatchClosed a = (if app_topo a = W_Loop then Some (topo_end a) else None)"
| "app_do cd p em (P_Request v j) a =
     (if j < length (app_subs a) \<and> sp_pc (app_subs a ! j) = S_Start then Some (sub_request v em j a) else None)"
| "app_do cd p em (P_Lookup j) a =
     (if j < length (app_subs a)
      then (case sp_pc (app_subs a ! j) of S_Lookup c spec \<Rightarrow> Some (sub_lookup j c spec a) | _ \<Rightarrow> None) else None)"
| "app_do cd p em (P_Create j) a =
     (if j < length (app_subs a)
      then (case sp_pc (app_subs a ! j) of S_Create c spec \<Rightarrow> Some (sub_create j c spec a) | _ \<Rightarrow> None) else None)"
| "app_do cd p em (P_FeedOpen j) a =
     (if j < length (app_subs a)
      then (case sp_feed (app_subs a ! j) of F_Open i \<Rightarrow> Some (feed_open j i a) | _ \<Rightarrow> None) else None)"
| "app_do cd p em (P_FeedSend j msg) a =
     (if j < length (app_subs a)
      then (case sp_feed (app_subs a ! j) of F_Range r \<Rightarrow> Some (feed_send j r msg a) | _ \<Rightarrow> None) else None)"
| "app_do cd p em (P_FeedClosed j) a =
     (if j < length (app_subs a)
      then (case sp_feed (app_subs a ! j) of
              F_Range r \<Rightarrow> Some (set_sub j ((app_subs a ! j)\<lparr>sp_feed := F_Ended\<rparr>) a) | _ \<Rightarrow> None) else None)"
| "app_do cd p em (P_Drain r) a =
     (if r < length (objs (app_broker a))
      then (case drain_step (stream_at r a) of Some s \<Rightarrow> Some (set_stream r s a) | None \<Rightarrow> None) else None)"
| "app_do cd p em (P_Recv j x) a =
     (if j < length (app_subs a) \<and> mp_pc (sys_mons (app_sys a) ! j) = M_Idle \<and>
         \<not> blocked (mp_loop (sys_mons (app_sys a) ! j))
      then (case sp_pc (app_subs a ! j) of
              S_Monitor r \<Rightarrow>
                (if x < length (recv_outcomes r a)
                 then Some (mon_receive cd j r (recv_outcomes r a ! x) a) else None)
            | _ \<Rightarrow> None) else None)"
| "app_do cd p em (P_Inner y) a =
     (if internal y
      then (case exec_act cd p y (app_sys a) of Some t \<Rightarrow> Some (a\<lparr>app_sys := t\<rparr>) | None \<Rightarrow> None) else None)"

definition app_exec :: "codec \<Rightarrow> pdubuilder \<Rightarrow> e2_manager \<Rightarrow> 'f app_act \<Rightarrow> app \<Rightarrow> app option" where
  "app_exec cd p em x a =
     (if app_panic a \<or> sys_crash (app_sys a) \<noteq> None then None else app_do cd p em x a)"

primrec app_run :: "codec \<Rightarrow> pdubuilder \<Rightarrow> e2_manager \<Rightarrow> 'f app_act list \<Rightarrow> app \<Rightarrow> app option" where
  "app_run cd p em [] a = Some a"
| "app_run cd p em (x # xs) a =
     (case app_exec cd p em x a of None \<Rightarrow> None | Some b \<Rightarrow> app_run cd p em xs b)"

text \<open>The two halves of \<open>createSubscription\<close>: the request, and opening the stream.\<close>

lemma createSubscription_request:
  "createSubscription v em n b =
     err_bind (request_subscription v em n) (\<lambda>(c, spec).
       let (b', r) = OpenReader n ''onos-mho-subscription'' c spec b
       in Inr \<lparr>st_broker = b', st_feeds = streamID (info_of r b'), st_reader = r,
               st_monitor = NewMonitor [WithAppConfig (EM_appConfig em), WithNode (Some n),
                 WithStreamReader (Some r), WithNodeID n,
                 WithRNIBClient (EM_rnibClient em), WithMetricStore (EM_metricStore em)]\<rparr>)"
  by (simp add: createSubscription_def request_subscription_def err_bind_def Let_def split: sum.splits)

subsection \<open>The invariant of the application\<close>

text \<open>Every stream object is found under its own identifier, and every channel leads to a stream
  of that channel. (Unlike \<open>broker_ok\<close> this survives two concurrent opens of one channel.)\<close>

definition wired :: "e2_broker \<Rightarrow> bool" where
  "wired b \<longleftrightarrow>
     (\<forall>r < length (objs b). streams b (streamID (info_of r b)) = Some r \<and> streamID (info_of r b) \<le> last_id b) \<and>
     (\<forall>c r. subs b c = Some r \<longrightarrow> r < length (objs b) \<and> channelID (info_of r b) = c)"

definition sub_ok :: "e2_broker \<Rightarrow> sub_proc \<Rightarrow> bool" where
  "sub_ok b m \<longleftrightarrow>
     (case sp_pc m of
        S_Monitor r \<Rightarrow> r < length (objs b) \<and> sp_chan m = Some (channelID (info_of r b))
      | S_Lookup c _ \<Rightarrow> sp_chan m = Some c
      | S_Create c _ \<Rightarrow> sp_chan m = Some c
      | _ \<Rightarrow> True) \<and>
     (case sp_feed m of
        F_Open i \<Rightarrow> (\<exists>r. sp_pc m = S_Monitor r \<and> i = streamID (info_of r b))
      | F_Range r \<Rightarrow> sp_pc m = S_Monitor r
      | _ \<Rightarrow> True)"

definition log_for :: "sref \<Rightarrow> stream_log \<Rightarrow> indication list" where
  "log_for r l = map (\<lambda>(_, _, m). m) (filter (\<lambda>(q, _, _). q = r) l)"

definition log_ok :: "sub_proc list \<Rightarrow> stream_log \<Rightarrow> bool" where
  "log_ok ms l \<longleftrightarrow> (\<forall>(r, j, m) \<in> set l. j < length ms \<and> sp_pc (ms ! j) = S_Monitor r)"

text \<open>The requests that the monitors extracted from what they received.\<close>

definition accepted :: "codec \<Rightarrow> (nat \<Rightarrow> node_id) \<Rightarrow> stream_log \<Rightarrow> ind_log" where
  "accepted cd name l = List.map_filter (\<lambda>(r, j, m).
     case parse_indication cd m of Ret rq \<Rightarrow> Some (name j, rq) | _ \<Rightarrow> None) l"

definition app_ok :: "app \<Rightarrow> bool" where
  "app_ok a \<longleftrightarrow>
     (sys_cancelled (app_sys a) \<longleftrightarrow> app_topo a = W_Ended) \<and>
     map sp_node (app_subs a) = map mp_node (sys_mons (app_sys a)) \<and>
     wired (app_broker a) \<and> (\<forall>m \<in> set (app_subs a). sub_ok (app_broker a) m) \<and>
     log_ok (app_subs a) (app_fed a) \<and> log_ok (app_subs a) (app_got a) \<and>
     (\<forall>r < length (objs (app_broker a)).
        log_for r (app_fed a) = log_for r (app_got a) @ pending (stream_at r a))"

lemma app_okD:
  assumes "app_ok a"
  shows "sys_cancelled (app_sys a) \<longleftrightarrow> app_topo a = W_Ended"
    "map sp_node (app_subs a) = map mp_node (sys_mons (app_sys a))" "wired (app_broker a)"
    "m \<in> set (app_subs a) \<Longrightarrow> sub_ok (app_broker a) m"
    "log_ok (app_subs a) (app_fed a)" "log_ok (app_subs a) (app_got a)"
    "r < length (objs (app_broker a)) \<Longrightarrow>
       log_for r (app_fed a) = log_for r (app_got a) @ pending (stream_at r a)"
  using assms by (simp_all add: app_ok_def)

lemma app_ok_init: "app_ok app_init"
  by (simp add: app_ok_def app_init_def sys_init_def wired_def NewBroker_def log_ok_def)

lemma log_for_append [simp]: "log_for r (xs @ ys) = log_for r xs @ log_for r ys"
  by (simp add: log_for_def)

lemma log_for_Cons [simp]: "log_for r ((q, j, m) # xs) = (if q = r then m # log_for r xs else log_for r xs)"
  by (simp add: log_for_def)

lemma log_for_Nil [simp]: "log_for r [] = []"
  by (simp add: log_for_def)

lemma log_ok_snoc: "log_ok ms (l @ [(r, j, m)]) \<longleftrightarrow> log_ok ms l \<and> j < length ms \<and> sp_pc (ms ! j) = S_Monitor r"
  by (auto simp: log_ok_def)

text \<open>A stream that nobody has reached yet has empty logs.\<close>

lemma log_for_fresh:
  assumes "log_ok ms l" "\<forall>m \<in> set ms. sub_ok b m"
  shows "log_for (length (objs b)) l = []"
proof -
  have "q \<noteq> length (objs b)" if mem: "(q, j, m) \<in> set l" for q j m
  proof -
    have "j < length ms" "sp_pc (ms ! j) = S_Monitor q" using assms(1) mem by (auto simp: log_ok_def)
    moreover from this have "sub_ok b (ms ! j)" using assms(2) by simp
    ultimately show ?thesis by (auto simp: sub_ok_def)
  qed
  then show ?thesis by (auto simp: log_for_def filter_empty_conv)
qed

subsection \<open>Streams\<close>

lemma set_stream_simps [simp]:
  "app_sys (set_stream r s a) = app_sys a" "app_topo (set_stream r s a) = app_topo a"
  "app_subs (set_stream r s a) = app_subs a" "app_taken (set_stream r s a) = app_taken a" "app_fed (set_stream r s a) = app_fed a"
  "app_got (set_stream r s a) = app_got a" "app_panic (set_stream r s a) = app_panic a"
  "length (objs (app_broker (set_stream r s a))) = length (objs (app_broker a))"
  "subs (app_broker (set_stream r s a)) = subs (app_broker a)"
  "streams (app_broker (set_stream r s a)) = streams (app_broker a)"
  "last_id (app_broker (set_stream r s a)) = last_id (app_broker a)"
  by (simp_all add: set_stream_def)

lemma set_stream_info [simp]: "info_of q (app_broker (set_stream r s a)) = info_of q (app_broker a)"
proof (cases "q = r \<and> r < length (objs (app_broker a))")
  case True
  then show ?thesis by (simp add: set_stream_def info_of_def)
next
  case False
  then show ?thesis by (cases "q = r") (simp_all add: set_stream_def info_of_def list_update_beyond)
qed

lemma stream_at_set:
  "r < length (objs (app_broker a)) \<Longrightarrow>
   stream_at q (set_stream r s a) = (if q = r then s else stream_at q a)"
  by (simp add: set_stream_def stream_at_def)

lemma wired_set_stream [simp]: "wired (app_broker (set_stream r s a)) \<longleftrightarrow> wired (app_broker a)"
  by (simp add: wired_def)

lemma sub_ok_set_stream [simp]: "sub_ok (app_broker (set_stream r s a)) m \<longleftrightarrow> sub_ok (app_broker a) m"
  by (simp add: sub_ok_def split: sub_pc.splits feed_pc.splits)

text \<open>A step of one stream, with the logs extended by what went in and out.\<close>

lemma app_ok_stream:
  assumes ok: "app_ok a" and r: "r < length (objs (app_broker a))"
    and t: "app_broker b = app_broker (set_stream r s a)" "app_subs b = app_subs a" "app_topo b = app_topo a"
    and sys: "sys_cancelled (app_sys b) = sys_cancelled (app_sys a)"
      "map mp_node (sys_mons (app_sys b)) = map mp_node (sys_mons (app_sys a))"
    and logs: "log_ok (app_subs a) (app_fed b)" "log_ok (app_subs a) (app_got b)"
    and other: "\<And>q. q \<noteq> r \<Longrightarrow> log_for q (app_fed b) = log_for q (app_fed a) \<and> log_for q (app_got b) = log_for q (app_got a)"
    and here: "log_for r (app_fed b) = log_for r (app_got b) @ pending s"
  shows "app_ok b"
proof -
  have st: "stream_at q b = (if q = r then s else stream_at q a)" for q
    using stream_at_set [OF r, of q s] t(1) by (simp add: stream_at_def)
  have "log_for q (app_fed b) = log_for q (app_got b) @ pending (stream_at q b)"
    if "q < length (objs (app_broker a))" for q
    using here other [of q] app_okD(7) [OF ok that] by (simp add: st)
  then show ?thesis
    using app_okD [OF ok] t sys logs by (simp add: app_ok_def)
qed

lemma send_pending:
  "stream_Send m s = (t, Inr u) \<Longrightarrow> pending t = pending s @ [m]"
  "stream_Send m s = (t, Inl e) \<Longrightarrow> pending t = pending s"
  using st.step_In [OF stream_step.send, of m s t] st.step_Tau [OF stream_step.send_rejected, of m s t e] by auto

lemma recv_pending:
  "(t, Inr m) \<in> set (stream_Recv ctx s) \<Longrightarrow> pending s = m # pending t"
  "(t, Inl e) \<in> set (stream_Recv ctx s) \<Longrightarrow> pending t = pending s"
  using st.step_Out [OF stream_step.recv, of t m ctx s] st.step_Tau [OF stream_step.recv_err, of t e ctx s] by auto

lemma drain_pending: "drain_step s = Some t \<Longrightarrow> pending t = pending s"
  using st.step_Tau [OF stream_step.drain] by auto

subsection \<open>Every step keeps the invariant\<close>

lemma app_ok_announce: "app_ok a \<Longrightarrow> app_ok (announce n a)"
proof -
  assume ok: "app_ok a"
  let ?m = "\<lparr>sp_node = n, sp_pc = S_Start, sp_chan = None, sp_feed = F_None\<rparr>"
  have log: "log_ok (app_subs a @ [?m]) l" if "log_ok (app_subs a) l" for l
    using that by (fastforce simp: log_ok_def nth_append)
  show ?thesis
    using app_okD [OF ok] log
    by (auto simp: app_ok_def announce_def do_connect_def sub_ok_def stream_at_def)
qed

lemma app_ok_announces: "app_ok a \<Longrightarrow> app_ok (fold announce ns a)"
  by (induction ns arbitrary: a) (auto intro: app_ok_announce)

lemma app_ok_end: "app_ok a \<Longrightarrow> app_ok (topo_end a)"
  by (simp add: app_ok_def topo_end_def do_cancel_def stream_at_def)

lemma app_ok_panic: "app_ok a \<Longrightarrow> app_ok (a\<lparr>app_panic := True\<rparr>)"
  by (simp add: app_ok_def stream_at_def)

lemma app_ok_watch: "app_ok a \<Longrightarrow> app_topo a = W_Start \<Longrightarrow> app_ok (app_watch v em a)"
  by (auto simp: app_watch_def app_ok_panic app_ok_end split: option.split)
    (simp add: app_ok_def stream_at_def)

lemma app_ok_event: "app_ok a \<Longrightarrow> app_ok (app_event v ev a)"
  by (auto simp: app_event_def Let_def app_ok_panic app_ok_end app_ok_announces
      split: go.split prod.split option.split)

lemma app_ok_set_sub:
  assumes ok: "app_ok a" and j: "j < length (app_subs a)"
    and m: "sp_node m = sp_node (app_subs a ! j)" "sub_ok (app_broker a) m"
      "\<And>r. sp_pc (app_subs a ! j) = S_Monitor r \<Longrightarrow> sp_pc m = S_Monitor r"
  shows "app_ok (set_sub j m a)"
proof -
  have log: "log_ok ((app_subs a)[j := m]) l" if "log_ok (app_subs a) l" for l
    unfolding log_ok_def
  proof (clarify, simp only: length_list_update, intro conjI)
    fix r i x
    assume "(r, i, x) \<in> set l"
    then have i: "i < length (app_subs a)" "sp_pc (app_subs a ! i) = S_Monitor r"
      using that by (auto simp: log_ok_def)
    then show "i < length (app_subs a)" "sp_pc ((app_subs a)[j := m] ! i) = S_Monitor r"
      using m(3) [of r] j by (cases "i = j"; simp)+
  qed
  have names: "map sp_node ((app_subs a)[j := m]) = map sp_node (app_subs a)"
    by (rule map_update_same [where f = sp_node, OF m(1)])
  have "sub_ok (app_broker a) x" if "x \<in> set ((app_subs a)[j := m])" for x
    using that by (rule set_list_updateE) (use m(2) app_okD(4) [OF ok] in auto)
  then show ?thesis
    using app_okD(1-3,5-7) [OF ok] log names by (simp add: app_ok_def set_sub_def stream_at_def)
qed

lemma sub_ok_nth: "app_ok a \<Longrightarrow> j < length (app_subs a) \<Longrightarrow> sub_ok (app_broker a) (app_subs a ! j)"
  by (simp add: app_ok_def)

lemma reading:
  assumes "app_ok a" "j < length (app_subs a)" "sp_pc (app_subs a ! j) = S_Monitor r"
  shows "r < length (objs (app_broker a))" "sp_chan (app_subs a ! j) = Some (channelID (info_of r (app_broker a)))"
  using sub_ok_nth [OF assms(1,2)] assms(3) by (auto simp: sub_ok_def)

lemma app_ok_request:
  assumes "app_ok a" "j < length (app_subs a)" "sp_pc (app_subs a ! j) = S_Start"
  shows "app_ok (sub_request v em j a)"
  using assms sub_ok_nth [OF assms(1,2)]
  by (auto simp: sub_request_def Let_def sub_ok_def intro!: app_ok_set_sub split: sum.split feed_pc.splits)

lemma app_ok_opened:
  assumes "app_ok a" "j < length (app_subs a)" "sp_pc (app_subs a ! j) \<notin> range S_Monitor"
    and "r < length (objs (app_broker a))" "sp_chan (app_subs a ! j) = Some (channelID (info_of r (app_broker a)))"
  shows "app_ok (sub_opened j r a)"
  unfolding sub_opened_def using assms by (intro app_ok_set_sub) (auto simp: sub_ok_def)

lemma app_ok_lookup:
  assumes ok: "app_ok a" and j: "j < length (app_subs a)" "sp_pc (app_subs a ! j) = S_Lookup c spec"
  shows "app_ok (sub_lookup j c spec a)"
proof (cases "open_lookup c (app_broker a)")
  case None
  then show ?thesis
    using ok j sub_ok_nth [OF ok j(1)]
    by (auto simp: sub_lookup_def sub_ok_def intro!: app_ok_set_sub split: feed_pc.splits)
next
  case (Some r)
  then have "r < length (objs (app_broker a))" "channelID (info_of r (app_broker a)) = c"
    using app_okD(3) [OF ok] by (auto simp: wired_def open_lookup_def)
  then show ?thesis
    using Some sub_ok_nth [OF ok j(1)] j ok by (auto simp: sub_lookup_def sub_ok_def intro!: app_ok_opened)
qed

lemma app_ok_create:
  assumes ok: "app_ok a" and j: "j < length (app_subs a)" "sp_pc (app_subs a ! j) = S_Create c spec"
  shows "app_ok (sub_create j c spec a)"
proof -
  let ?b = "app_broker a" and ?n = "sp_node (app_subs a ! j)"
  let ?b' = "fst (open_create ?n ''onos-mho-subscription'' c spec ?b)" and ?r = "length (objs ?b)"
  let ?a = "a\<lparr>app_broker := ?b'\<rparr>"
  note simps = open_create_simps [where n = ?n and sn = "''onos-mho-subscription''" and c = c and sp = spec and b = ?b]
  have old: "r < ?r \<Longrightarrow> info_of r ?b' = info_of r ?b" for r using simps(6) .
  have w: "wired ?b'"
    using app_okD(3) [OF ok] unfolding wired_def simps(1-4)
    by (auto simp: simps(7) old less_Suc_eq)
  have subs: "sub_ok ?b' m" if "m \<in> set (app_subs a)" for m
    using app_okD(4) [OF ok that] simps(4) old
    by (auto simp: sub_ok_def split: sub_pc.splits feed_pc.splits)
  have st: "stream_at r ?a = (if r = ?r then newBufferedWriter else stream_at r a)" if "r \<le> ?r" for r
    using that by (auto simp: stream_at_def open_create_def Let_def newBufferedStream_def nth_append)
  have fresh: "log_for ?r (app_fed a) = []" "log_for ?r (app_got a) = []"
    using log_for_fresh [OF app_okD(5) [OF ok]] log_for_fresh [OF app_okD(6) [OF ok]] app_okD(4) [OF ok] by auto
  have "app_ok ?a"
    unfolding app_ok_def
  proof (intro conjI)
    show "\<forall>r < length (objs (app_broker ?a)).
        log_for r (app_fed ?a) = log_for r (app_got ?a) @ pending (stream_at r ?a)"
      using app_okD(7) [OF ok] fresh st simps(4) by (auto simp: less_Suc_eq)
  qed (use app_okD [OF ok] w subs in auto)
  moreover have "sub_create j c spec a = sub_opened j ?r ?a"
    by (simp add: sub_create_def split_beta simps(5))
  ultimately show ?thesis
    using j sub_ok_nth [OF ok j(1)] simps(4,7) by (auto intro!: app_ok_opened simp: sub_ok_def)
qed

lemma app_ok_feed_open:
  assumes ok: "app_ok a" and j: "j < length (app_subs a)" "sp_feed (app_subs a ! j) = F_Open i"
  shows "app_ok (feed_open j i a)"
proof -
  obtain r where r: "sp_pc (app_subs a ! j) = S_Monitor r" "i = streamID (info_of r (app_broker a))"
    "r < length (objs (app_broker a))"
    using sub_ok_nth [OF ok j(1)] j(2) by (auto simp: sub_ok_def)
  then have "GetWriter i (app_broker a) = Inr r"
    using app_okD(3) [OF ok] by (auto simp: wired_def GetWriter_def)
  then show ?thesis
    using ok j(1) r sub_ok_nth [OF ok j(1)]
    by (auto simp: feed_open_def sub_ok_def intro!: app_ok_set_sub)
qed

lemma feed_reads:
  assumes ok: "app_ok a" and j: "j < length (app_subs a)" "sp_feed (app_subs a ! j) = F_Range r"
  shows "sp_pc (app_subs a ! j) = S_Monitor r" "r < length (objs (app_broker a))"
  using sub_ok_nth [OF ok j(1)] j(2) by (auto simp: sub_ok_def)

lemma app_ok_feed_end:
  assumes ok: "app_ok a" and j: "j < length (app_subs a)"
  shows "app_ok (set_sub j ((app_subs a ! j)\<lparr>sp_feed := F_Ended\<rparr>) a)"
  using ok j sub_ok_nth [OF ok j] by (auto simp: sub_ok_def intro!: app_ok_set_sub split: sub_pc.splits)

lemma app_ok_taken [simp]: "app_ok (a\<lparr>app_taken := l\<rparr>) = app_ok a"
  by (simp add: app_ok_def stream_at_def)

lemma app_ok_feed_send:
  assumes ok: "app_ok a" and j: "j < length (app_subs a)" "sp_feed (app_subs a ! j) = F_Range r"
  shows "app_ok (feed_send j r m a)"
proof -
  note r = feed_reads [OF ok j]
  obtain s res where s: "stream_Send m (stream_at r a) = (s, res)" by (cases "stream_Send m (stream_at r a)")
  show ?thesis
  proof (cases res)
    case (Inl e)
    have "app_ok (set_stream r s a)"
      using app_okD [OF ok] send_pending(2) [OF s [unfolded Inl]] r(2)
      by (intro app_ok_stream [OF ok r(2), where s = s]) simp_all
    then show ?thesis
      using app_ok_feed_end [of "set_stream r s a" j] j(1) s Inl by (simp add: feed_send_def)
  next
    case (Inr u)
    have "app_ok ((set_stream r s a)\<lparr>app_taken := app_taken a @ [(r, j, m)], app_fed := app_fed a @ [(r, j, m)]\<rparr>)"
      using app_okD [OF ok] send_pending(1) [OF s [unfolded Inr]] r j(1)
      by (intro app_ok_stream [OF ok r(2), where s = s]) (simp_all add: log_ok_snoc)
    then show ?thesis using s Inr by (simp add: feed_send_def)
  qed
qed

lemma app_ok_drain:
  assumes ok: "app_ok a" and r: "r < length (objs (app_broker a))" and d: "drain_step (stream_at r a) = Some s"
  shows "app_ok (set_stream r s a)"
  using app_okD [OF ok] drain_pending [OF d] r by (intro app_ok_stream [OF ok r, where s = s]) simp_all

lemma do_recv_same:
  "sys_cancelled (do_recv cd j r s) = sys_cancelled s"
  "map mp_node (sys_mons (do_recv cd j r s)) = map mp_node (sys_mons s)"
proof -
  show "sys_cancelled (do_recv cd j r s) = sys_cancelled s" by (simp add: do_recv_def split: go.split)
  show "map mp_node (sys_mons (do_recv cd j r s)) = map mp_node (sys_mons s)"
  proof (cases "mon_recv cd r (sys_mons s ! j)")
    case (Ret x)
    obtain m new where x: "x = (m, new)" by (cases x)
    have "mp_node m = mp_node (sys_mons s ! j)" using mon_recv_ok [OF Ret [unfolded x]] by simp
    then show ?thesis using Ret x by (simp add: do_recv_def map_update_same)
  qed (simp_all add: do_recv_def)
qed

lemma app_ok_recv:
  assumes ok: "app_ok a" and j: "j < length (app_subs a)" "sp_pc (app_subs a ! j) = S_Monitor r"
    and x: "(s, res) \<in> set (recv_outcomes r a)"
  shows "app_ok (mon_receive cd j r (s, res) a)"
proof -
  have r: "r < length (objs (app_broker a))" using sub_ok_nth [OF ok j(1)] j(2) by (simp add: sub_ok_def)
  let ?b = "set_stream r s (a\<lparr>app_sys := do_recv cd j res (app_sys a)\<rparr>)"
  have b: "app_broker ?b = app_broker (set_stream r s a)" by (simp add: set_stream_def)
  show ?thesis
  proof (cases res)
    case (Inl e)
    then have "pending s = pending (stream_at r a)"
      using recv_pending(2) x by (auto simp: recv_outcomes_def)
    then have "app_ok ?b"
      using app_okD(5-7) [OF ok] r by (intro app_ok_stream [OF ok r b]) (simp_all add: do_recv_same)
    then show ?thesis using Inl by (simp add: mon_receive_def)
  next
    case (Inr ind)
    then have "pending (stream_at r a) = ind # pending s"
      using recv_pending(1) x by (auto simp: recv_outcomes_def)
    then have "app_ok (?b\<lparr>app_got := app_got a @ [(r, j, ind)]\<rparr>)"
      using app_okD(5-7) [OF ok] b r j
      by (intro app_ok_stream [OF ok r, where s = s]) (simp_all add: do_recv_same log_ok_snoc)
    then show ?thesis using Inr by (simp add: mon_receive_def)
  qed
qed

text \<open>The steps, each with what it needs to be enabled.\<close>

lemma app_exec_cases [consumes 1, case_names watch event closed request lookup create feed_open feed_send
    feed_closed drain recv inner]:
  assumes "app_exec cd p em x a = Some b"
  obtains v where "x = P_Watch v" "app_topo a = W_Start" "b = app_watch v em a"
  | v ev where "x = P_Event v ev" "app_topo a = W_Loop" "b = app_event v ev a"
  | "x = P_WatchClosed" "app_topo a = W_Loop" "b = topo_end a"
  | v j where "x = P_Request v j" "j < length (app_subs a)" "sp_pc (app_subs a ! j) = S_Start" "b = sub_request v em j a"
  | j c spec where "x = P_Lookup j" "j < length (app_subs a)" "sp_pc (app_subs a ! j) = S_Lookup c spec"
      "b = sub_lookup j c spec a"
  | j c spec where "x = P_Create j" "j < length (app_subs a)" "sp_pc (app_subs a ! j) = S_Create c spec"
      "b = sub_create j c spec a"
  | j i where "x = P_FeedOpen j" "j < length (app_subs a)" "sp_feed (app_subs a ! j) = F_Open i" "b = feed_open j i a"
  | j r m where "x = P_FeedSend j m" "j < length (app_subs a)" "sp_feed (app_subs a ! j) = F_Range r"
      "b = feed_send j r m a"
  | j r where "x = P_FeedClosed j" "j < length (app_subs a)" "sp_feed (app_subs a ! j) = F_Range r"
      "b = set_sub j ((app_subs a ! j)\<lparr>sp_feed := F_Ended\<rparr>) a"
  | r s where "x = P_Drain r" "r < length (objs (app_broker a))" "drain_step (stream_at r a) = Some s"
      "b = set_stream r s a"
  | j i r s res where "x = P_Recv j i" "j < length (app_subs a)" "sp_pc (app_subs a ! j) = S_Monitor r"
      "mp_pc (sys_mons (app_sys a) ! j) = M_Idle" "\<not> blocked (mp_loop (sys_mons (app_sys a) ! j))"
      "(s, res) \<in> set (recv_outcomes r a)" "b = mon_receive cd j r (s, res) a"
  | y t where "x = P_Inner y" "internal y" "exec_act cd p y (app_sys a) = Some t" "b = a\<lparr>app_sys := t\<rparr>"
  using assms
  by (cases x)
    (auto simp: app_exec_def split: if_splits sub_pc.splits feed_pc.splits option.splits, metis nth_mem prod.collapse)

lemma app_exec_ready: "app_exec cd p em x a = Some b \<Longrightarrow> \<not> app_panic a \<and> sys_crash (app_sys a) = None"
  by (auto simp: app_exec_def split: if_splits)

lemma app_exec_ok:
  assumes step: "app_exec cd p em x a = Some b" and ok: "app_ok a"
  shows "app_ok b"
  using step
proof (cases rule: app_exec_cases)
  case (inner y t)
  then have t: "act_enabled y (app_sys a)" "t = act_do cd p y (app_sys a)" by (auto simp: exec_act_def split: if_splits)
  show ?thesis
    using app_okD [OF ok] internal_keeps [OF inner(2) t(1), of cd p] t(2)
    by (simp add: app_ok_def inner(4) stream_at_def)
qed (use ok in \<open>auto intro: app_ok_watch app_ok_event app_ok_end app_ok_request app_ok_lookup app_ok_create
      app_ok_feed_open app_ok_feed_send app_ok_feed_end app_ok_drain app_ok_recv\<close>)

subsection \<open>The application is the running system\<close>

lemma path_reachable: "(sys_step cd p)\<^sup>*\<^sup>* s t \<Longrightarrow> reachable cd p s \<Longrightarrow> reachable cd p t"
  by (induction rule: rtranclp_induct) (auto intro: reach_step)

lemma announces_path:
  "sys_crash (app_sys a) = None \<Longrightarrow> \<not> sys_cancelled (app_sys a) \<Longrightarrow>
   (sys_step cd p)\<^sup>*\<^sup>* (app_sys a) (app_sys (fold announce ns a)) \<and> sys_crash (app_sys (fold announce ns a)) = None \<and>
   \<not> sys_cancelled (app_sys (fold announce ns a))"
proof (induction ns arbitrary: a)
  case Nil
  then show ?case by simp
next
  case (Cons n ns)
  have "app_sys (announce n a) = do_connect n (app_sys a)" by (simp add: announce_def)
  moreover have "sys_step cd p (app_sys a) (do_connect n (app_sys a))"
    using Cons.prems by (rule sys_step.connect)
  ultimately show ?case
    using Cons.IH [of "announce n a"] Cons.prems by (auto simp: do_connect_def intro: converse_rtranclp_into_rtranclp)
qed

lemma end_path:
  "sys_crash (app_sys a) = None \<Longrightarrow> \<not> sys_cancelled (app_sys a) \<Longrightarrow>
   sys_step cd p (app_sys a) (app_sys (topo_end a))"
  by (simp add: topo_end_def sys_step.cancel)

lemma sub_sys [simp]:
  "app_sys (set_sub j m a) = app_sys a" "app_sys (sub_request v em j a) = app_sys a"
  "app_sys (sub_opened j r a) = app_sys a" "app_sys (sub_lookup j c spec a) = app_sys a"
  "app_sys (sub_create j c spec a) = app_sys a" "app_sys (feed_open j i a) = app_sys a"
  "app_sys (feed_send j r msg a) = app_sys a"
  by (simp_all add: set_sub_def sub_request_def sub_opened_def sub_lookup_def sub_create_def feed_open_def
      feed_send_def Let_def split: sum.split prod.split option.split)

lemma mon_receive_sys [simp]: "app_sys (mon_receive cd j r (s, res) a) = do_recv cd j res (app_sys a)"
  by (simp add: mon_receive_def Let_def split: sum.split)

text \<open>A step of the application is a run of the system: none of its steps, one, or one per node
  that an event announces.\<close>

lemma app_exec_path:
  assumes step: "app_exec cd p em x a = Some b" and ok: "app_ok a"
  shows "(sys_step cd p)\<^sup>*\<^sup>* (app_sys a) (app_sys b)"
proof -
  have live: "sys_crash (app_sys a) = None" using app_exec_ready [OF step] by blast
  note can = app_okD(1) [OF ok]
  from step show ?thesis
  proof (cases rule: app_exec_cases)
    case (watch v)
    then show ?thesis
      using live can end_path by (auto simp: app_watch_def split: option.split)
  next
    case (event v ev)
    then have c: "\<not> sys_cancelled (app_sys a)" using can by simp
    have path: "(sys_step cd p)\<^sup>*\<^sup>* (app_sys a) (app_sys (fold announce ns a))"
      "(sys_step cd p)\<^sup>*\<^sup>* (app_sys a) (app_sys (topo_end (fold announce ns a)))" for ns
      using announces_path [OF live c, of cd p ns] end_path [of "fold announce ns a" cd p]
      by (auto intro: rtranclp.rtrancl_into_rtrancl)
    then show ?thesis
      using event by (auto simp: app_event_def Let_def split: go.split prod.split option.split)
  next
    case closed
    then show ?thesis using live can end_path by auto
  next
    case (recv j i r s res)
    have "length (sys_mons (app_sys a)) = length (app_subs a)"
      using app_okD(2) [OF ok] by (metis length_map)
    then have "sys_step cd p (app_sys a) (do_recv cd j res (app_sys a))"
      using recv live by (intro sys_step.recv) simp_all
    then show ?thesis using recv by simp
  next
    case (inner y t)
    then show ?thesis using exec_act_step by auto
  qed simp_all
qed

lemma app_exec_reachable:
  "app_exec cd p em x a = Some b \<Longrightarrow> app_ok a \<Longrightarrow> reachable cd p (app_sys a) \<Longrightarrow> reachable cd p (app_sys b)"
  by (rule path_reachable [OF app_exec_path])

lemma path_acts: "(sys_step cd p)\<^sup>*\<^sup>* s t \<Longrightarrow> \<exists>as. exec_acts cd p as s = Some t"
proof (induction rule: converse_rtranclp_induct)
  case base
  show ?case by (rule exI [of _ "[]"]) simp
next
  case (step s u)
  then obtain a as where "exec_act cd p a s = Some u" "exec_acts cd p as u = Some t"
    using step_exec_act by blast
  then show ?case by (intro exI [of _ "a # as"]) simp
qed

lemma app_run_path:
  "app_run cd p em xs a = Some b \<Longrightarrow> app_ok a \<Longrightarrow> (sys_step cd p)\<^sup>*\<^sup>* (app_sys a) (app_sys b)"
proof (induction xs arbitrary: a)
  case (Cons x xs)
  then obtain c where c: "app_exec cd p em x a = Some c" "app_run cd p em xs c = Some b"
    by (auto split: option.splits)
  then show ?case
    using Cons.IH [OF c(2) app_exec_ok [OF c(1)]] app_exec_path [OF c(1)] Cons.prems(2) by (meson rtranclp_trans)
qed simp

subsection \<open>What the monitors accepted\<close>

text \<open>\<open>proto.Unmarshal\<close> of no bytes succeeds with an empty message.\<close>

definition empty_decodes :: "codec \<Rightarrow> bool" where
  "empty_decodes cd \<longleftrightarrow> unmarshal_header cd [] = Inr HeaderFormatUnset"

lemma parse_zero: "empty_decodes cd \<Longrightarrow> \<exists>e. parse_indication cd zero_indication = Fail e"
  by (cases "unmarshal_message cd []")
    (auto simp: empty_decodes_def parse_indication_def zero_indication_def GetIndicationHeaderFormat2_def GetGNbUeid_def)

lemma accepted_append [simp]: "accepted cd f (xs @ ys) = accepted cd f xs @ accepted cd f ys"
  by (simp add: accepted_def List.map_filter_def)

lemma accepted_Nil [simp]: "accepted cd f [] = []"
  by (simp add: accepted_def List.map_filter_def)

lemma accepted_one: "accepted cd f [(r, j, m)] = (case parse_indication cd m of Ret rq \<Rightarrow> [(f j, rq)] | _ \<Rightarrow> [])"
  by (simp add: accepted_def List.map_filter_def split: go.split)

lemma accepted_cong:
  assumes "\<And>r j m. (r, j, m) \<in> set l \<Longrightarrow> f j = g j"
  shows "accepted cd f l = accepted cd g l"
proof -
  have "(case x of (r, j, m) \<Rightarrow> case parse_indication cd m of Ret rq \<Rightarrow> Some (f j, rq) | _ \<Rightarrow> None) =
      (case x of (r, j, m) \<Rightarrow> case parse_indication cd m of Ret rq \<Rightarrow> Some (g j, rq) | _ \<Rightarrow> None)"
    if "x \<in> set l" for x
    using assms that by (auto split: prod.split go.split)
  then show ?thesis unfolding accepted_def by (induction l) (auto simp: List.map_filter_simps split: option.split)
qed

definition name_of :: "app \<Rightarrow> nat \<Rightarrow> node_id" where
  "name_of a j = sp_node (app_subs a ! j)"

definition inds_ok :: "codec \<Rightarrow> app \<Rightarrow> bool" where
  "inds_ok cd a \<longleftrightarrow> sys_inds (app_sys a) = accepted cd (name_of a) (app_got a)"

lemma mon_recv_inds:
  assumes "empty_decodes cd"
  shows "\<not> blocked (mp_loop m) \<Longrightarrow> mon_recv cd (Inr ind) m = Ret (m', new) \<Longrightarrow>
      new = (case parse_indication cd ind of Ret rq \<Rightarrow> [(mp_node m, rq)] | _ \<Rightarrow> [])"
    and "\<not> blocked (mp_loop m) \<Longrightarrow> mon_recv cd (Inr ind) m \<in> {Panic, Fail e} \<Longrightarrow> parse_indication cd ind = Panic"
    and "\<exists>m'. mon_recv cd (Inl e) m = Ret (m', [])"
  using parse_zero [OF assms] by (auto simp: mon_recv_def split: go.splits)

lemma do_recv_inds:
  assumes "empty_decodes cd" "\<not> blocked (mp_loop (sys_mons s ! j))"
  shows "sys_inds (do_recv cd j (Inr ind) s) =
      sys_inds s @ (case parse_indication cd ind of Ret rq \<Rightarrow> [(mp_node (sys_mons s ! j), rq)] | _ \<Rightarrow> [])"
    and "sys_inds (do_recv cd j (Inl e) s) = sys_inds s"
proof -
  show "sys_inds (do_recv cd j (Inr ind) s) =
      sys_inds s @ (case parse_indication cd ind of Ret rq \<Rightarrow> [(mp_node (sys_mons s ! j), rq)] | _ \<Rightarrow> [])"
    using mon_recv_inds(1,2) [OF assms] by (fastforce simp: do_recv_def split: go.split)
  show "sys_inds (do_recv cd j (Inl e) s) = sys_inds s"
    using mon_recv_inds(3) [OF assms(1), of e "sys_mons s ! j"] by (auto simp: do_recv_def)
qed

lemma inds_ok_same:
  assumes "inds_ok cd a" "app_ok a" "sys_inds (app_sys b) = sys_inds (app_sys a)" "app_got b = app_got a"
    and "\<And>j. j < length (app_subs a) \<Longrightarrow> name_of b j = name_of a j"
  shows "inds_ok cd b"
proof -
  have "accepted cd (name_of b) (app_got a) = accepted cd (name_of a) (app_got a)"
    using app_okD(6) [OF assms(2)] assms(5) by (intro accepted_cong) (auto simp: log_ok_def)
  then show ?thesis using assms(1,3,4) by (simp add: inds_ok_def)
qed

lemma set_sub_name: "sp_node m = sp_node (app_subs a ! j) \<Longrightarrow> name_of (set_sub j m a) i = name_of a i"
  by (cases "i = j \<and> j < length (app_subs a)") (auto simp: name_of_def set_sub_def list_update_beyond)

lemma sub_names [simp]:
  "name_of (sub_request v em j a) i = name_of a i" "name_of (sub_opened j r a) i = name_of a i"
  "name_of (sub_lookup j c spec a) i = name_of a i" "name_of (feed_open j f a) i = name_of a i"
  by (simp_all add: sub_request_def sub_opened_def sub_lookup_def feed_open_def Let_def set_sub_name
      split: sum.split option.split prod.split)

lemma name_of_same: "app_subs b = app_subs a \<Longrightarrow> name_of b i = name_of a i"
  by (simp add: name_of_def)

lemma name_of_updates [simp]:
  "name_of (a\<lparr>app_broker := b\<rparr>) i = name_of a i" "name_of (a\<lparr>app_fed := l\<rparr>) i = name_of a i"
  "name_of (a\<lparr>app_taken := l\<rparr>) i = name_of a i"
  "name_of (a\<lparr>app_got := l\<rparr>) i = name_of a i" "name_of (a\<lparr>app_sys := t\<rparr>) i = name_of a i"
  "name_of (a\<lparr>app_panic := c\<rparr>) i = name_of a i" "name_of (a\<lparr>app_topo := w\<rparr>) i = name_of a i"
  "name_of (set_stream r s a) i = name_of a i" "name_of (topo_end a) i = name_of a i"
  by (simp_all add: name_of_def set_stream_def topo_end_def)

lemma sub_create_name [simp]: "name_of (sub_create j c spec a) i = name_of a i"
  by (simp add: sub_create_def split_beta)

lemma feed_send_name [simp]: "name_of (feed_send j r msg a) i = name_of a i"
  using set_sub_name [of "(app_subs a ! j)\<lparr>sp_feed := F_Ended\<rparr>" "set_stream r s a" j i for s]
  by (simp add: feed_send_def split: prod.split sum.split)

lemma sub_got [simp]:
  "app_got (set_sub j m a) = app_got a" "app_got (sub_request v em j a) = app_got a"
  "app_got (sub_opened j r a) = app_got a" "app_got (sub_lookup j c spec a) = app_got a"
  "app_got (sub_create j c spec a) = app_got a" "app_got (feed_open j i a) = app_got a"
  "app_got (feed_send j r msg a) = app_got a" "app_got (topo_end a) = app_got a" "app_got (announce n a) = app_got a"
  by (simp_all add: set_sub_def sub_request_def sub_opened_def sub_lookup_def sub_create_def feed_open_def
      feed_send_def topo_end_def announce_def Let_def split: sum.split prod.split option.split)

lemma announces_same:
  "app_got (fold announce ns a) = app_got a \<and> sys_inds (app_sys (fold announce ns a)) = sys_inds (app_sys a) \<and>
   (\<forall>i < length (app_subs a). name_of (fold announce ns a) i = name_of a i)"
proof (induction ns arbitrary: a)
  case Nil
  then show ?case by simp
next
  case (Cons n ns)
  have "i < length (app_subs a) \<Longrightarrow> name_of (announce n a) i = name_of a i" for i
    by (simp add: name_of_def announce_def nth_append)
  moreover have "length (app_subs a) \<le> length (app_subs (announce n a))"
    "sys_inds (app_sys (announce n a)) = sys_inds (app_sys a)"
    by (simp_all add: announce_def do_connect_def)
  ultimately show ?case using Cons.IH [of "announce n a"] by auto
qed

lemma app_exec_inds:
  assumes step: "app_exec cd p em x a = Some b" and ok: "app_ok a" and inds: "inds_ok cd a" and cd: "empty_decodes cd"
  shows "inds_ok cd b"
  using step
proof (cases rule: app_exec_cases)
  case (watch v)
  then show ?thesis
    by (intro inds_ok_same [OF inds ok])
      (auto simp: app_watch_def topo_end_def do_cancel_def name_of_def split: option.split)
next
  case (event v ev)
  then show ?thesis
    using announces_same [where a = a]
    by (intro inds_ok_same [OF inds ok])
      (auto simp: app_event_def Let_def topo_end_def do_cancel_def name_of_def split: go.split prod.split option.split)
next
  case closed
  then show ?thesis
    by (intro inds_ok_same [OF inds ok]) (auto simp: topo_end_def do_cancel_def name_of_def)
next
  case (recv j i r s res)
  have len: "length (sys_mons (app_sys a)) = length (app_subs a)"
    using app_okD(2) [OF ok] by (metis length_map)
  have "map mp_node (sys_mons (app_sys a)) ! j = map sp_node (app_subs a) ! j"
    using app_okD(2) [OF ok] by simp
  then have name: "mp_node (sys_mons (app_sys a) ! j) = name_of a j"
    using recv(2) len by (simp add: name_of_def)
  have names: "name_of b k = name_of a k" for k
    by (simp add: recv(7) mon_receive_def Let_def split: sum.split)
  show ?thesis
  proof (cases res)
    case (Inl e)
    then show ?thesis
      using do_recv_inds(2) [OF cd recv(5)] names recv(7)
      by (intro inds_ok_same [OF inds ok]) (simp_all add: mon_receive_def Let_def)
  next
    case (Inr ind)
    have "name_of b = name_of a" using names by blast
    then show ?thesis
      using do_recv_inds(1) [OF cd recv(5), of ind, unfolded name] inds recv(7) Inr
      by (simp add: inds_ok_def mon_receive_def Let_def accepted_one)
  qed
next
  case (inner y t)
  then have t: "act_enabled y (app_sys a)" "t = act_do cd p y (app_sys a)" by (auto simp: exec_act_def split: if_splits)
  show ?thesis
    using internal_keeps [OF inner(2) t(1), of cd p] t(2) inner(4)
    by (intro inds_ok_same [OF inds ok]) simp_all
qed (auto intro!: inds_ok_same [OF inds ok] simp: set_sub_name)

lemma app_runs:
  "app_run cd p em xs a = Some b \<Longrightarrow> app_ok a \<Longrightarrow> reachable cd p (app_sys a) \<Longrightarrow>
   app_ok b \<and> reachable cd p (app_sys b) \<and> (empty_decodes cd \<longrightarrow> inds_ok cd a \<longrightarrow> inds_ok cd b)"
proof (induction xs arbitrary: a)
  case Nil
  then show ?case by simp
next
  case (Cons x xs)
  then obtain c where c: "app_exec cd p em x a = Some c" "app_run cd p em xs c = Some b"
    by (auto split: option.splits)
  then show ?case
    using Cons.IH [OF c(2)] app_exec_ok [OF c(1)] app_exec_reachable [OF c(1)] app_exec_inds [OF c(1)] Cons.prems(2,3)
    by blast
qed

lemma app_runs_init:
  assumes "app_run cd p em xs app_init = Some a"
  shows "app_ok a" "reachable cd p (app_sys a)" "empty_decodes cd \<Longrightarrow> inds_ok cd a"
proof -
  have "app_sys app_init = sys_init" "inds_ok cd app_init"
    by (simp_all add: app_init_def inds_ok_def sys_init_def)
  then have "reachable cd p (app_sys app_init)" "inds_ok cd app_init" by (simp_all add: reach_init)
  then show "app_ok a" "reachable cd p (app_sys a)" "empty_decodes cd \<Longrightarrow> inds_ok cd a"
    using app_runs [OF assms app_ok_init] by auto
qed

text \<open>With answers that do not change, the topology steps are the loop of \<open>watchE2Connections\<close>.\<close>

lemma announces_nodes:
  "map np_node (sys_nodes (app_sys (fold announce ns a))) = map np_node (sys_nodes (app_sys a)) @ ns \<and>
   app_topo (fold announce ns a) = app_topo a \<and> app_panic (fold announce ns a) = app_panic a \<and>
   sys_crash (app_sys (fold announce ns a)) = sys_crash (app_sys a)"
  by (induction ns arbitrary: a) (simp_all add: announce_def do_connect_def)

lemma topo_events_run:
  assumes "topo_loop v evs = Ret (ns, None)" "app_topo a = W_Loop" "\<not> app_panic a" "sys_crash (app_sys a) = None"
  shows "\<exists>b. app_run cd p em (map (P_Event v) evs) a = Some b \<and> app_topo b = W_Loop \<and>
    map np_node (sys_nodes (app_sys b)) = map np_node (sys_nodes (app_sys a)) @ ns"
  using assms
proof (induction evs arbitrary: a ns)
  case Nil
  then show ?case by simp
next
  case (Cons ev evs)
  then obtain ns1 ns2 where t: "topo_turn v ev = Ret (ns1, None)" "topo_loop v evs = Ret (ns2, None)" "ns = ns1 @ ns2"
    by (auto simp: go_simps split: option.splits)
  let ?b = "fold announce ns1 a"
  note b = announces_nodes [of ns1 a]
  have e: "app_exec cd p em (P_Event v ev) a = Some ?b"
    using Cons.prems t(1) by (simp add: app_exec_def app_event_def)
  show ?case using Cons.IH [OF t(2), of ?b] b Cons.prems e t(3) by auto
qed

lemma app_follows_e2_Start:
  assumes "e2_Start v em evs = Ret (ns, False)"
  shows "\<exists>a. app_run cd p em (P_Watch v # map (P_Event v) evs) app_init = Some a \<and> app_topo a = W_Loop \<and>
    map np_node (sys_nodes (app_sys a)) = ns"
proof -
  obtain r where r: "EM_rnibClient em \<noteq> None" "WatchE2Connections (env_topo v) = None" "topo_loop v evs = Ret (ns, None)"
    using assms by (auto simp: e2_Start_def watchE2Connections_def go_simps split: option.splits)
  let ?a = "app_init\<lparr>app_topo := W_Loop\<rparr>"
  have "app_exec cd p em (P_Watch v) app_init = Some ?a"
    using r by (auto simp: app_exec_def app_watch_def app_init_def sys_init_def)
  moreover have "app_topo ?a = W_Loop" "\<not> app_panic ?a" "sys_crash (app_sys ?a) = None"
    "sys_nodes (app_sys ?a) = []"
    by (simp_all add: app_init_def sys_init_def)
  ultimately show ?thesis using topo_events_run [OF r(3), of ?a cd p em] by simp
qed

subsection \<open>A concrete run\<close>

text \<open>One node is announced, its subscription opened, one indication delivered and handed over.\<close>

lemma sample_turn: "topo_turn sample_env (relation_event T_ADDED ''n1'') = Ret ([''n1''], None)"
proof -
  have t: "relation_target (relation_event t n) = Ret n" for t n
    by (simp add: relation_target_def relation_event_def control_relation_def)
  have h: "HasRcRANFunction (env_topo sample_env) (env_ord sample_env) n oid" for n
    using sample_has_rc [of "[''n1'', ''n2'']" n] by (simp add: sample_env_def)
  show ?thesis using h t by (simp add: topo_turn_def) (simp add: relation_event_def)
qed

definition sample_spec :: sub_spec where
  "sample_spec = \<lparr>SubActions = [\<lparr>ActionID = RicActionID, ActionPayload = [4]\<rparr>], EventTriggerPayload = [3]\<rparr>"

lemma sample_request: "request_subscription sample_env sample_manager ''n1'' = Inr (''n1-ch'', sample_spec)"
proof -
  have "GetE2NodeAspects (env_topo sample_env) ''n1'' = Inr \<lparr>ServiceModels = [''rc'' \<mapsto> rc_model]\<rparr>"
    by (simp add: GetE2NodeAspects_def sample_env_def sample_topo_def)
  moreover have "CreateEventTriggerDefinition (env_pdu sample_env) = Inr [3]"
    "CreateSubscriptionAction (env_pdu sample_env) = Inr [\<lparr>ActionID = RicActionID, ActionPayload = [4]\<rparr>]"
    by (simp_all add: sample_env_def sample_pdu_def CreateEventTriggerDefinition_def
        CreateSubscriptionAction_def)
  moreover have "getRanFunction (env_unmarshal sample_env) sample_manager (env_ord sample_env)
      [''rc'' \<mapsto> rc_model] = Inr ()"
    using sample_ran_function by (simp add: sample_env_def)
  ultimately show ?thesis
    by (simp add: request_subscription_def Let_def sample_spec_def) (simp add: sample_env_def)
qed

definition app_boot :: "unit app_act list" where
  "app_boot = [P_Watch sample_env, P_Event sample_env (relation_event T_ADDED ''n1''),
     P_Inner (A_CtrlWatch 0 []), P_Inner (A_NodeWatch 0 1 []),
     P_Request sample_env 0, P_Lookup 0, P_Create 0, P_FeedOpen 0,
     P_FeedSend 0 (sample_ind 1), P_Drain 0, P_Recv 0 0]"

definition app_handover :: "unit app_act list" where
  "app_handover = map P_Inner [A_Mon 0, A_Mon 0, A_Start 0 [0, 1],
     A_ToCtrl 0, A_Ctrl, A_Ctrl, A_Ctrl, A_Start 0 [1, 0],
     A_ToNode 0 0, A_Node 0, A_ToNode 1 0, A_Node 0, A_Node 0]"

lemmas app_run_simps = app_exec_def app_watch_def app_event_def announce_def sub_request_def set_sub_def
  sub_lookup_def sub_create_def sub_opened_def feed_open_def feed_send_def stream_at_def set_stream_def
  mon_receive_def recv_outcomes_def app_init_def open_lookup_def open_create_def NewBroker_def
  newBufferedStream_def newBufferedWriter_def GetWriter_def info_of_def stream_defs bufferMaxSize_def

lemma sample_watch: "WatchE2Connections (env_topo sample_env) = None" "EM_rnibClient sample_manager = Some 1"
  by (simp_all add: WatchE2Connections_def sample_env_def sample_topo_def sample_manager_def)
lemma app_boot_run:
  "\<exists>a. app_run sample_codec sample_pdu sample_manager app_boot app_init = Some a \<and>
    app_fed a = [(0, 0, sample_ind 1)] \<and> app_got a = [(0, 0, sample_ind 1)] \<and> length (objs (app_broker a)) = 1 \<and>
    length (app_subs a) = 1 \<and>
   (\<exists>b. app_run sample_codec sample_pdu sample_manager app_handover a = Some b \<and>
      app_fed b = [(0, 0, sample_ind 1)] \<and> length (app_subs b) = 1 \<and> 
      sys_controls (app_sys b) = [sample_control sample_rq1])"
  by (simp add: app_boot_def app_handover_def app_run_simps run_simps sample_watch sample_turn sample_request)
lemma sample_empty: "empty_decodes sample_codec"
  by (simp add: empty_decodes_def sample_codec_def)

lemma app_run_append:
  "app_run cd p em xs a = Some b \<Longrightarrow> app_run cd p em ys b = Some c \<Longrightarrow> app_run cd p em (xs @ ys) a = Some c"
  by (induction xs arbitrary: a) (auto split: option.splits)

subsection \<open>Properties\<close>

text \<open>
  The application is the running system: along every run of topology watch, subscriptions,
  streams, monitors, controller and watchers, the part that the monitors, the controller and
  the watchers see is a reachable state of the interleaved system, so every property proved of
  that system holds in the application; its nodes are the announced ones, and its cancellation
  is the end of the topology watch.
\<close>

lemma app_refines_system:
  assumes "app_run cd p em xs app_init = Some a"
  shows "reachable cd p (app_sys a) \<and> map sp_node (app_subs a) = map mp_node (sys_mons (app_sys a)) \<and>
    (sys_cancelled (app_sys a) \<longleftrightarrow> app_topo a = W_Ended)"
  using app_runs_init [OF assms] app_okD(1,2) [of a] by blast

text \<open>
  C14. Control messages end to end: when no two nodes were given the same subscription channel,
  every control message goes to a node whose own subscription delivered an indication that
  parses to the UE and the target cell the message carries, with the same call process.
\<close>

theorem control_end_to_end:
  assumes run: "app_run cd p em xs app_init = Some a" and cd: "empty_decodes cd"
    and chans: "\<forall>i < length (app_subs a). \<forall>j < length (app_subs a).
      sp_chan (app_subs a ! i) \<noteq> None \<and> sp_chan (app_subs a ! i) = sp_chan (app_subs a ! j) \<longrightarrow>
      sp_node (app_subs a ! i) = sp_node (app_subs a ! j)"
    and c: "c \<in> set (sys_controls (app_sys a))"
  shows "\<exists>r j ind rq. (r, j, ind) \<in> set (app_fed a) \<and> sp_node (app_subs a ! j) = cm_node c \<and>
    parse_indication cd ind = Ret rq \<and> cm_header c = bytes_or_nil (CreateRcControlHeader p (rq_ue rq)) \<and>
    cm_payload c = bytes_or_nil (CreateRcControlMessage p (rq_tgt rq)) \<and> cm_cpid c = CallProcessId ind"
proof -
  note inv = app_runs_init [OF run]
  obtain rq where rq: "(cm_node c, rq) \<in> set (sys_inds (app_sys a))"
    "cm_header c = bytes_or_nil (CreateRcControlHeader p (rq_ue rq))"
    "cm_payload c = bytes_or_nil (CreateRcControlMessage p (rq_tgt rq))" "cm_cpid c = rq_cpid rq"
    using sys_invD(6) [OF reachable_inv [OF inv(2)] c] by (auto simp: control_ok_def)
  have "(cm_node c, rq) \<in> set (accepted cd (name_of a) (app_got a))"
    using rq(1) inv(3) [OF cd] by (simp add: inds_ok_def)
  then obtain r j ind where g: "(r, j, ind) \<in> set (app_got a)" "parse_indication cd ind = Ret rq" "name_of a j = cm_node c"
    by (auto simp: accepted_def List.map_filter_def split: go.splits)
  then have j: "j < length (app_subs a)" "sp_pc (app_subs a ! j) = S_Monitor r"
    using app_okD(6) [OF inv(1)] by (auto simp: log_ok_def)
  note sj = reading [OF inv(1) j]
  have "ind \<in> set (log_for r (app_got a))" using g(1) by (force simp: log_for_def)
  then have "ind \<in> set (log_for r (app_fed a))" using app_okD(7) [OF inv(1) sj(1)] by simp
  then obtain i where f: "(r, i, ind) \<in> set (app_fed a)" by (auto simp: log_for_def)
  then have i: "i < length (app_subs a)" "sp_pc (app_subs a ! i) = S_Monitor r"
    using app_okD(5) [OF inv(1)] by (auto simp: log_ok_def)
  have "sp_node (app_subs a ! i) = cm_node c"
    using chans [rule_format, OF i(1) j(1)] sj(2) reading(2) [OF inv(1) i] g(3) by (simp add: name_of_def)
  then show ?thesis using f g(2) rq parse_indication_cpid [OF g(2)] by metis
qed

theorem control_end_to_end_witness:
  "\<exists>a r j ind. app_run sample_codec sample_pdu sample_manager (app_boot @ app_handover) app_init = Some a \<and>
     (r, j, ind) \<in> set (app_fed a) \<and> sp_node (app_subs a ! j) = ''n1'' \<and>
     cm_cpid (sample_control sample_rq1) = CallProcessId ind"
proof -
  obtain a where a: "app_run sample_codec sample_pdu sample_manager (app_boot @ app_handover) app_init = Some a"
    "length (app_subs a) = 1" "sys_controls (app_sys a) = [sample_control sample_rq1]"
    using app_boot_run app_run_append by blast
  have "\<forall>i < length (app_subs a). \<forall>j < length (app_subs a).
      sp_chan (app_subs a ! i) \<noteq> None \<and> sp_chan (app_subs a ! i) = sp_chan (app_subs a ! j) \<longrightarrow>
      sp_node (app_subs a ! i) = sp_node (app_subs a ! j)"
    using a(2) by simp
  from control_end_to_end [OF a(1) sample_empty this, of "sample_control sample_rq1"] a(3) show ?thesis
    using a(1) by (auto simp: sample_control_def control_for_def)
qed

end
