(* ===== verification/Mho_Mailbox.thy ===== *)
theory Mho_Mailbox
  imports Mho_Settling
begin

text \<open>
  Messages in transit. The inbox of a channel is the multiset of events that its reader has
  still to receive: the goroutines of \<open>Send\<close> that have not started, and the started ones whose
  range has the channel ahead of it. While the watchers are not cancelled, every registered
  reader has exactly one watcher; then a \<open>Put\<close> adds one event to each inbox, a delivery takes
  one event out of one inbox, and no other step changes an inbox.
\<close>

definition inbox :: "chan \<Rightarrow> sys \<Rightarrow> event multiset" where
  "inbox c s = mset (sends (mstore (sys_world s))) +
     sum_list (map (\<lambda>x. replicate_mset (count_list (snd x) c) (fst x)) (sys_active s))"

definition heads_for :: "chan \<Rightarrow> watcher_map \<Rightarrow> uuid set" where
  "heads_for c ws = {i. \<exists>w. ws i = Some w \<and> wch w = c}"

definition regs_ok :: "sys \<Rightarrow> bool" where
  "regs_ok s \<longleftrightarrow> (\<forall>c. reader_ok s c \<longrightarrow> \<not> sys_cancelled s \<longrightarrow>
     (\<exists>i. heads_for c (watchers (mstore (sys_world s))) = {i}))"

subsection \<open>One watcher per registered reader\<close>

lemma regs_ok_init: "regs_ok sys_init"
  by (simp add: regs_ok_def sys_init_def reader_ok_def)

lemma regs_ok_simple:
  assumes "regs_ok s" "watchers (mstore (sys_world t)) = watchers (mstore (sys_world s))"
    and "\<And>c. reader_ok t c \<Longrightarrow> reader_ok s c" "\<not> sys_cancelled t \<Longrightarrow> \<not> sys_cancelled s"
  shows "regs_ok t"
  using assms unfolding regs_ok_def by metis

lemma regs_ok_cancelled: "sys_cancelled t \<Longrightarrow> regs_ok t"
  by (simp add: regs_ok_def)

text \<open>The channel of a new watcher was nobody's before.\<close>

lemma regs_ok_watch:
  assumes regs: "regs_ok s" and ok: "chan_ok s" and i: "i \<notin> dom (watchers (mstore (sys_world s)))"
    and new: "\<not> reader_ok s ch"
    and w: "watchers (mstore (sys_world t)) = watchers (mstore (sys_world (do_watch i ch late s)))"
    and "sys_cancelled t = sys_cancelled s"
    and rd: "\<And>c. reader_ok t c \<Longrightarrow> c = ch \<or> reader_ok s c"
  shows "regs_ok t"
proof (unfold regs_ok_def, intro allI impI)
  fix c
  assume c: "reader_ok t c" and "\<not> sys_cancelled t"
  let ?ws = "watchers (mstore (sys_world s))"
  have ws: "watchers (mstore (sys_world t)) = ?ws(i \<mapsto> \<lparr>wid = i, wch = ch\<rparr>)"
    by (simp add: w do_watch_def store_simps)
  have no: "heads_for ch ?ws = {}"
    using chan_okD(3) [OF ok] new by (force simp: heads_for_def ran_def)
  show "\<exists>i. heads_for c (watchers (mstore (sys_world t))) = {i}"
  proof (cases "c = ch")
    case True
    then have "heads_for c (watchers (mstore (sys_world t))) = {i}"
      using no by (auto simp: ws heads_for_def)
    then show ?thesis by blast
  next
    case False
    then have "heads_for c (watchers (mstore (sys_world t))) = heads_for c ?ws"
      using i by (auto simp: ws heads_for_def)
    then show ?thesis
      using False rd [OF c] regs \<open>\<not> sys_cancelled t\<close> assms(6) by (simp add: regs_ok_def)
  qed
qed

lemma node_chan: "chan_ok s \<Longrightarrow> j < length (sys_nodes s) \<Longrightarrow> np_chan (sys_nodes s ! j) = Suc j"
  using chan_okD(5) by (simp add: node_proc_ok_def)

lemma reader_ok_ctrl [simp]: "reader_ok s ctrl_chan \<longleftrightarrow> sys_ctrl s \<noteq> C_Init"
  by (simp add: reader_ok_def ctrl_chan_def)

lemma reader_ok_node [simp]:
  "reader_ok s (Suc j) \<longleftrightarrow> j < length (sys_nodes s) \<and> np_pc (sys_nodes s ! j) \<noteq> N_Init"
  by (auto simp: reader_ok_def ctrl_chan_def)

lemma reader_okE:
  assumes "reader_ok s c"
  obtains "c = ctrl_chan" "sys_ctrl s \<noteq> C_Init"
  | j where "c = Suc j" "j < length (sys_nodes s)" "np_pc (sys_nodes s ! j) \<noteq> N_Init"
  using assms by (auto simp: reader_ok_def)

lemma sys_step_regs_ok:
  assumes "sys_step cd p s t" "regs_ok s" "chan_ok s" "crash_ok s"
  shows "regs_ok t"
  using assms
proof (induction rule: sys_step.induct)
  case (connect s n)
  then show ?case
    by (elim regs_ok_simple) (auto simp: do_connect_def reader_ok_def nth_append split: if_splits)
next
  case (ctrl_watch s late i)
  show ?case
  proof (rule regs_ok_watch [OF ctrl_watch(5,6,4), of ctrl_chan _ late])
    show "c = ctrl_chan \<or> reader_ok s c" if "reader_ok (do_ctrl_watch i late s) c" for c
      using that by (auto simp: do_ctrl_watch_def do_watch_def reader_ok_def)
  qed (use ctrl_watch in \<open>simp_all add: do_ctrl_watch_def do_watch_def\<close>)
next
  case (node_watch s j late i)
  show ?case
  proof (rule regs_ok_watch [OF node_watch(6,7,5), of "np_chan (sys_nodes s ! j)" _ late])
    show "\<not> reader_ok s (np_chan (sys_nodes s ! j))"
      using node_watch by (simp add: node_chan)
    show "c = np_chan (sys_nodes s ! j) \<or> reader_ok s c" if "reader_ok (do_node_watch j i late s) c" for c
      using that node_watch(2,7)
      by (auto simp: do_node_watch_def do_watch_def Let_def node_chan reader_ok_def nth_list_update split: if_splits)
  qed (simp_all add: do_node_watch_def do_watch_def Let_def)
next
  case (cancel s)
  then show ?case by (intro regs_ok_cancelled) (simp add: do_cancel_def)
next
  case (unwatch s j i order)
  then show ?case by (intro regs_ok_cancelled) (simp add: do_unwatch_def)
next
  case (close s j)
  then show ?case by (intro regs_ok_cancelled) (simp add: do_close_def)
next
  case (send_closed s i c)
  then show ?case by (elim regs_ok_simple) (auto simp: do_send_closed_def reader_ok_def)
next
  case (node_end s j)
  then show ?case by (intro regs_ok_cancelled) (auto simp: do_node_end_def crash_ok_def)
next
  case (mon_ctx s j)
  then show ?case by (intro regs_ok_cancelled) (simp add: do_mon_ctx_def)
next
  case (recv s j r)
  then show ?case by (elim regs_ok_simple) (auto simp: do_recv_def reader_ok_def split: go.splits)
next
  case (mon_move s j)
  then show ?case
    by (elim regs_ok_simple)
      (auto simp: do_mon_def Let_def reader_ok_def split: go.splits dest: monitor_step_watchers)
next
  case (send_start s i order)
  then show ?case by (elim regs_ok_simple) (auto simp: do_send_start_def Let_def reader_ok_def)
next
  case (deliver_ctrl s i)
  then show ?case by (elim regs_ok_simple) (auto simp: do_deliver_ctrl_def do_taken_def reader_ok_def)
next
  case (deliver_node s j i)
  then show ?case
    by (elim regs_ok_simple)
      (auto simp: do_deliver_node_def do_taken_def reader_ok_def nth_list_update split: if_splits)
next
  case (ctrl_move s)
  then show ?case
    by (elim regs_ok_simple)
      (auto simp: do_ctrl_def reader_ok_def split: go.splits dest: ctrl_step_watchers)
next
  case (node_move s j)
  then show ?case
    by (elim regs_ok_simple)
      (auto simp: do_node_def Let_def reader_ok_def nth_list_update split: go.splits if_splits
        dest: node_step_watchers)
qed

lemma reachable_regs_ok: "reachable cd p s \<Longrightarrow> regs_ok s"
  by (induction rule: reachable.induct)
    (auto intro: regs_ok_init sys_step_regs_ok reachable_chan_ok sys_invD reachable_inv)

subsection \<open>What a step does to an inbox\<close>

text \<open>A started range visits a registered reader exactly once.\<close>

lemma count_ranged:
  assumes "distinct ks" "heads_for c ws \<subseteq> set ks" "heads_for c ws = {i}"
  shows "count_list (map wch (ranged ws ks)) c = 1"
proof -
  have none: "count_list (map wch (ranged ws xs)) c = 0" if "heads_for c ws \<inter> set xs = {}" for xs
    using that by (induction xs) (auto simp: heads_for_def split: option.splits)
  show ?thesis
    using assms(1,2)
  proof (induction ks)
    case Nil
    then show ?case using assms(3) by simp
  next
    case (Cons x xs)
    show ?case
    proof (cases "x = i")
      case True
      then obtain w where "ws x = Some w" "wch w = c"
        using assms(3) by (auto simp: heads_for_def)
      moreover have "heads_for c ws \<inter> set xs = {}" using Cons.prems(1) True assms(3) by auto
      ultimately show ?thesis using none by simp
    next
      case False
      then have "\<not> (\<exists>w. ws x = Some w \<and> wch w = c)" using assms(3) by (auto simp: heads_for_def)
      then show ?thesis using Cons False assms(3) by (auto split: option.splits)
    qed
  qed
qed

lemma inbox_start:
  assumes "regs_ok s" "reader_ok s c" "\<not> sys_cancelled s"
    and i: "i < length (sends (mstore (sys_world s)))"
    and r: "range_order (watchers (mstore (sys_world s))) order"
  shows "inbox c (do_send_start i order s) = inbox c s"
proof -
  let ?ws = "watchers (mstore (sys_world s))" and ?evs = "sends (mstore (sys_world s))"
  obtain u where u: "heads_for c ?ws = {u}" using assms(1-3) by (auto simp: regs_ok_def)
  have "heads_for c ?ws \<subseteq> set order" using r by (auto simp: heads_for_def range_order_def)
  then have "count_list (map wch (ranged ?ws order)) c = 1"
    using r u by (intro count_ranged) (simp_all add: range_order_def)
  moreover have "mset ?evs = add_mset (?evs ! i) (mset (take i ?evs @ drop (Suc i) ?evs))"
    using i by (metis id_take_nth_drop mset_append mset.simps(2) union_mset_add_mset_right)
  ultimately show ?thesis by (simp add: inbox_def do_send_start_def Let_def)
qed

lemma sum_list_list_update_mset:
  fixes f :: "'x \<Rightarrow> 'y multiset"
  assumes "i < length xs"
  shows "sum_list (map f (xs[i := x])) + f (xs ! i) = sum_list (map f xs) + f x"
proof -
  have "xs = take i xs @ xs ! i # drop (Suc i) xs" using assms by (rule id_take_nth_drop)
  then have "sum_list (map f xs) = sum_list (map f (take i xs)) + (f (xs ! i) + sum_list (map f (drop (Suc i) xs)))"
    by (metis list.simps(9) map_append sum_list.Cons sum_list_append)
  then show ?thesis using assms by (simp add: upd_conv_take_nth_drop ac_simps)
qed

lemma inbox_taken:
  assumes "offers s i d"
  shows "inbox c s = inbox c (do_taken i s) + (if c = d then {#fst (sys_active s ! i)#} else {#})"
proof -
  obtain cs where o: "i < length (sys_active s)" "snd (sys_active s ! i) = d # cs"
    using offersD [OF assms] by blast
  let ?f = "\<lambda>x. replicate_mset (count_list (snd x) c) (fst x)"
  show ?thesis
    using sum_list_list_update_mset [OF o(1), of ?f "(fst (sys_active s ! i), tl (snd (sys_active s ! i)))"]
    by (auto simp: inbox_def do_taken_def o(2))
qed

lemma inbox_late:
  assumes "late_ok late s" "c \<noteq> ch"
  shows "inbox c (do_watch i ch late s) = inbox c s"
proof -
  let ?f = "\<lambda>x. replicate_mset (count_list (snd x) c) (fst x)"
  have one: "map ?f (late_visit ch v act) = map ?f act" if "fst v < length act" for v act
  proof -
    obtain a k where v: "v = (a, k)" by (cases v)
    obtain e chs where e: "act ! a = (e, chs)" by (cases "act ! a")
    have "count_list (take k xs @ ch # drop k xs) c = count_list xs c" for xs
      using assms(2) by (metis append_take_drop_id count_list.simps(2) count_list_append)
    then have "count_list (case chs of [] \<Rightarrow> [] | x # xs \<Rightarrow> x # take k xs @ ch # drop k xs) c = count_list chs c"
      by (cases chs) simp_all
    then show ?thesis
      using that e v
      by (auto simp: late_visit_def map_update intro!: list_update_same_conv [THEN iffD2])
  qed
  have "map ?f (fold (late_visit ch) vs act) = map ?f act" if "\<forall>v \<in> set vs. fst v < length act" for vs act
    using that
  proof (induction vs arbitrary: act)
    case (Cons v vs)
    then show ?case using one [of v act] by simp
  qed simp
  moreover have "\<forall>v \<in> set late. fst v < length (sys_active s)" using assms(1) by (auto simp: late_ok_def)
  ultimately have "map ?f (fold (late_visit ch) late (sys_active s)) = map ?f (sys_active s)" by blast
  then show ?thesis by (simp add: inbox_def do_watch_def store_simps)
qed

lemma inbox_puts:
  assumes "sys_active t = sys_active s"
    and "sends (mstore (sys_world t)) = sends (mstore (sys_world s)) @ new"
  shows "inbox c t = inbox c s + mset new"
  using assms by (simp add: inbox_def)

lemma inbox_same:
  "sys_active t = sys_active s \<Longrightarrow> sends (mstore (sys_world t)) = sends (mstore (sys_world s)) \<Longrightarrow>
   inbox c t = inbox c s"
  by (simp add: inbox_def)

lemma inbox_has_entry:
  assumes "sys_inv p s" "e \<in># inbox c s"
  shows "ev_ok (sys_world s) e"
proof -
  have "e \<in> set (sends (mstore (sys_world s))) \<or> e \<in> fst ` set (sys_active s)"
    using assms(2) by (auto simp: inbox_def split: if_splits elim!: in_Union_mset_iff [THEN iffD1, elim_format])
  then show ?thesis using assms(1) world_okD(3) [OF sys_invD(1) [OF assms(1)]] by (auto simp: sys_inv_def)
qed

lemma inbox_quiescent: "quiescent s \<Longrightarrow> inbox c s = {#}"
  by (simp add: quiescent_def inbox_def cong: map_cong)

end
