(* ===== verification/Mho_Steady.thy ===== *)
theory Mho_Steady
  imports Mho_Mailbox
begin

text \<open>
  A handover that nothing disturbs. For one UE key: the controller and the one watcher of the
  UE's node are registered before the first indication of the key is accepted, and every
  indication of the key comes from that node with the same target. Then, in every schedule,
  the work for the key moves through three stages: the controller has one event to decide, the
  node watcher has one approval to act on, nothing is left. \<open>ctl_tokens\<close> and \<open>nod_tokens\<close> count
  what is under way for the key, in the inboxes and in the handlers.
\<close>

definition approves :: "event \<Rightarrow> bool" where
  "approves e \<longleftrightarrow> EvType e = Updated \<and> EventMHOState e = Approved"

fun ctl_token :: "string \<Rightarrow> ctrl_pc \<Rightarrow> nat" where
  "ctl_token k (C_Event e) = (if EvKey e = k \<and> decides e then 1 else 0)"
| "ctl_token k (C_Got e a) = (if EvKey e = k \<and> decides e then 1 else 0)"
| "ctl_token k (C_Put e a) = (if EvKey e = k then 1 else 0)"
| "ctl_token k _ = 0"

fun nod_token :: "string \<Rightarrow> node_pc \<Rightarrow> nat" where
  "nod_token k (N_Event e) = (if EvKey e = k \<and> approves e then 1 else 0)"
| "nod_token k (N_Got e a) = (if EvKey e = k \<and> EventMHOState e = Approved then 1 else 0)"
| "nod_token k (N_Sent e a) = (if EvKey e = k then 1 else 0)"
| "nod_token k (N_Put e a) = (if EvKey e = k then 1 else 0)"
| "nod_token k _ = 0"

definition ctl_tokens :: "string \<Rightarrow> sys \<Rightarrow> nat" where
  "ctl_tokens k s =
     size (filter_mset (\<lambda>e. EvKey e = k \<and> decides e) (inbox ctrl_chan s)) + ctl_token k (sys_ctrl s)"

definition nod_tokens :: "string \<Rightarrow> nat \<Rightarrow> sys \<Rightarrow> nat" where
  "nod_tokens k j s =
     size (filter_mset (\<lambda>e. EvKey e = k \<and> approves e) (inbox (Suc j) s)) +
     nod_token k (np_pc (sys_nodes s ! j))"

text \<open>A watcher that has sent the control message of the key and not yet put the result.\<close>

fun committed :: "string \<Rightarrow> node_pc \<Rightarrow> bool" where
  "committed k (N_Sent e a) \<longleftrightarrow> EvKey e = k"
| "committed k (N_Put e a) \<longleftrightarrow> EvKey e = k"
| "committed k _ \<longleftrightarrow> False"

fun marked :: "string \<Rightarrow> node_pc \<Rightarrow> bool" where
  "marked k (N_Put e a) \<longleftrightarrow> EvKey e = k"
| "marked k _ \<longleftrightarrow> False"

definition stage_ok ::
  "string \<Rightarrow> control_msg \<Rightarrow> nat \<Rightarrow> nat \<Rightarrow> control_msg list \<Rightarrow> node_pc \<Rightarrow> mho_state \<Rightarrow> bool" where
  "stage_ok k c ct nt out pc st \<longleftrightarrow>
     ct = 1 \<and> nt = 0 \<and> out = [] \<or>
     ct = 0 \<and> nt = 1 \<and> (if committed k pc then out = [c] \<and> (marked k pc \<longrightarrow> st = Done) else out = []) \<or>
     ct = 0 \<and> nt = 0 \<and> out = [c] \<and> st = Done"

definition sent_to :: "control_msg \<Rightarrow> sys \<Rightarrow> control_msg list" where
  "sent_to c s = filter (\<lambda>x. cm_node x = cm_node c \<and> cm_header x = cm_header c) (sys_controls s)"

definition key_inds :: "string \<Rightarrow> ind_log \<Rightarrow> ind_log" where
  "key_inds k inds = filter (\<lambda>(m, r). rq_key r = k) inds"

subsection \<open>Pointers held for the key\<close>

fun mon_fine :: "string \<Rightarrow> addr \<Rightarrow> monitor_pc \<Rightarrow> bool" where
  "mon_fine k a (M_Got r b) \<longleftrightarrow> (rq_key r = k \<longrightarrow> b = a)"
| "mon_fine k a (M_New r) \<longleftrightarrow> rq_key r \<noteq> k"
| "mon_fine k a _ \<longleftrightarrow> True"

fun ctl_fine :: "string \<Rightarrow> addr \<Rightarrow> ctrl_pc \<Rightarrow> bool" where
  "ctl_fine k a (C_Got e b) \<longleftrightarrow> (EvKey e = k \<longrightarrow> b = a)"
| "ctl_fine k a (C_Put e b) \<longleftrightarrow> (EvKey e = k \<longrightarrow> b = a)"
| "ctl_fine k a _ \<longleftrightarrow> True"

fun nod_fine :: "string \<Rightarrow> addr \<Rightarrow> node_pc \<Rightarrow> bool" where
  "nod_fine k a (N_Got e b) \<longleftrightarrow> (EvKey e = k \<longrightarrow> b = a)"
| "nod_fine k a (N_Sent e b) \<longleftrightarrow> (EvKey e = k \<longrightarrow> b = a)"
| "nod_fine k a (N_Put e b) \<longleftrightarrow> (EvKey e = k \<longrightarrow> b = a)"
| "nod_fine k a _ \<longleftrightarrow> True"

subsection \<open>What holds of the key in every state\<close>

definition stored :: "string \<Rightarrow> node_id \<Rightarrow> ind_request \<Rightarrow> addr \<Rightarrow> world \<Rightarrow> bool" where
  "stored k n rq a w \<longleftrightarrow> records (mstore w) k = Some \<lparr>Key = k, Value = a\<rparr> \<and> a < length (heap w) \<and>
     same_ident (heap w ! a) (new_value rq n)"

definition in_stage ::
  "pdubuilder \<Rightarrow> string \<Rightarrow> node_id \<Rightarrow> nat \<Rightarrow> ind_request \<Rightarrow> addr \<Rightarrow> sys \<Rightarrow> bool" where
  "in_stage p k n j rq a s \<longleftrightarrow>
     stored k n rq a (sys_world s) \<and> ctl_fine k a (sys_ctrl s) \<and>
     (\<forall>m \<in> set (sys_mons s). mon_fine k a (mp_pc m)) \<and>
     (\<forall>m \<in> set (sys_nodes s). nod_fine k a (np_pc m)) \<and>
     (\<forall>i < length (sys_nodes s). i \<noteq> j \<longrightarrow> \<not> committed k (np_pc (sys_nodes s ! i))) \<and>
     stage_ok k (control_for p n (new_value rq n)) (ctl_tokens k s) (nod_tokens k j s)
       (sent_to (control_for p n (new_value rq n)) s) (np_pc (sys_nodes s ! j))
       (State (heap (sys_world s) ! a))"

definition just_asked ::
  "pdubuilder \<Rightarrow> string \<Rightarrow> node_id \<Rightarrow> nat \<Rightarrow> ind_request \<Rightarrow> sys \<Rightarrow> bool" where
  "just_asked p k n j rq s \<longleftrightarrow>
     key_inds k (sys_inds s) = [(n, rq)] \<and> records (mstore (sys_world s)) k = None \<and>
     j < length (sys_mons s) \<and> mp_pc (sys_mons s ! j) \<in> {M_Has rq, M_New rq} \<and>
     sent_to (control_for p n (new_value rq n)) s = []"

definition steady :: "pdubuilder \<Rightarrow> string \<Rightarrow> node_id \<Rightarrow> nat \<Rightarrow> ind_request \<Rightarrow> sys \<Rightarrow> bool" where
  "steady p k n j rq s \<longleftrightarrow> key_inds k (sys_inds s) = [] \<or> just_asked p k n j rq s \<or>
     (\<exists>a. in_stage p k n j rq a s)"

text \<open>
  What the rest of the world is assumed to do: one watcher for the node, registered, like the
  controller; no cancellation; the requests of the key agree with the first one; and no other
  UE of the node has the same control header.
\<close>

definition undisturbed :: "pdubuilder \<Rightarrow> string \<Rightarrow> node_id \<Rightarrow> nat \<Rightarrow> ind_request \<Rightarrow> sys \<Rightarrow> bool" where
  "undisturbed p k n j rq s \<longleftrightarrow>
     (\<forall>i < length (sys_nodes s). np_node (sys_nodes s ! i) = n \<longleftrightarrow> i = j) \<and> \<not> sys_cancelled s \<and>
     (\<forall>(m, r) \<in> set (key_inds k (sys_inds s)). m = n \<and> rq_tgt r = rq_tgt rq) \<and>
     (\<forall>x xs. key_inds k (sys_inds s) = x # xs \<longrightarrow> x = (n, rq)) \<and>
     (\<forall>r. (n, r) \<in> set (sys_inds s) \<and>
        bytes_or_nil (CreateRcControlHeader p (rq_ue r)) = bytes_or_nil (CreateRcControlHeader p (rq_ue rq)) \<longrightarrow>
        rq_key r = k)"

definition set_up :: "nat \<Rightarrow> sys \<Rightarrow> bool" where
  "set_up j s \<longleftrightarrow> sys_ctrl s \<noteq> C_Init \<and> j < length (sys_nodes s) \<and> np_pc (sys_nodes s ! j) \<noteq> N_Init \<and>
     map mp_node (sys_mons s) = map np_node (sys_nodes s)"

subsection \<open>Steps about other keys\<close>

definition same_row :: "string \<Rightarrow> world \<Rightarrow> world \<Rightarrow> bool" where
  "same_row k w w' \<longleftrightarrow> records (mstore w') k = records (mstore w) k \<and>
     (\<forall>e. records (mstore w) k = Some e \<longrightarrow> heap w' ! Value e = heap w ! Value e) \<and>
     length (heap w) \<le> length (heap w')"

definition frame :: "string \<Rightarrow> world \<Rightarrow> world \<Rightarrow> bool" where
  "frame k w w' \<longleftrightarrow> same_row k w w' \<and>
     (\<exists>new. sends (mstore w') = sends (mstore w) @ new \<and> (\<forall>e \<in> set new. EvKey e \<noteq> k))"

fun mon_about :: "string \<Rightarrow> monitor_pc \<Rightarrow> bool" where
  "mon_about k M_Idle \<longleftrightarrow> False"
| "mon_about k (M_Has r) \<longleftrightarrow> rq_key r = k"
| "mon_about k (M_Get r) \<longleftrightarrow> rq_key r = k"
| "mon_about k (M_Got r b) \<longleftrightarrow> rq_key r = k"
| "mon_about k (M_New r) \<longleftrightarrow> rq_key r = k"
| "mon_about k (M_Same r b) \<longleftrightarrow> rq_key r = k"

fun ctl_about :: "string \<Rightarrow> ctrl_pc \<Rightarrow> bool" where
  "ctl_about k (C_Event e) \<longleftrightarrow> EvKey e = k"
| "ctl_about k (C_Got e b) \<longleftrightarrow> EvKey e = k"
| "ctl_about k (C_Put e b) \<longleftrightarrow> EvKey e = k"
| "ctl_about k _ \<longleftrightarrow> False"

fun nod_about :: "string \<Rightarrow> node_pc \<Rightarrow> bool" where
  "nod_about k (N_Event e) \<longleftrightarrow> EvKey e = k"
| "nod_about k (N_Got e b) \<longleftrightarrow> EvKey e = k"
| "nod_about k (N_Sent e b) \<longleftrightarrow> EvKey e = k"
| "nod_about k (N_Put e b) \<longleftrightarrow> EvKey e = k"
| "nod_about k _ \<longleftrightarrow> False"

lemma frame_refl [simp]: "frame k w w" "same_row k w w"
  by (simp_all add: frame_def same_row_def)

lemma frame_row: "frame k w w' \<Longrightarrow> same_row k w w'"
  by (simp add: frame_def)

lemma frame_put_value: "key \<noteq> k \<Longrightarrow> frame k w (put_value key a st w)"
  by (simp add: frame_def same_row_def store_simps)

lemma frame_put_new: "wf_world w \<Longrightarrow> rq_key r \<noteq> k \<Longrightarrow> frame k w (put_new r n w)"
  using wf_worldD(2) [of w k] by (auto simp: frame_def same_row_def put_new_alt store_simps nth_append)

lemma frame_set_state: "wf_world w \<Longrightarrow> ptr_ok w key a \<Longrightarrow> key \<noteq> k \<Longrightarrow> frame k w (set_state a st w)"
  using wf_worldD(2,3) [of w k] by (fastforce simp: frame_def same_row_def store_simps ptr_ok_def)

lemma monitor_frame:
  assumes "monitor_step n pc w = Ret (w', pc')" "wf_world w" "\<not> mon_about k pc"
  shows "frame k w w' \<and> \<not> mon_about k pc'"
  using assms by (cases pc) (auto simp: go_simps split: if_splits intro: frame_put_new frame_put_value)

lemma ctrl_frame:
  assumes "ctrl_step pc w = Ret (w', pc')" "wf_world w" "ctrl_ok w pc" "\<not> ctl_about k pc"
  shows "frame k w w' \<and> \<not> ctl_about k pc'"
  using assms
  by (cases pc) (auto simp: go_simps split: if_splits go.splits intro: frame_set_state frame_put_value)

lemma node_frame:
  assumes "node_step p n pc w = Ret (w', pc', out)" "wf_world w" "node_ok w pc" "\<not> nod_about k pc"
  shows "frame k w w' \<and> \<not> nod_about k pc'"
  using assms
  by (cases pc) (auto simp: go_simps split: if_splits go.splits intro: frame_set_state frame_put_value)

lemma ctl_not_about: "\<not> ctl_about k pc \<Longrightarrow> ctl_token k pc = 0 \<and> ctl_fine k a pc"
  by (cases pc) simp_all

lemma nod_not_about:
  "\<not> nod_about k pc \<Longrightarrow> nod_token k pc = 0 \<and> nod_fine k a pc \<and> \<not> committed k pc \<and> \<not> marked k pc"
  by (cases pc) simp_all

lemma mon_not_about: "\<not> mon_about k pc \<Longrightarrow> mon_fine k a pc"
  by (cases pc) simp_all

lemmas not_about = ctl_not_about nod_not_about mon_not_about

lemma frame_stored: "same_row k w w' \<Longrightarrow> stored k n rq a w \<Longrightarrow> stored k n rq a w'"
  by (auto simp: same_row_def stored_def)

lemma frame_state:
  "same_row k w w' \<Longrightarrow> stored k n rq a w \<Longrightarrow> State (heap w' ! a) = State (heap w ! a)"
  by (auto simp: same_row_def stored_def)

lemma filter_mset_none: "\<forall>e \<in> set xs. EvKey e \<noteq> k \<Longrightarrow> filter_mset (\<lambda>e. EvKey e = k \<and> P e) (mset xs) = {#}"
  by (induction xs) auto

lemma frame_box:
  assumes "frame k (sys_world s) (sys_world t)" "sys_active t = sys_active s"
  shows "filter_mset (\<lambda>e. EvKey e = k \<and> P e) (inbox c t) = filter_mset (\<lambda>e. EvKey e = k \<and> P e) (inbox c s)"
proof -
  obtain new where new: "sends (mstore (sys_world t)) = sends (mstore (sys_world s)) @ new"
    "\<forall>e \<in> set new. EvKey e \<noteq> k"
    using assms(1) unfolding frame_def by (elim exE conjE)
  have "inbox c t = inbox c s + mset new" by (rule inbox_puts [OF assms(2) new(1)])
  then show ?thesis using filter_mset_none [OF new(2), of P] by simp
qed

subsection \<open>The stage is kept\<close>

lemma ctl_tokens_same:
  assumes "filter_mset (\<lambda>e. EvKey e = k \<and> decides e) (inbox ctrl_chan t) =
      filter_mset (\<lambda>e. EvKey e = k \<and> decides e) (inbox ctrl_chan s)"
    and "ctl_token k (sys_ctrl t) = ctl_token k (sys_ctrl s)"
  shows "ctl_tokens k t = ctl_tokens k s"
  using assms by (simp add: ctl_tokens_def)

lemma nod_tokens_same:
  assumes "filter_mset (\<lambda>e. EvKey e = k \<and> approves e) (inbox (Suc j) t) =
      filter_mset (\<lambda>e. EvKey e = k \<and> approves e) (inbox (Suc j) s)"
    and "nod_token k (np_pc (sys_nodes t ! j)) = nod_token k (np_pc (sys_nodes s ! j))"
  shows "nod_tokens k j t = nod_tokens k j s"
  using assms by (simp add: nod_tokens_def)

lemma in_stage_keep:
  assumes st: "in_stage p k n j rq a s" and fr: "same_row k (sys_world s) (sys_world t)"
    and toks: "ctl_tokens k t = ctl_tokens k s" "nod_tokens k j t = nod_tokens k j s"
    and sent: "sent_to (control_for p n (new_value rq n)) t = sent_to (control_for p n (new_value rq n)) s"
    and fine: "ctl_fine k a (sys_ctrl t)"
      "\<And>m. m \<in> set (sys_mons t) \<Longrightarrow> m \<in> set (sys_mons s) \<or> mon_fine k a (mp_pc m)"
      "\<And>m. m \<in> set (sys_nodes t) \<Longrightarrow> m \<in> set (sys_nodes s) \<or> nod_fine k a (np_pc m)"
    and com: "\<And>i. i < length (sys_nodes t) \<Longrightarrow> committed k (np_pc (sys_nodes t ! i)) \<longleftrightarrow>
        i < length (sys_nodes s) \<and> committed k (np_pc (sys_nodes s ! i))"
    and j: "j < length (sys_nodes s)" "j < length (sys_nodes t)"
    and "marked k (np_pc (sys_nodes t ! j)) \<longleftrightarrow> marked k (np_pc (sys_nodes s ! j))"
  shows "in_stage p k n j rq a t"
proof -
  note st' = st [unfolded in_stage_def]
  have "stored k n rq a (sys_world t)" "State (heap (sys_world t) ! a) = State (heap (sys_world s) ! a)"
    using st' frame_stored [OF fr] frame_state [OF fr] by blast+
  moreover have "stage_ok k c ct nt out (np_pc (sys_nodes t ! j)) x \<longleftrightarrow>
      stage_ok k c ct nt out (np_pc (sys_nodes s ! j)) x" for c ct nt out x
    using com [OF j(2)] j(1) assms(12) by (simp add: stage_ok_def)
  moreover have "\<forall>m \<in> set (sys_mons t). mon_fine k a (mp_pc m)" using fine(2) st' by blast
  moreover have "\<forall>m \<in> set (sys_nodes t). nod_fine k a (np_pc m)" using fine(3) st' by blast
  moreover have "\<forall>i < length (sys_nodes t). i \<noteq> j \<longrightarrow> \<not> committed k (np_pc (sys_nodes t ! i))"
    using com st' by blast
  ultimately show ?thesis using st' toks sent fine(1) by (simp add: in_stage_def)
qed

text \<open>Steps that neither move a handler nor take an event.\<close>

lemma in_stage_idle:
  assumes "in_stage p k n j rq a s" "j < length (sys_nodes s)"
    and "same_row k (sys_world s) (sys_world t)" "inbox ctrl_chan t = inbox ctrl_chan s" "inbox (Suc j) t = inbox (Suc j) s"
    and "sys_ctrl t = sys_ctrl s" "sys_controls t = sys_controls s"
    and "\<And>m. m \<in> set (sys_mons t) \<Longrightarrow> m \<in> set (sys_mons s) \<or> mon_fine k a (mp_pc m)"
    and len: "length (sys_nodes s) \<le> length (sys_nodes t)"
    and old: "\<And>i. i < length (sys_nodes s) \<Longrightarrow> sys_nodes t ! i = sys_nodes s ! i \<or>
        i \<noteq> j \<and> np_pc (sys_nodes s ! i) \<in> {N_Init, N_Range} \<and> np_pc (sys_nodes t ! i) \<in> {N_Init, N_Range}"
    and new: "\<And>i. length (sys_nodes s) \<le> i \<Longrightarrow> i < length (sys_nodes t) \<Longrightarrow> np_pc (sys_nodes t ! i) = N_Init"
  shows "in_stage p k n j rq a t"
proof -
  have j: "sys_nodes t ! j = sys_nodes s ! j" using old [OF assms(2)] by blast
  show ?thesis
  proof (rule in_stage_keep [OF assms(1,3)])
    show "ctl_fine k a (sys_ctrl t)" using assms(1,6) by (simp add: in_stage_def)
    show "m \<in> set (sys_nodes s) \<or> nod_fine k a (np_pc m)" if "m \<in> set (sys_nodes t)" for m
    proof -
      note mem = that
      obtain i where i: "i < length (sys_nodes t)" "m = sys_nodes t ! i"
        using mem by (metis in_set_conv_nth)
      show ?thesis
      proof (cases "i < length (sys_nodes s)")
        case True
        then show ?thesis using old [OF True] i(2) by (elim disjE conjE) auto
      next
        case False
        then show ?thesis using new [of i] i by simp
      qed
    qed
    show "committed k (np_pc (sys_nodes t ! i)) \<longleftrightarrow>
        i < length (sys_nodes s) \<and> committed k (np_pc (sys_nodes s ! i))" if "i < length (sys_nodes t)" for i
    proof (cases "i < length (sys_nodes s)")
      case True
      then show ?thesis using old [OF True] by (elim disjE conjE) (auto elim: committed.elims)
    next
      case False
      then show ?thesis using new [of i] that by simp
    qed
    show "ctl_tokens k t = ctl_tokens k s" by (rule ctl_tokens_same) (simp_all add: assms(4,6))
    show "nod_tokens k j t = nod_tokens k j s" by (rule nod_tokens_same) (simp_all add: assms(5) j)
    show "sent_to (control_for p n (new_value rq n)) t = sent_to (control_for p n (new_value rq n)) s"
      by (simp add: sent_to_def assms(7))
    show "j < length (sys_nodes t)" using assms(2) len by simp
    show "m \<in> set (sys_mons s) \<or> mon_fine k a (mp_pc m)" if "m \<in> set (sys_mons t)" for m
      using that by (rule assms(8))
    show "marked k (np_pc (sys_nodes t ! j)) \<longleftrightarrow> marked k (np_pc (sys_nodes s ! j))" by (simp add: j)
  qed (rule assms(2))
qed

lemma stage_connect:
  assumes "in_stage p k n j rq a s" "set_up j s"
  shows "in_stage p k n j rq a (do_connect m s)"
  using assms(2)
  by (intro in_stage_idle [OF assms(1)])
    (auto simp: set_up_def do_connect_def nth_append less_Suc_eq intro!: inbox_same)

lemma stage_node_watch:
  assumes "in_stage p k n j rq a s" "set_up j s" "chan_ok s"
    and "i < length (sys_nodes s)" "np_pc (sys_nodes s ! i) = N_Init" "late_ok late s"
  shows "in_stage p k n j rq a (do_node_watch i u late s)"
proof -
  have "i \<noteq> j" using assms(2,5) by (auto simp: set_up_def)
  have b: "inbox c (do_node_watch i u late s) = inbox c (do_watch u (Suc i) late s)" for c
    using node_chan [OF assms(3,4)] by (auto simp: do_node_watch_def do_watch_def Let_def inbox_def store_simps)
  have "inbox c (do_node_watch i u late s) = inbox c s" if "c \<noteq> Suc i" for c
    unfolding b by (rule inbox_late [OF assms(6) that])
  then show ?thesis
    using assms(2,4,5) \<open>i \<noteq> j\<close>
    by (intro in_stage_idle [OF assms(1)])
      (auto simp: set_up_def do_node_watch_def do_watch_def Let_def same_row_def store_simps nth_list_update ctrl_chan_def)
qed

lemma stage_recv:
  assumes "in_stage p k n j rq a s" "set_up j s" "i < length (sys_mons s)"
  shows "in_stage p k n j rq a (do_recv cd i r s)"
proof -
  have fine: "mon_fine k a (mp_pc m)" if "mon_recv cd r (sys_mons s ! i) = Ret (m, new)" for m new
    using mon_recv_ok [OF that] assms(1,3) by (auto simp: in_stage_def)
  have mons: "m \<in> set (sys_mons s) \<or> mon_fine k a (mp_pc m)" if "m \<in> set (sys_mons (do_recv cd i r s))" for m
    using that fine by (auto simp: do_recv_def split: go.splits elim!: set_list_updateE)
  have same: "sys_world (do_recv cd i r s) = sys_world s" "sys_active (do_recv cd i r s) = sys_active s"
    "sys_ctrl (do_recv cd i r s) = sys_ctrl s" "sys_nodes (do_recv cd i r s) = sys_nodes s"
    "sys_controls (do_recv cd i r s) = sys_controls s"
    by (simp_all add: do_recv_def split: go.splits)
  show ?thesis
    by (rule in_stage_idle [OF assms(1)]) (use assms(2) mons same in \<open>auto simp: set_up_def intro: inbox_same\<close>)
qed

lemma stage_start:
  assumes st: "in_stage p k n j rq a s" and up: "set_up j s" and regs: "regs_ok s" "\<not> sys_cancelled s"
    and "i < length (sends (mstore (sys_world s)))" "range_order (watchers (mstore (sys_world s))) order"
  shows "in_stage p k n j rq a (do_send_start i order s)"
proof -
  have "inbox c (do_send_start i order s) = inbox c s" if "reader_ok s c" for c
    by (rule inbox_start [OF regs(1) that regs(2) assms(5,6)])
  moreover have "reader_ok s ctrl_chan" "reader_ok s (Suc j)" using up by (simp_all add: set_up_def)
  ultimately show ?thesis
    using up by (intro in_stage_idle [OF st])
      (auto simp: set_up_def do_send_start_def Let_def same_row_def store_simps)
qed

lemma inbox_delivered:
  "inbox c (do_deliver_ctrl i s) = inbox c (do_taken i s)"
  "inbox c (do_deliver_node i m s) = inbox c (do_taken i s)"
  by (simp_all add: inbox_def do_deliver_ctrl_def do_deliver_node_def)

lemma stage_deliver_ctrl:
  assumes st: "in_stage p k n j rq a s" and up: "set_up j s"
    and o: "offers s i ctrl_chan" and r: "sys_ctrl s = C_Range"
  shows "in_stage p k n j rq a (do_deliver_ctrl i s)"
proof (rule in_stage_keep [OF st])
  let ?t = "do_deliver_ctrl i s"
  have t: "sys_ctrl ?t = C_Event (fst (sys_active s ! i))" by (simp add: do_deliver_ctrl_def)
  have same: "sys_world ?t = sys_world s" "sys_nodes ?t = sys_nodes s" "sys_mons ?t = sys_mons s"
    "sys_controls ?t = sys_controls s"
    by (simp_all add: do_deliver_ctrl_def do_taken_def)
  show "ctl_tokens k ?t = ctl_tokens k s"
    unfolding ctl_tokens_def t r inbox_delivered inbox_taken [OF o, of ctrl_chan] by simp
  show "nod_tokens k j ?t = nod_tokens k j s"
    by (rule nod_tokens_same) (simp_all add: inbox_delivered inbox_taken [OF o, of "Suc j"] ctrl_chan_def same)
  show "ctl_fine k a (sys_ctrl ?t)" by (simp add: t)
qed (use up in \<open>simp_all add: do_deliver_ctrl_def do_taken_def sent_to_def set_up_def\<close>)

lemma stage_deliver_node:
  assumes st: "in_stage p k n j rq a s" and up: "set_up j s" and ok: "chan_ok s"
    and i: "i < length (sys_nodes s)" and o: "offers s x (np_chan (sys_nodes s ! i))"
    and r: "np_pc (sys_nodes s ! i) = N_Range"
  shows "in_stage p k n j rq a (do_deliver_node x i s)"
proof (rule in_stage_keep [OF st])
  let ?t = "do_deliver_node x i s"
  have o': "offers s x (Suc i)" using o node_chan [OF ok i] by simp
  have t: "sys_nodes ?t = (sys_nodes s)[i := (sys_nodes s ! i)\<lparr>np_pc := N_Event (fst (sys_active s ! x))\<rparr>]"
    by (simp add: do_deliver_node_def do_taken_def)
  show "ctl_tokens k ?t = ctl_tokens k s"
    unfolding ctl_tokens_def inbox_delivered inbox_taken [OF o', of ctrl_chan]
    by (simp add: ctrl_chan_def) (simp add: do_deliver_node_def do_taken_def)
  show "nod_tokens k j ?t = nod_tokens k j s"
  proof (cases "i = j")
    case True
    then show ?thesis
      unfolding nod_tokens_def inbox_delivered inbox_taken [OF o', of "Suc j"] t using i r by simp
  next
    case False
    then show ?thesis
      by (intro nod_tokens_same) (simp_all add: inbox_delivered inbox_taken [OF o', of "Suc j"] t)
  qed
  show "m \<in> set (sys_nodes s) \<or> nod_fine k a (np_pc m)" if "m \<in> set (sys_nodes ?t)" for m
    using that unfolding t by (elim set_list_updateE) simp_all
  show "committed k (np_pc (sys_nodes ?t ! l)) \<longleftrightarrow>
      l < length (sys_nodes s) \<and> committed k (np_pc (sys_nodes s ! l))" if "l < length (sys_nodes ?t)" for l
    using that r i by (cases "l = i") (simp_all add: t)
  show "marked k (np_pc (sys_nodes ?t ! j)) \<longleftrightarrow> marked k (np_pc (sys_nodes s ! j))"
    unfolding t using i r by (cases "i = j") simp_all
  show "ctl_fine k a (sys_ctrl ?t)"
    using st by (simp add: in_stage_def do_deliver_node_def do_taken_def)
qed (use up in \<open>simp_all add: do_deliver_node_def do_taken_def sent_to_def set_up_def\<close>)

subsection \<open>Moves of the monitors\<close>

lemma monitor_stored:
  assumes step: "monitor_step m pc w = Ret (w', pc')"
    and "world_ok inds w" "monitor_ok inds m w pc"
    and st: "stored k n rq a w" and fine: "mon_fine k a pc"
    and tgt: "\<And>r. (m, r) \<in> set (key_inds k inds) \<Longrightarrow> rq_tgt r = rq_tgt rq"
  shows "frame k w w' \<and> mon_fine k a pc'"
proof (cases "mon_about k pc")
  case False
  then show ?thesis using monitor_frame [OF step world_okD(1) [OF assms(2)]] mon_not_about by blast
next
  case True
  note old = assms(3) step fine
  have rec: "records (mstore w) k = Some \<lparr>Key = k, Value = a\<rparr>" "a < length (heap w)"
    "TgtCellID (heap w ! a) = rq_tgt rq"
    using st by (auto simp: stored_def same_ident_def)
  have live: "State (heap w ! a) \<noteq> Denied"
    using world_okD(2) [OF assms(2) rec(2)] by (auto simp: val_ok_def live_states_def)
  have "rq_tgt r = rq_tgt rq" if "req_ok inds m r" "rq_key r = k" for r
    using that tgt [of r] by (auto simp: req_ok_def key_inds_def)
  with True old rec live show ?thesis
    by (cases pc) (auto simp: go_simps store_simps HasEntry_def load_def)
qed

lemma stage_mon:
  assumes st: "in_stage p k n j rq a s" and up: "set_up j s" and inv: "sys_inv p s"
    and un: "undisturbed p k n j rq s" and i: "i < length (sys_mons s)"
  shows "in_stage p k n j rq a (do_mon i s)"
proof -
  let ?m = "sys_mons s ! i" and ?t = "do_mon i s"
  obtain w pc where step: "monitor_step (mp_node ?m) (mp_pc ?m) (sys_world s) = Ret (w, pc)"
    using monitor_step_ok [OF sys_invD(1) [OF inv] sys_invD(4) [OF inv i]] by blast
  have "frame k (sys_world s) w \<and> mon_fine k a pc"
  proof (rule monitor_stored [OF step sys_invD(1) [OF inv] sys_invD(4) [OF inv i]])
    show "stored k n rq a (sys_world s)" "mon_fine k a (mp_pc ?m)" using st i by (auto simp: in_stage_def)
    show "rq_tgt r = rq_tgt rq" if "(mp_node ?m, r) \<in> set (key_inds k (sys_inds s))" for r
      using un that by (auto simp: undisturbed_def)
  qed
  then have fr: "frame k (sys_world s) (sys_world ?t)" and fine: "mon_fine k a pc"
    using step by (simp_all add: do_mon_def Let_def)
  have t: "sys_mons ?t = (sys_mons s)[i := ?m\<lparr>mp_pc := pc\<rparr>]" "sys_active ?t = sys_active s"
    "sys_nodes ?t = sys_nodes s" "sys_ctrl ?t = sys_ctrl s" "sys_controls ?t = sys_controls s"
    using step by (simp_all add: do_mon_def Let_def)
  show ?thesis
  proof (rule in_stage_keep [OF st frame_row [OF fr]])
    show "ctl_tokens k ?t = ctl_tokens k s"
      by (rule ctl_tokens_same) (simp_all add: frame_box [OF fr t(2)] t)
    show "nod_tokens k j ?t = nod_tokens k j s"
      by (rule nod_tokens_same) (simp_all add: frame_box [OF fr t(2)] t)
    show "m \<in> set (sys_mons s) \<or> mon_fine k a (mp_pc m)" if "m \<in> set (sys_mons ?t)" for m
      using that fine unfolding t by (elim set_list_updateE) simp_all
    show "ctl_fine k a (sys_ctrl ?t)" using st by (simp add: in_stage_def t)
  qed (use up in \<open>simp_all add: t sent_to_def set_up_def\<close>)
qed

subsection \<open>Moves of the controller\<close>

lemma ctl_token_stage:
  "stage_ok k c ct nt out pc st \<Longrightarrow> 0 < ct \<Longrightarrow> ct = 1 \<and> nt = 0 \<and> out = []"
  by (auto simp: stage_ok_def)

lemma nod_token_stage:
  "stage_ok k c ct nt out pc st \<Longrightarrow> 0 < nt \<Longrightarrow>
   ct = 0 \<and> nt = 1 \<and> (if committed k pc then out = [c] \<and> (marked k pc \<longrightarrow> st = Done) else out = [])"
  by (auto simp: stage_ok_def)

lemma committed_token: "committed k pc \<Longrightarrow> nod_token k pc = 1"
  by (cases pc) auto

lemma stored_set_state: "stored k n rq a w \<Longrightarrow> stored k n rq a (set_state a st w)"
  by (simp add: stored_def store_simps same_ident_def)

lemma stored_put_value: "stored k n rq a w \<Longrightarrow> stored k n rq a (put_value k a st w)"
  by (simp add: stored_def store_simps)

text \<open>The controller handles an event of the key itself.\<close>

lemma stage_ctrl_about:
  assumes st: "in_stage p k n j rq a s" and up: "set_up j s" and inv: "sys_inv p s"
    and about: "ctl_about k (sys_ctrl s)"
  shows "in_stage p k n j rq a (do_ctrl s)"
proof -
  let ?w = "sys_world s" and ?c = "control_for p n (new_value rq n)"
  note st' = st [unfolded in_stage_def]
  have rec: "records (mstore ?w) k = Some \<lparr>Key = k, Value = a\<rparr>" "a < length (heap ?w)"
    using st' by (auto simp: stored_def)
  show ?thesis
  proof (cases "sys_ctrl s")
    case (C_Event e)
    then have e: "EvKey e = k" "EvType e \<in> {Created, Updated}"
      using about sys_invD(2) [OF inv] by (auto simp: ev_ok_def)
    then have t: "do_ctrl s = s\<lparr>sys_ctrl := C_Got e a\<rparr>"
      using C_Event rec by (auto simp: do_ctrl_def Get_def)
    have tok: "ctl_tokens k (do_ctrl s) = ctl_tokens k s"
      using C_Event e by (simp add: t ctl_tokens_def inbox_def)
    show ?thesis
      by (rule in_stage_keep [OF st _ tok]) (use up in \<open>simp_all add: t nod_tokens_def inbox_def sent_to_def set_up_def\<close>)
  next
    case (C_Got e b)
    then have e: "EvKey e = k" "b = a" using about st' by auto
    show ?thesis
    proof (cases "decides e")
      case False
      then have t: "do_ctrl s = s\<lparr>sys_ctrl := C_Range\<rparr>"
        using C_Got e rec by (auto simp: do_ctrl_def load_def decides_def)
      have tok: "ctl_tokens k (do_ctrl s) = ctl_tokens k s"
        using C_Got False by (simp add: t ctl_tokens_def inbox_def)
      show ?thesis
        by (rule in_stage_keep [OF st _ tok]) (use up in \<open>simp_all add: t nod_tokens_def inbox_def sent_to_def set_up_def\<close>)
    next
      case True
      then have t: "do_ctrl s = s\<lparr>sys_world := set_state a Approved ?w, sys_ctrl := C_Put e a\<rparr>"
        using C_Got e rec by (auto simp: do_ctrl_def load_def decides_def)
      have tok: "ctl_tokens k (do_ctrl s) = ctl_tokens k s" "nod_tokens k j (do_ctrl s) = nod_tokens k j s"
        using C_Got True e by (simp_all add: t ctl_tokens_def nod_tokens_def inbox_def store_simps)
      have "0 < ctl_tokens k s" using C_Got True e by (simp add: ctl_tokens_def)
      then have "ctl_tokens k s = 1 \<and> nod_tokens k j s = 0 \<and> sent_to ?c s = []"
        using ctl_token_stage st' by blast
      then show ?thesis
        using st' tok by (simp add: in_stage_def t stage_ok_def sent_to_def stored_set_state)
    qed
  next
    case (C_Put e b)
    then have e: "EvKey e = k" "b = a" using about st' by auto
    then have t: "do_ctrl s = s\<lparr>sys_world := put_value k a Approved ?w, sys_ctrl := C_Range\<rparr>"
      using C_Put by (simp add: do_ctrl_def)
    have "0 < ctl_tokens k s" using C_Put e by (simp add: ctl_tokens_def)
    then have one: "ctl_tokens k s = 1 \<and> nod_tokens k j s = 0 \<and> sent_to ?c s = []"
      using ctl_token_stage st' by blast
    have box: "inbox c (do_ctrl s) = inbox c s + {#put_event k a Approved (mstore ?w)#}" for c
      by (simp add: t inbox_def store_simps)
    have "HasEntry k (mstore ?w)" using rec by (simp add: HasEntry_def)
    then have "ctl_tokens k (do_ctrl s) = 0" "nod_tokens k j (do_ctrl s) = 1"
      using one C_Put e
      by (simp_all add: ctl_tokens_def nod_tokens_def box decides_def approves_def) (simp_all add: t)
    moreover have "\<not> committed k (np_pc (sys_nodes s ! j))"
      using one committed_token [of k "np_pc (sys_nodes s ! j)"] by (auto simp: nod_tokens_def)
    ultimately show ?thesis
      using st' one by (simp add: in_stage_def t stage_ok_def sent_to_def stored_put_value)
  qed (use about in simp_all)
qed

lemma stage_ctrl:
  assumes st: "in_stage p k n j rq a s" and up: "set_up j s" and inv: "sys_inv p s"
  shows "in_stage p k n j rq a (do_ctrl s)"
proof (cases "ctl_about k (sys_ctrl s)")
  case True
  then show ?thesis using stage_ctrl_about [OF st up inv] by blast
next
  case False
  obtain w pc where step: "ctrl_step (sys_ctrl s) (sys_world s) = Ret (w, pc)"
    using ctrl_step_ok [OF sys_invD(1,2) [OF inv]] by blast
  note fr = ctrl_frame [OF step world_okD(1) [OF sys_invD(1) [OF inv]] sys_invD(2) [OF inv] False]
  have t: "do_ctrl s = s\<lparr>sys_world := w, sys_ctrl := pc\<rparr>" using step by (simp add: do_ctrl_def)
  then have fr': "frame k (sys_world s) (sys_world (do_ctrl s))" using fr by simp
  show ?thesis
  proof (rule in_stage_keep [OF st frame_row [OF fr']])
    show "ctl_tokens k (do_ctrl s) = ctl_tokens k s"
      using ctl_not_about [OF False] ctl_not_about [of k pc] fr
      by (intro ctl_tokens_same frame_box [OF fr']) (simp_all add: t)
    show "nod_tokens k j (do_ctrl s) = nod_tokens k j s"
      by (intro nod_tokens_same frame_box [OF fr']) (simp_all add: t)
    show "ctl_fine k a (sys_ctrl (do_ctrl s))" using ctl_not_about [of k pc] fr by (simp add: t)
  qed (use up in \<open>simp_all add: t sent_to_def set_up_def\<close>)
qed

subsection \<open>Moves of the watchers\<close>

text \<open>A control message for another UE has another header, or goes to another node.\<close>

lemma other_control:
  assumes un: "undisturbed p k n j rq s" and inv: "sys_inv p s" and ok: "node_ok (sys_world s) (N_Got e b)"
    and "EvKey e \<noteq> k" "E2NodeID (heap (sys_world s) ! b) = m"
  shows "\<not> (cm_node (control_for p m (heap (sys_world s) ! b)) = n \<and>
     cm_header (control_for p m (heap (sys_world s) ! b)) = cm_header (control_for p n (new_value rq n)))"
proof
  let ?v = "heap (sys_world s) ! b"
  assume eq: "cm_node (control_for p m ?v) = n \<and>
     cm_header (control_for p m ?v) = cm_header (control_for p n (new_value rq n))"
  then have m: "m = n" by (simp add: control_for_def)
  have b: "b < length (heap (sys_world s))" "ue_key (RawUEID ?v) = Some (EvKey e)"
    using ok by (auto simp: ptr_ok_def)
  obtain r where r: "rq_ok r" "(m, r) \<in> set (sys_inds s)" "RawUEID ?v = rq_ue r"
    using world_okD(2) [OF sys_invD(1) [OF inv] b(1)] assms(5) by (auto simp: val_ok_def)
  have "bytes_or_nil (CreateRcControlHeader p (rq_ue r)) = bytes_or_nil (CreateRcControlHeader p (rq_ue rq))"
    using eq r(3) by (simp add: control_for_def)
  then have "rq_key r = k" using un r(2) m unfolding undisturbed_def by blast
  then show False using r b(2) assms(4) by (simp add: rq_ok_def)
qed

lemma node_step_out:
  assumes "node_step p m pc w = Ret (w', pc', out)" "c \<in> set out"
  shows "\<exists>e b. pc = N_Got e b \<and> b < length (heap w) \<and> E2NodeID (heap w ! b) = m \<and> c = control_for p m (heap w ! b)"
  using assms by (cases pc) (auto simp: go_simps store_simps split: if_splits go.splits)

lemma watcher_sent_same:
  assumes inv: "sys_inv p s" and un: "undisturbed p k n j rq s" and i: "i < length (sys_nodes s)"
    and about: "\<not> nod_about k (np_pc (sys_nodes s ! i))"
    and step: "node_step p (np_node (sys_nodes s ! i)) (np_pc (sys_nodes s ! i)) (sys_world s) = Ret (w, pc, out)"
  shows "filter (\<lambda>x. cm_node x = n \<and> cm_header x = cm_header (control_for p n (new_value rq n))) out = []"
proof -
  let ?m = "sys_nodes s ! i"
  have "\<not> (cm_node c = n \<and> cm_header c = cm_header (control_for p n (new_value rq n)))" if mem: "c \<in> set out" for c
  proof -
    obtain e b where g: "np_pc ?m = N_Got e b" "b < length (heap (sys_world s))"
      "E2NodeID (heap (sys_world s) ! b) = np_node ?m" "c = control_for p (np_node ?m) (heap (sys_world s) ! b)"
      using node_step_out [OF step mem] by blast
    have key: "EvKey e \<noteq> k" using about g(1) by simp
    have "node_ok (sys_world s) (N_Got e b)" using sys_invD(3) [OF inv i] unfolding g(1) .
    from other_control [OF un inv this key g(3)] show ?thesis unfolding g(4) .
  qed
  then show ?thesis by (simp only: filter_empty_conv) blast
qed

lemma stage_node_other:
  assumes st: "in_stage p k n j rq a s" and up: "set_up j s" and inv: "sys_inv p s"
    and un: "undisturbed p k n j rq s" and i: "i < length (sys_nodes s)"
    and about: "\<not> nod_about k (np_pc (sys_nodes s ! i))"
  shows "in_stage p k n j rq a (do_node p i s)"
proof -
  let ?m = "sys_nodes s ! i" and ?t = "do_node p i s" and ?c = "control_for p n (new_value rq n)"
  obtain w pc out where step: "node_step p (np_node ?m) (np_pc ?m) (sys_world s) = Ret (w, pc, out)"
    using node_step_ok [OF sys_invD(1) [OF inv] sys_invD(3) [OF inv i]] by blast
  have t: "?t = s\<lparr>sys_world := w, sys_nodes := (sys_nodes s)[i := ?m\<lparr>np_pc := pc\<rparr>],
      sys_controls := sys_controls s @ out\<rparr>"
    using step by (simp add: do_node_def Let_def)
  note fr = node_frame [OF step world_okD(1) [OF sys_invD(1) [OF inv]] sys_invD(3) [OF inv i] about]
  then have fr': "frame k (sys_world s) (sys_world ?t)" and new: "\<not> nod_about k pc" by (simp_all add: t)
  note old = nod_not_about [OF about] and new' = nod_not_about [OF new]
  show ?thesis
  proof (rule in_stage_keep [OF st frame_row [OF fr']])
    show "ctl_tokens k ?t = ctl_tokens k s"
      by (intro ctl_tokens_same frame_box [OF fr']) (simp_all add: t)
    show "nod_tokens k j ?t = nod_tokens k j s"
    proof (rule nod_tokens_same [OF frame_box [OF fr']])
      show "nod_token k (np_pc (sys_nodes ?t ! j)) = nod_token k (np_pc (sys_nodes s ! j))"
        unfolding t using old new' i by (cases "i = j") simp_all
    qed (simp add: t)
    have "cm_node ?c = n" by (simp add: control_for_def)
    then have "filter (\<lambda>x. cm_node x = cm_node ?c \<and> cm_header x = cm_header ?c) out = []"
      using watcher_sent_same [OF inv un i about step] by simp
    then show "sent_to ?c ?t = sent_to ?c s" by (simp add: t sent_to_def)
    show "ctl_fine k a (sys_ctrl ?t)" using st by (simp add: in_stage_def t)
    show "m \<in> set (sys_nodes s) \<or> nod_fine k a (np_pc m)" if "m \<in> set (sys_nodes ?t)" for m
      using that new' unfolding t by (auto elim: set_list_updateE)
    show "committed k (np_pc (sys_nodes ?t ! l)) \<longleftrightarrow>
        l < length (sys_nodes s) \<and> committed k (np_pc (sys_nodes s ! l))" if "l < length (sys_nodes ?t)" for l
      using that old new' i by (cases "l = i") (simp_all add: t)
    show "marked k (np_pc (sys_nodes ?t ! j)) \<longleftrightarrow> marked k (np_pc (sys_nodes s ! j))"
      unfolding t using old new' i by (cases "i = j") simp_all
  qed (use up in \<open>simp_all add: t set_up_def\<close>)
qed

text \<open>A watcher handles an event of the key: only the one of the node acts on it.\<close>

lemma in_stage_node_update:
  assumes st: "in_stage p k n j rq a s"
    and t: "t = s\<lparr>sys_world := w, sys_nodes := (sys_nodes s)[i := (sys_nodes s ! i)\<lparr>np_pc := pc\<rparr>],
      sys_controls := sys_controls s @ out\<rparr>"
    and w: "stored k n rq a w" and fine: "nod_fine k a pc" and i: "i < length (sys_nodes s)"
    and com: "i \<noteq> j \<Longrightarrow> \<not> committed k pc"
    and stage: "stage_ok k (control_for p n (new_value rq n)) (ctl_tokens k t) (nod_tokens k j t)
       (sent_to (control_for p n (new_value rq n)) t) (np_pc (sys_nodes t ! j)) (State (heap w ! a))"
  shows "in_stage p k n j rq a t"
proof -
  note st' = st [unfolded in_stage_def]
  have "\<forall>m \<in> set (sys_nodes t). nod_fine k a (np_pc m)"
    using st' fine by (auto simp: t elim!: set_list_updateE)
  moreover have "\<not> committed k (np_pc (sys_nodes t ! l))" if "l < length (sys_nodes t)" "l \<noteq> j" for l
    using st' com that i by (cases "l = i") (simp_all add: t)
  ultimately show ?thesis using st' w stage by (simp add: in_stage_def t)
qed

lemma stage_node_quiet:
  assumes st: "in_stage p k n j rq a s" and up: "set_up j s" and i: "i < length (sys_nodes s)"
    and t: "t = s\<lparr>sys_nodes := (sys_nodes s)[i := (sys_nodes s ! i)\<lparr>np_pc := pc\<rparr>]\<rparr>"
    and fine: "nod_fine k a pc" "\<not> committed k pc" "\<not> committed k (np_pc (sys_nodes s ! i))"
    and tok: "i = j \<Longrightarrow> nod_token k pc = nod_token k (np_pc (sys_nodes s ! j))"
  shows "in_stage p k n j rq a t"
proof (rule in_stage_keep [OF st])
  have mk: "marked k q \<Longrightarrow> committed k q" for q by (cases q) simp_all
  show "nod_tokens k j t = nod_tokens k j s"
    using tok i by (cases "i = j") (simp_all add: t nod_tokens_def inbox_def)
  show "ctl_fine k a (sys_ctrl t)" using st by (simp add: in_stage_def t)
  show "m \<in> set (sys_nodes s) \<or> nod_fine k a (np_pc m)" if "m \<in> set (sys_nodes t)" for m
    using that fine(1) unfolding t by (auto elim: set_list_updateE)
  show "committed k (np_pc (sys_nodes t ! l)) \<longleftrightarrow>
      l < length (sys_nodes s) \<and> committed k (np_pc (sys_nodes s ! l))" if "l < length (sys_nodes t)" for l
    using that fine i by (cases "l = i") (simp_all add: t)
  show "marked k (np_pc (sys_nodes t ! j)) \<longleftrightarrow> marked k (np_pc (sys_nodes s ! j))"
    using fine i mk by (cases "i = j") (auto simp: t)
qed (use up in \<open>simp_all add: t ctl_tokens_def inbox_def sent_to_def set_up_def\<close>)

lemma stage_node_about:
  assumes st: "in_stage p k n j rq a s" and up: "set_up j s" and inv: "sys_inv p s"
    and un: "undisturbed p k n j rq s" and i: "i < length (sys_nodes s)"
    and about: "nod_about k (np_pc (sys_nodes s ! i))"
  shows "in_stage p k n j rq a (do_node p i s)"
proof -
  let ?w = "sys_world s" and ?c = "control_for p n (new_value rq n)" and ?m = "sys_nodes s ! i"
  note st' = st [unfolded in_stage_def]
  have rec: "records (mstore ?w) k = Some \<lparr>Key = k, Value = a\<rparr>" "a < length (heap ?w)"
    "E2NodeID (heap ?w ! a) = n"
    using st' by (auto simp: stored_def same_ident_def)
  have fine: "nod_fine k a (np_pc ?m)" using st' i by simp
  have mine: "np_node ?m = n \<longleftrightarrow> i = j" using un i by (simp add: undisturbed_def)
  have com: "committed k (np_pc ?m) \<Longrightarrow> i = j" using st' i by blast
  show ?thesis
  proof (cases "np_pc ?m")
    case (N_Event e)
    then have e: "EvKey e = k" using about by simp
    show ?thesis
    proof (rule stage_node_quiet [OF st up i])
      show "do_node p i s = s\<lparr>sys_nodes := (sys_nodes s)[i := ?m\<lparr>np_pc :=
          (if EvType e = Updated then N_Got e a else N_Range)\<rparr>]\<rparr>"
        using N_Event e rec(1) by (simp add: do_node_def Let_def Get_def)
    qed (use N_Event e in \<open>simp_all add: approves_def\<close>)
  next
    case (N_Got e b)
    then have e: "EvKey e = k" "b = a" using about fine by auto
    show ?thesis
    proof (cases "EventMHOState e = Approved \<and> i = j")
      case False
      show ?thesis
      proof (rule stage_node_quiet [OF st up i])
        show "do_node p i s = s\<lparr>sys_nodes := (sys_nodes s)[i := ?m\<lparr>np_pc := N_Range\<rparr>]\<rparr>"
          using N_Got e rec False mine by (auto simp: do_node_def Let_def load_def)
      qed (use N_Got e False in simp_all)
    next
      case True
      let ?t = "do_node p i s"
      have "control_for p n (heap ?w ! a) = ?c"
        using st' by (intro control_for_ident) (simp add: stored_def)
      then have t: "?t = s\<lparr>sys_world := ?w, sys_nodes := (sys_nodes s)[i := ?m\<lparr>np_pc := N_Sent e a\<rparr>],
          sys_controls := sys_controls s @ [?c]\<rparr>"
        using N_Got e rec True mine by (simp add: do_node_def Let_def load_def)
      have "0 < nod_tokens k j s" using N_Got e True by (simp add: nod_tokens_def)
      then have one: "ctl_tokens k s = 0 \<and> nod_tokens k j s = 1 \<and> sent_to ?c s = []"
        using nod_token_stage st' N_Got True by fastforce
      have "ctl_tokens k ?t = ctl_tokens k s" "nod_tokens k j ?t = nod_tokens k j s"
        unfolding t ctl_tokens_def nod_tokens_def inbox_def using N_Got True e i by simp_all
      moreover have "np_pc (sys_nodes ?t ! j) = N_Sent e a" "sent_to ?c ?t = [?c]"
        unfolding t using True i one by (simp_all add: sent_to_def)
      ultimately show ?thesis
        using one st' True i e(1) by (intro in_stage_node_update [OF st t]) (simp_all add: stage_ok_def)
    qed
  next
    case (N_Sent e b)
    let ?t = "do_node p i s"
    have e: "EvKey e = k" "b = a" and ij: "i = j" using about fine com N_Sent by auto
    have t: "?t = s\<lparr>sys_world := set_state a Done ?w, sys_nodes := (sys_nodes s)[i := ?m\<lparr>np_pc := N_Put e a\<rparr>],
        sys_controls := sys_controls s @ []\<rparr>"
      using N_Sent e by (simp add: do_node_def Let_def)
    have "0 < nod_tokens k j s" using N_Sent e ij by (simp add: nod_tokens_def)
    then have one: "ctl_tokens k s = 0 \<and> nod_tokens k j s = 1 \<and> sent_to ?c s = [?c]"
      using nod_token_stage st' N_Sent ij e by fastforce
    have "ctl_tokens k ?t = ctl_tokens k s" "nod_tokens k j ?t = nod_tokens k j s"
      unfolding t ctl_tokens_def nod_tokens_def inbox_def using N_Sent ij e i by (simp_all add: store_simps)
    moreover have "np_pc (sys_nodes ?t ! j) = N_Put e a" "sent_to ?c ?t = [?c]"
      unfolding t using ij i one by (simp_all add: sent_to_def)
    ultimately show ?thesis
      using one st' ij i e(1) rec
      by (intro in_stage_node_update [OF st t] stored_set_state) (simp_all add: stage_ok_def store_simps)
  next
    case (N_Put e b)
    let ?t = "do_node p i s"
    have e: "EvKey e = k" "b = a" and ij: "i = j" using about fine com N_Put by auto
    have t: "?t = s\<lparr>sys_world := put_value k a Done ?w, sys_nodes := (sys_nodes s)[i := ?m\<lparr>np_pc := N_Range\<rparr>],
        sys_controls := sys_controls s @ []\<rparr>"
      using N_Put e by (simp add: do_node_def Let_def)
    have "0 < nod_tokens k j s" using N_Put e ij by (simp add: nod_tokens_def)
    then have one: "ctl_tokens k s = 0 \<and> nod_tokens k j s = 1 \<and> sent_to ?c s = [?c] \<and> State (heap ?w ! a) = Done"
      using nod_token_stage st' N_Put ij e by fastforce
    have box: "inbox c ?t = inbox c s + {#put_event k a Done (mstore ?w)#}" for c
      by (simp add: t inbox_def store_simps)
    have at: "sys_ctrl ?t = sys_ctrl s" "np_pc (sys_nodes ?t ! j) = N_Range" "sent_to ?c ?t = [?c]"
      unfolding t using ij i one by (simp_all add: sent_to_def)
    have "ctl_tokens k ?t = 0" "nod_tokens k j ?t = 0"
      unfolding ctl_tokens_def nod_tokens_def box at
      using one N_Put ij e by (simp_all add: ctl_tokens_def nod_tokens_def decides_def approves_def)
    with at show ?thesis
      using one st' ij i
      by (intro in_stage_node_update [OF st t] stored_put_value) (simp_all add: stage_ok_def store_simps)
  qed (use about in simp_all)
qed

lemma stage_node_any:
  assumes "in_stage p k n j rq a s" "set_up j s" "sys_inv p s" "undisturbed p k n j rq s" "i < length (sys_nodes s)"
  shows "in_stage p k n j rq a (do_node p i s)"
  using stage_node_about [OF assms] stage_node_other [OF assms] by blast

subsection \<open>What every step keeps of the set-up\<close>

lemma node_step_init: "node_step p m pc w = Ret (w', pc', out) \<Longrightarrow> pc' = N_Init \<longleftrightarrow> pc = N_Init"
  using node_step_watchers by blast

lemma set_up_nodes:
  assumes "set_up j s" "sys_ctrl t \<noteq> C_Init" "map mp_node (sys_mons t) = map mp_node (sys_mons s)"
    and "sys_nodes t = (sys_nodes s)[i := m]" "np_node m = np_node (sys_nodes s ! i)"
    and "np_pc m = N_Init \<longrightarrow> np_pc (sys_nodes s ! i) = N_Init"
  shows "set_up j t"
  using assms by (cases "i = j") (auto simp: set_up_def map_update_same)

lemma set_up_same:
  assumes "set_up j s" "sys_ctrl t \<noteq> C_Init" "map mp_node (sys_mons t) = map mp_node (sys_mons s)"
    and "sys_nodes t = sys_nodes s"
  shows "set_up j t"
  using assms by (simp add: set_up_def)

lemma set_up_step:
  assumes "sys_step cd p s t" "set_up j s"
  shows "set_up j t"
  using assms
proof (induction rule: sys_step.induct)
  case (connect s n)
  then show ?case by (auto simp: set_up_def do_connect_def nth_append)
next
  case (node_watch s i late u)
  then show ?case
    by (intro set_up_nodes [OF node_watch(6), where i = i and
          m = "(sys_nodes s ! i)\<lparr>np_pc := N_Range, np_reg := R_On u\<rparr>"]) (auto simp: set_up_def do_node_watch_def do_watch_def Let_def)
next
  case (unwatch s i u order)
  then show ?case by (intro set_up_nodes [OF unwatch(6), where i = i and
          m = "(sys_nodes s ! i)\<lparr>np_reg := R_Removed\<rparr>"]) (auto simp: set_up_def do_unwatch_def)
next
  case (close s i)
  then show ?case by (intro set_up_nodes [OF close(5), where i = i and
          m = "(sys_nodes s ! i)\<lparr>np_reg := R_Closed\<rparr>"]) (auto simp: set_up_def do_close_def)
next
  case (node_end s i)
  then show ?case by (intro set_up_nodes [OF node_end(5), where i = i and
          m = "(sys_nodes s ! i)\<lparr>np_pc := N_End\<rparr>"]) (auto simp: set_up_def do_node_end_def)
next
  case (mon_ctx s i)
  then show ?case by (intro set_up_same [OF mon_ctx(5)]) (auto simp: set_up_def do_mon_ctx_def map_update_same)
next
  case (recv s i r)
  then show ?case
    by (intro set_up_same [OF recv(5)])
      (auto simp: set_up_def do_recv_def map_update_same split: go.splits dest!: mon_recv_ok)
next
  case (mon_move s i)
  then show ?case
    by (intro set_up_same [OF mon_move(4)]) (auto simp: set_up_def do_mon_def Let_def map_update_same split: go.splits)
next
  case (deliver_node s i x)
  then show ?case by (intro set_up_nodes [OF deliver_node(6), where i = i and
          m = "(sys_nodes s ! i)\<lparr>np_pc := N_Event (fst (sys_active s ! x))\<rparr>"]) (auto simp: set_up_def do_deliver_node_def do_taken_def)
next
  case (ctrl_move s)
  then show ?case
    by (intro set_up_same [OF ctrl_move(4)]) (auto simp: set_up_def do_ctrl_def split: go.splits dest: ctrl_step_rank)
next
  case (node_move s i)
  show ?case
  proof (cases "node_step p (np_node (sys_nodes s ! i)) (np_pc (sys_nodes s ! i)) (sys_world s)")
    case (Ret x)
    obtain w pc out where x: "x = (w, pc, out)" by (cases x)
    show ?thesis
      using node_move Ret x node_step_init [OF Ret [unfolded x]]
      by (intro set_up_nodes [OF node_move(5), where i = i and m = "(sys_nodes s ! i)\<lparr>np_pc := pc\<rparr>"])
        (auto simp: set_up_def do_node_def Let_def)
  qed (use node_move in \<open>auto simp: do_node_def Let_def set_up_def\<close>)
qed (simp_all add: set_up_def do_ctrl_watch_def do_watch_def do_cancel_def do_send_closed_def do_send_start_def
    do_deliver_ctrl_def do_taken_def Let_def)

text \<open>Histories only grow, and names stay.\<close>

definition grows :: "sys \<Rightarrow> sys \<Rightarrow> bool" where
  "grows s t \<longleftrightarrow> (\<exists>new. sys_inds t = sys_inds s @ new) \<and>
     (\<exists>more. map np_node (sys_nodes t) = map np_node (sys_nodes s) @ more) \<and>
     (sys_cancelled s \<longrightarrow> sys_cancelled t)"

lemma grows_step: "sys_step cd p s t \<Longrightarrow> grows s t"
  by (induction rule: sys_step.induct)
    (auto simp: grows_def do_simps Let_def map_update_same split: go.splits)

lemma undisturbedD:
  assumes "undisturbed p k n j rq s"
  shows "i < length (sys_nodes s) \<Longrightarrow> np_node (sys_nodes s ! i) = n \<longleftrightarrow> i = j" "\<not> sys_cancelled s"
    "(m, r) \<in> set (key_inds k (sys_inds s)) \<Longrightarrow> m = n \<and> rq_tgt r = rq_tgt rq"
    "key_inds k (sys_inds s) = x # xs \<Longrightarrow> x = (n, rq)"
    "(n, r) \<in> set (sys_inds s) \<Longrightarrow>
       bytes_or_nil (CreateRcControlHeader p (rq_ue r)) = bytes_or_nil (CreateRcControlHeader p (rq_ue rq)) \<Longrightarrow>
       rq_key r = k"
proof -
  note un = assms [unfolded undisturbed_def]
  show "i < length (sys_nodes s) \<Longrightarrow> np_node (sys_nodes s ! i) = n \<longleftrightarrow> i = j" using un by simp
  show "\<not> sys_cancelled s" using un by simp
  show "(m, r) \<in> set (key_inds k (sys_inds s)) \<Longrightarrow> m = n \<and> rq_tgt r = rq_tgt rq"
    using conjunct1 [OF conjunct2 [OF conjunct2 [OF un]]] by auto
  show "key_inds k (sys_inds s) = x # xs \<Longrightarrow> x = (n, rq)"
    using conjunct1 [OF conjunct2 [OF conjunct2 [OF conjunct2 [OF un]]]] by simp
  show "rq_key r = k" if "(n, r) \<in> set (sys_inds s)"
    "bytes_or_nil (CreateRcControlHeader p (rq_ue r)) = bytes_or_nil (CreateRcControlHeader p (rq_ue rq))"
    using conjunct2 [OF conjunct2 [OF conjunct2 [OF conjunct2 [OF un]]]] that by simp
qed

lemma undisturbed_back:
  assumes "grows s t" "undisturbed p k n j rq t"
  shows "undisturbed p k n j rq s"
proof -
  obtain new more where g: "sys_inds t = sys_inds s @ new"
    "map np_node (sys_nodes t) = map np_node (sys_nodes s) @ more"
    using assms(1) by (auto simp: grows_def)
  have len: "length (sys_nodes s) \<le> length (sys_nodes t)"
    using arg_cong [OF g(2), of length] by simp
  have name: "np_node (sys_nodes t ! i) = np_node (sys_nodes s ! i)" if "i < length (sys_nodes s)" for i
  proof -
    have "map np_node (sys_nodes t) ! i = map np_node (sys_nodes s) ! i"
      unfolding g(2) using that by (simp add: nth_append)
    then show ?thesis using that len by simp
  qed
  have own: "\<forall>i < length (sys_nodes s). np_node (sys_nodes s ! i) = n \<longleftrightarrow> i = j"
  proof (intro allI impI)
    fix i
    assume i: "i < length (sys_nodes s)"
    then have "i < length (sys_nodes t)" using len by simp
    then have "np_node (sys_nodes t ! i) = n \<longleftrightarrow> i = j"
      using assms(2) unfolding undisturbed_def by blast
    then show "np_node (sys_nodes s ! i) = n \<longleftrightarrow> i = j" using name [OF i] by simp
  qed
  have "key_inds k (sys_inds t) = key_inds k (sys_inds s) @ key_inds k new"
    by (simp add: g(1) key_inds_def)
  then have le: "set (key_inds k (sys_inds s)) \<subseteq> set (key_inds k (sys_inds t))"
    "\<And>x xs. key_inds k (sys_inds s) = x # xs \<Longrightarrow> \<exists>ys. key_inds k (sys_inds t) = x # ys"
    by auto
  show ?thesis
    unfolding undisturbed_def
  proof (intro conjI)
    show "\<forall>(m, r) \<in> set (key_inds k (sys_inds s)). m = n \<and> rq_tgt r = rq_tgt rq"
      using undisturbedD(3) [OF assms(2)] le(1) by auto
    show "\<forall>x xs. key_inds k (sys_inds s) = x # xs \<longrightarrow> x = (n, rq)"
      using undisturbedD(4) [OF assms(2)] le(2) by metis
    show "\<forall>r. (n, r) \<in> set (sys_inds s) \<and>
        bytes_or_nil (CreateRcControlHeader p (rq_ue r)) = bytes_or_nil (CreateRcControlHeader p (rq_ue rq)) \<longrightarrow>
        rq_key r = k"
      using undisturbedD(5) [OF assms(2)] by (simp add: g(1))
    show "\<not> sys_cancelled s" using undisturbedD(2) [OF assms(2)] assms(1) by (auto simp: grows_def)
  qed (rule own)
qed

subsection \<open>Before the value is stored\<close>

lemma not_stored_quiet:
  assumes inv: "sys_inv p s" and none: "records (mstore (sys_world s)) k = None"
  shows "\<not> ctl_about k (sys_ctrl s)"
    and "i < length (sys_nodes s) \<Longrightarrow> \<not> nod_about k (np_pc (sys_nodes s ! i))"
    and "e \<in># inbox c s \<Longrightarrow> EvKey e \<noteq> k"
proof -
  have no: "EvKey e \<noteq> k" if "ev_ok (sys_world s) e" for e
    using that none by (auto simp: ev_ok_def HasEntry_def)
  show "\<not> ctl_about k (sys_ctrl s)"
    using sys_invD(2) [OF inv] no by (cases "sys_ctrl s") auto
  show "\<not> nod_about k (np_pc (sys_nodes s ! i))" if "i < length (sys_nodes s)"
    using sys_invD(3) [OF inv that] no by (cases "np_pc (sys_nodes s ! i)") auto
  show "EvKey e \<noteq> k" if "e \<in># inbox c s"
    by (rule no [OF inbox_has_entry [OF inv that]])
qed

lemma key_inds_append [simp]: "key_inds k (xs @ ys) = key_inds k xs @ key_inds k ys"
  by (simp add: key_inds_def)

lemma key_inds_Nil [simp]: "key_inds k [] = []"
  by (simp add: key_inds_def)

lemma set_key_inds: "(m, r) \<in> set (key_inds k inds) \<longleftrightarrow> (m, r) \<in> set inds \<and> rq_key r = k"
  by (auto simp: key_inds_def)

text \<open>No accepted request, no row.\<close>

lemma no_request_no_row:
  assumes inv: "sys_inv p s" and "key_inds k (sys_inds s) = []"
  shows "records (mstore (sys_world s)) k = None"
proof (rule ccontr)
  assume "records (mstore (sys_world s)) k \<noteq> None"
  then obtain e where e: "records (mstore (sys_world s)) k = Some e" by auto
  note w = wf_worldD [OF world_okD(1) [OF sys_invD(1) [OF inv]] e]
  obtain r where r: "rq_ok r" "(E2NodeID (heap (sys_world s) ! Value e), r) \<in> set (sys_inds s)"
    "RawUEID (heap (sys_world s) ! Value e) = rq_ue r"
    using world_okD(2) [OF sys_invD(1) [OF inv] w(2)] by (auto simp: val_ok_def)
  then have "rq_key r = k" using w(3) by (simp add: rq_ok_def)
  then have "(E2NodeID (heap (sys_world s) ! Value e), r) \<in> set (key_inds k (sys_inds s))"
    using r(2) by (simp add: set_key_inds)
  then show False using assms(2) by simp
qed

lemma no_request_not_sent:
  assumes inv: "sys_inv p s" and un: "undisturbed p k n j rq s" and "key_inds k (sys_inds s) = []"
  shows "sent_to (control_for p n (new_value rq n)) s = []"
proof -
  have "\<not> (cm_node c = n \<and> cm_header c = bytes_or_nil (CreateRcControlHeader p (rq_ue rq)))"
    if "c \<in> set (sys_controls s)" for c
  proof
    note mem = that
    assume c: "cm_node c = n \<and> cm_header c = bytes_or_nil (CreateRcControlHeader p (rq_ue rq))"
    obtain r where r: "(cm_node c, r) \<in> set (sys_inds s)"
      "cm_header c = bytes_or_nil (CreateRcControlHeader p (rq_ue r))"
      using sys_invD(6) [OF inv mem] by (auto simp: control_ok_def)
    then have "rq_key r = k" using c undisturbedD(5) [OF un, of r] by simp
    then have "(cm_node c, r) \<in> set (key_inds k (sys_inds s))" using r(1) by (simp add: set_key_inds)
    then show False using assms(3) by simp
  qed
  then show ?thesis by (auto simp: sent_to_def control_for_def filter_empty_conv)
qed

text \<open>While the first request waits, only its monitor is busy with the key.\<close>

lemma asked_others:
  assumes ask: "just_asked p k n j rq s" and up: "set_up j s" and inv: "sys_inv p s"
    and un: "undisturbed p k n j rq s" and i: "i < length (sys_mons s)" "i \<noteq> j"
  shows "\<not> mon_about k (mp_pc (sys_mons s ! i))"
proof
  let ?m = "sys_mons s ! i"
  assume "mon_about k (mp_pc ?m)"
  then obtain r where r: "req_ok (sys_inds s) (mp_node ?m) r" "rq_key r = k"
    using sys_invD(4) [OF inv i(1)] by (cases "mp_pc ?m") auto
  then have "(mp_node ?m, r) \<in> set (key_inds k (sys_inds s))" by (simp add: set_key_inds req_ok_def)
  then have "mp_node ?m = n" using undisturbedD(3) [OF un] by blast
  moreover have "map mp_node (sys_mons s) = map np_node (sys_nodes s)" using up by (simp add: set_up_def)
  then have "length (sys_mons s) = length (sys_nodes s)" "mp_node ?m = np_node (sys_nodes s ! i)"
    using i(1) by (metis length_map, metis length_map nth_map)
  ultimately show False using undisturbedD(1) [OF un, of i] i by simp
qed

lemma just_asked_keep:
  assumes ask: "just_asked p k n j rq s" and fr: "same_row k (sys_world s) (sys_world t)"
    and "key_inds k (sys_inds t) = key_inds k (sys_inds s)"
    and "sent_to (control_for p n (new_value rq n)) t = sent_to (control_for p n (new_value rq n)) s"
    and "length (sys_mons s) \<le> length (sys_mons t)"
    and "mp_pc (sys_mons t ! j) \<in> {M_Has rq, M_New rq}"
  shows "just_asked p k n j rq t"
  using assms by (auto simp: just_asked_def same_row_def)

text \<open>The monitor stores the value: the first stage begins.\<close>

lemma asked_stored:
  assumes ask: "just_asked p k n j rq s" and up: "set_up j s" and inv: "sys_inv p s"
    and un: "undisturbed p k n j rq s" and pc: "mp_pc (sys_mons s ! j) = M_New rq"
  shows "in_stage p k n j rq (length (heap (sys_world s))) (do_mon j s)"
proof -
  let ?w = "sys_world s" and ?a = "length (heap (sys_world s))" and ?m = "sys_mons s ! j"
  let ?t = "do_mon j s"
  have ask': "key_inds k (sys_inds s) = [(n, rq)]" "records (mstore ?w) k = None" "j < length (sys_mons s)"
    "sent_to (control_for p n (new_value rq n)) s = []"
    using ask by (simp_all add: just_asked_def)
  have key: "rq_key rq = k"
    using set_key_inds [of n rq k "sys_inds s"] ask'(1) by simp
  have len: "length (sys_mons s) = length (sys_nodes s)" "mp_node ?m = np_node (sys_nodes s ! j)"
    using up ask'(3) unfolding set_up_def by (metis length_map, metis length_map nth_map)
  then have node: "mp_node ?m = n" using undisturbedD(1) [OF un, of j] ask'(3) by simp
  have t: "?t = s\<lparr>sys_world := put_new rq n ?w, sys_mons := (sys_mons s)[j := ?m\<lparr>mp_pc := M_Idle\<rparr>]\<rparr>"
    using pc node by (simp add: do_mon_def Let_def)
  note quiet = not_stored_quiet [OF inv ask'(2)]
  obtain e where e: "sends (mstore (put_new rq n ?w)) = sends (mstore ?w) @ [e]"
    "EvKey e = k" "EventMHOState e = StateCreated"
    by (simp add: put_new_alt store_simps key)
  have box: "inbox c ?t = inbox c s + {#e#}" for c by (simp add: t inbox_def e(1))
  have toks: "ctl_tokens k ?t = 1" "nod_tokens k j ?t = 0"
    unfolding ctl_tokens_def nod_tokens_def box
    using quiet(1,3) e(2,3) quiet(2) [of j] up
    by (auto simp: decides_def approves_def set_up_def t not_about)
  have "mon_fine k ?a (mp_pc m)" if m: "m \<in> set (sys_mons ?t)" for m
  proof -
    obtain i where i: "i < length (sys_mons s)" "m = (sys_mons s)[j := ?m\<lparr>mp_pc := M_Idle\<rparr>] ! i"
      using m unfolding t in_set_conv_nth by auto
    show ?thesis
      using asked_others [OF ask up inv un i(1)] i ask'(3) by (cases "i = j") (simp_all add: mon_not_about)
  qed
  moreover have "nod_fine k ?a (np_pc m) \<and> \<not> committed k (np_pc m)" if m: "m \<in> set (sys_nodes s)" for m
    using m quiet(2) nod_not_about unfolding in_set_conv_nth by blast
  moreover have "stored k n rq ?a (put_new rq n ?w)"
    by (simp add: stored_def put_new_alt store_simps key)
  ultimately show ?thesis
    using toks ask'(4) ctl_not_about [OF quiet(1)]
    by (simp add: in_stage_def t stage_ok_def sent_to_def)
qed

lemma asked_node:
  assumes ask: "just_asked p k n j rq s" and inv: "sys_inv p s"
    and un: "undisturbed p k n j rq s" and i: "i < length (sys_nodes s)"
  shows "just_asked p k n j rq (do_node p i s)"
proof -
  let ?m = "sys_nodes s ! i" and ?t = "do_node p i s"
  have none: "records (mstore (sys_world s)) k = None" using ask by (simp add: just_asked_def)
  note about = not_stored_quiet(2) [OF inv none i]
  obtain w pc out where step: "node_step p (np_node ?m) (np_pc ?m) (sys_world s) = Ret (w, pc, out)"
    using node_step_ok [OF sys_invD(1) [OF inv] sys_invD(3) [OF inv i]] by blast
  have t: "?t = s\<lparr>sys_world := w, sys_nodes := (sys_nodes s)[i := ?m\<lparr>np_pc := pc\<rparr>],
      sys_controls := sys_controls s @ out\<rparr>"
    using step by (simp add: do_node_def Let_def)
  have "same_row k (sys_world s) (sys_world ?t)"
    using node_frame [OF step world_okD(1) [OF sys_invD(1) [OF inv]] sys_invD(3) [OF inv i] about]
    by (simp add: t frame_row)
  moreover have "cm_node (control_for p n (new_value rq n)) = n" by (simp add: control_for_def)
  ultimately show ?thesis
    using ask watcher_sent_same [OF inv un i about step]
    by (intro just_asked_keep [OF ask]) (simp_all add: t sent_to_def just_asked_def)
qed

lemma asked_ctrl:
  assumes ask: "just_asked p k n j rq s" and inv: "sys_inv p s"
  shows "just_asked p k n j rq (do_ctrl s)"
proof -
  have none: "records (mstore (sys_world s)) k = None" using ask by (simp add: just_asked_def)
  obtain w pc where step: "ctrl_step (sys_ctrl s) (sys_world s) = Ret (w, pc)"
    using ctrl_step_ok [OF sys_invD(1,2) [OF inv]] by blast
  have t: "do_ctrl s = s\<lparr>sys_world := w, sys_ctrl := pc\<rparr>" using step by (simp add: do_ctrl_def)
  have "same_row k (sys_world s) w"
    using ctrl_frame [OF step world_okD(1) [OF sys_invD(1) [OF inv]] sys_invD(2) [OF inv]
        not_stored_quiet(1) [OF inv none]] by (simp add: frame_row)
  then show ?thesis
    using ask by (intro just_asked_keep [OF ask]) (simp_all add: t sent_to_def just_asked_def)
qed

lemma asked_mon:
  assumes ask: "just_asked p k n j rq s" and up: "set_up j s" and inv: "sys_inv p s"
    and un: "undisturbed p k n j rq s" and i: "i < length (sys_mons s)"
  shows "just_asked p k n j rq (do_mon i s) \<or> (\<exists>a. in_stage p k n j rq a (do_mon i s))"
proof (cases "i = j")
  case True
  have ask': "key_inds k (sys_inds s) = [(n, rq)]" "records (mstore (sys_world s)) k = None"
    "mp_pc (sys_mons s ! j) = M_Has rq \<or> mp_pc (sys_mons s ! j) = M_New rq"
    using ask by (simp_all add: just_asked_def)
  have key: "rq_key rq = k" using set_key_inds [of n rq k "sys_inds s"] ask'(1) by simp
  from ask'(3) show ?thesis
  proof
    assume "mp_pc (sys_mons s ! j) = M_New rq"
    then show ?thesis using asked_stored [OF ask up inv un] True by blast
  next
    assume "mp_pc (sys_mons s ! j) = M_Has rq"
    then have "do_mon i s = s\<lparr>sys_mons := (sys_mons s)[j := (sys_mons s ! j)\<lparr>mp_pc := M_New rq\<rparr>]\<rparr>"
      using True ask'(2) key by (simp add: do_mon_def Let_def HasEntry_def)
    then show ?thesis using ask by (simp add: just_asked_def sent_to_def)
  qed
next
  case False
  obtain w pc where step: "monitor_step (mp_node (sys_mons s ! i)) (mp_pc (sys_mons s ! i)) (sys_world s) = Ret (w, pc)"
    using monitor_step_ok [OF sys_invD(1) [OF inv] sys_invD(4) [OF inv i]] by blast
  have t: "do_mon i s = s\<lparr>sys_world := w, sys_mons := (sys_mons s)[i := (sys_mons s ! i)\<lparr>mp_pc := pc\<rparr>]\<rparr>"
    using step by (simp add: do_mon_def Let_def)
  have "same_row k (sys_world s) w"
    using monitor_frame [OF step world_okD(1) [OF sys_invD(1) [OF inv]] asked_others [OF ask up inv un i False]]
    by (simp add: frame_row)
  then have "just_asked p k n j rq (do_mon i s)"
    using ask False by (intro just_asked_keep [OF ask]) (simp_all add: t sent_to_def just_asked_def)
  then show ?thesis ..
qed

text \<open>A monitor that accepts a request of the key is the one of the node.\<close>

lemma recv_key:
  assumes up: "set_up j s" and un: "undisturbed p k n j rq (do_recv cd i r s)" and i: "i < length (sys_mons s)"
    and new: "key_inds k (sys_inds (do_recv cd i r s)) \<noteq> key_inds k (sys_inds s)"
  shows "i = j \<and> (\<exists>q. key_inds k (sys_inds (do_recv cd i r s)) = key_inds k (sys_inds s) @ [(n, q)] \<and>
     mp_pc (sys_mons (do_recv cd i r s) ! j) = M_Has q)"
proof -
  let ?t = "do_recv cd i r s"
  obtain m news where rec: "mon_recv cd r (sys_mons s ! i) = Ret (m, news)"
    using new by (auto simp: do_recv_def split: go.splits)
  then have t: "sys_inds ?t = sys_inds s @ news" "sys_mons ?t = (sys_mons s)[i := m]" "sys_nodes ?t = sys_nodes s"
    by (simp_all add: do_recv_def)
  obtain q where q: "mp_pc m = M_Has q" "news = [(mp_node m, q)]" "rq_key q = k" "mp_node m = mp_node (sys_mons s ! i)"
    using mon_recv_ok [OF rec] new t(1) by (auto simp: key_inds_def split: if_splits)
  have "(mp_node m, q) \<in> set (key_inds k (sys_inds ?t))" using q t(1) by (simp add: set_key_inds)
  then have n: "mp_node m = n" using undisturbedD(3) [OF un] by blast
  have "map mp_node (sys_mons s) = map np_node (sys_nodes s)" using up by (simp add: set_up_def)
  then have "i < length (sys_nodes s)" "np_node (sys_nodes s ! i) = mp_node (sys_mons s ! i)"
    using i by (metis length_map, metis i length_map nth_map)
  then have "i = j" using undisturbedD(1) [OF un, of i] n q(4) t(3) by simp
  then show ?thesis using q n t i by (simp add: key_inds_def)
qed

lemma asked_recv:
  assumes ask: "just_asked p k n j rq s" and up: "set_up j s" and i: "i < length (sys_mons s)"
    and idle: "mp_pc (sys_mons s ! i) = M_Idle"
    and un: "undisturbed p k n j rq (do_recv cd i r s)"
  shows "just_asked p k n j rq (do_recv cd i r s)"
proof -
  have "i \<noteq> j" using ask idle by (auto simp: just_asked_def)
  then have same: "key_inds k (sys_inds (do_recv cd i r s)) = key_inds k (sys_inds s)"
    using recv_key [OF up un i] by blast
  have "sys_world (do_recv cd i r s) = sys_world s" "sys_controls (do_recv cd i r s) = sys_controls s"
    "length (sys_mons (do_recv cd i r s)) = length (sys_mons s)"
    "sys_mons (do_recv cd i r s) ! j = sys_mons s ! j"
    using \<open>i \<noteq> j\<close> by (auto simp: do_recv_def split: go.splits)
  then show ?thesis
    using ask same by (intro just_asked_keep [OF ask]) (simp_all add: sent_to_def just_asked_def)
qed

lemma first_recv:
  assumes inv: "sys_inv p s" and up: "set_up j s" and i: "i < length (sys_mons s)"
    and un: "undisturbed p k n j rq (do_recv cd i r s)" "undisturbed p k n j rq s"
    and none: "key_inds k (sys_inds s) = []" and new: "key_inds k (sys_inds (do_recv cd i r s)) \<noteq> []"
  shows "just_asked p k n j rq (do_recv cd i r s)"
proof -
  let ?t = "do_recv cd i r s"
  obtain q where q: "i = j" "key_inds k (sys_inds ?t) = [(n, q)]" "mp_pc (sys_mons ?t ! j) = M_Has q"
    using recv_key [OF up un(1) i] none new by auto
  have "q = rq" using undisturbedD(4) [OF un(1) q(2)] by simp
  moreover have "sys_world ?t = sys_world s" "sys_controls ?t = sys_controls s"
    "length (sys_mons ?t) = length (sys_mons s)"
    by (auto simp: do_recv_def split: go.splits)
  ultimately show ?thesis
    using q i no_request_no_row [OF inv none] no_request_not_sent [OF inv un(2) none]
    by (simp add: just_asked_def sent_to_def)
qed

subsection \<open>Every step keeps the key steady\<close>

lemma sys_step_row_same:
  "same_row k w (w\<lparr>mstore := (mstore w)\<lparr>sends := es\<rparr>\<rparr>)" "same_row k w (w\<lparr>mstore := Watch i ch (mstore w)\<rparr>)"
  by (simp_all add: same_row_def store_simps)

lemma asked_plain:
  assumes "just_asked p k n j rq s" "same_row k (sys_world s) (sys_world t)" "sys_inds t = sys_inds s"
    and "sys_controls t = sys_controls s" "\<exists>more. sys_mons t = sys_mons s @ more"
  shows "just_asked p k n j rq t"
proof -
  have "j < length (sys_mons s)" using assms(1) by (simp add: just_asked_def)
  then have "sys_mons t ! j = sys_mons s ! j" using assms(5) by (auto simp: nth_append)
  then show ?thesis
    using assms by (intro just_asked_keep [OF assms(1,2)]) (auto simp: sent_to_def just_asked_def)
qed

lemma asked_step:
  assumes "sys_step cd p s t" "just_asked p k n j rq s" "set_up j s" "sys_inv p s"
    and "undisturbed p k n j rq s" "undisturbed p k n j rq t"
  shows "just_asked p k n j rq t \<or> (\<exists>a. in_stage p k n j rq a t)"
  using assms
proof (induction rule: sys_step.induct)
  case (connect s m)
  then show ?case by (intro disjI1, elim asked_plain) (simp_all add: do_connect_def)
next
  case (ctrl_watch s late i)
  then show ?case
    by (intro disjI1, elim asked_plain) (simp_all add: do_ctrl_watch_def do_watch_def sys_step_row_same)
next
  case (node_watch s i late u)
  then show ?case
    by (intro disjI1, elim asked_plain) (simp_all add: do_node_watch_def do_watch_def Let_def sys_step_row_same)
next
  case (cancel s)
  then show ?case by (simp add: undisturbed_def do_cancel_def)
next
  case (unwatch s i u order)
  then show ?case by (simp add: undisturbed_def)
next
  case (close s i)
  then show ?case by (simp add: undisturbed_def)
next
  case (send_closed s i c)
  then show ?case by (intro disjI1, elim asked_plain) (simp_all add: do_send_closed_def)
next
  case (node_end s i)
  then show ?case by (intro disjI1, elim asked_plain) (simp_all add: do_node_end_def)
next
  case (mon_ctx s i)
  then show ?case by (simp add: undisturbed_def)
next
  case (recv s i r)
  then show ?case using asked_recv by blast
next
  case (mon_move s i)
  then show ?case using asked_mon by blast
next
  case (send_start s i order)
  then show ?case
    by (intro disjI1, elim asked_plain) (simp_all add: do_send_start_def Let_def sys_step_row_same)
next
  case (deliver_ctrl s i)
  then show ?case by (intro disjI1, elim asked_plain) (simp_all add: do_deliver_ctrl_def do_taken_def)
next
  case (deliver_node s i x)
  then show ?case by (intro disjI1, elim asked_plain) (simp_all add: do_deliver_node_def do_taken_def)
next
  case (ctrl_move s)
  then show ?case using asked_ctrl by blast
next
  case (node_move s i)
  then show ?case using asked_node by blast
qed

lemma stage_step:
  assumes "sys_step cd p s t" "in_stage p k n j rq a s" "set_up j s" "sys_inv p s" "chan_ok s" "regs_ok s"
    and "undisturbed p k n j rq s" "undisturbed p k n j rq t"
  shows "in_stage p k n j rq a t"
  using assms
proof (induction rule: sys_step.induct)
  case (ctrl_watch s late i)
  then show ?case by (simp add: set_up_def)
next
  case (cancel s)
  then show ?case by (simp add: undisturbed_def do_cancel_def)
next
  case (unwatch s i u order)
  then show ?case by (simp add: undisturbed_def)
next
  case (close s i)
  then show ?case by (simp add: undisturbed_def)
next
  case (send_closed s i c)
  then have False using undisturbedD(2) sys_invD(7) by (fastforce simp: crash_ok_def)
  then show ?case ..
next
  case (node_end s i)
  then have False using undisturbedD(2) sys_invD(7) by (fastforce simp: crash_ok_def)
  then show ?case ..
next
  case (mon_ctx s i)
  then show ?case by (simp add: undisturbed_def)
qed (auto intro: stage_connect stage_node_watch stage_recv stage_mon stage_deliver_ctrl stage_deliver_node
    stage_ctrl stage_node_any stage_start dest: undisturbedD(2))

lemma unasked_step:
  assumes "sys_step cd p s t" "key_inds k (sys_inds s) = []" "set_up j s" "sys_inv p s"
    and "undisturbed p k n j rq s" "undisturbed p k n j rq t"
  shows "key_inds k (sys_inds t) = [] \<or> just_asked p k n j rq t"
  using assms
proof (induction rule: sys_step.induct)
  case (recv s i r)
  then show ?case using first_recv by blast
qed (simp_all add: do_simps Let_def split: go.splits)

lemma steady_step:
  assumes "sys_step cd p s t" "steady p k n j rq s" "set_up j s" "sys_inv p s" "chan_ok s" "regs_ok s"
    and un: "undisturbed p k n j rq t"
  shows "steady p k n j rq t"
proof -
  have un': "undisturbed p k n j rq s" by (rule undisturbed_back [OF grows_step [OF assms(1)] un])
  show ?thesis
    using assms(2) unasked_step [OF assms(1) _ assms(3,4) un' un] asked_step [OF assms(1) _ assms(3,4) un' un]
      stage_step [OF assms(1) _ assms(3-6) un' un]
    unfolding steady_def by blast
qed

subsection \<open>Runs\<close>

lemma paired_step:
  "sys_step cd p s t \<Longrightarrow> map mp_node (sys_mons s) = map np_node (sys_nodes s) \<Longrightarrow>
   map mp_node (sys_mons t) = map np_node (sys_nodes t)"
  by (induction rule: sys_step.induct)
    (auto simp: do_connect_def do_ctrl_watch_def do_node_watch_def do_watch_def do_cancel_def do_unwatch_def
      do_close_def do_send_closed_def do_node_end_def do_mon_ctx_def do_recv_def do_mon_def do_ctrl_def do_node_def
      do_send_start_def do_taken_def do_deliver_ctrl_def do_deliver_node_def Let_def map_update_same
      split: go.splits dest!: mon_recv_ok)

lemma reachable_paired: "reachable cd p s \<Longrightarrow> map mp_node (sys_mons s) = map np_node (sys_nodes s)"
  by (induction rule: reachable.induct) (auto simp: sys_init_def intro: paired_step)

lemma grows_trans: "grows s t \<Longrightarrow> grows t u \<Longrightarrow> grows s u"
  unfolding grows_def by (metis append.assoc)

lemma grows_run: "exec_acts cd p as s = Some t \<Longrightarrow> grows s t"
proof (induction as arbitrary: s)
  case Nil
  then show ?case by (simp add: grows_def)
next
  case (Cons a as)
  then obtain u where u: "exec_act cd p a s = Some u" "exec_acts cd p as u = Some t"
    by (auto split: option.splits)
  then show ?case using grows_trans [OF grows_step [OF exec_act_step [OF u(1)]] Cons.IH [OF u(2)]] by blast
qed

lemma steady_run:
  "exec_acts cd p as s = Some t \<Longrightarrow> reachable cd p s \<Longrightarrow> set_up j s \<Longrightarrow> steady p k n j rq s \<Longrightarrow>
   undisturbed p k n j rq t \<Longrightarrow> steady p k n j rq t"
proof (induction as arbitrary: s)
  case Nil
  then show ?case by simp
next
  case (Cons a as)
  then obtain u where u: "exec_act cd p a s = Some u" "exec_acts cd p as u = Some t"
    by (auto split: option.splits)
  note step = exec_act_step [OF u(1)]
  have "undisturbed p k n j rq u" by (rule undisturbed_back [OF grows_run [OF u(2)] Cons.prems(5)])
  then have "steady p k n j rq u"
    using steady_step [OF step Cons.prems(4,3) reachable_inv reachable_chan_ok reachable_regs_ok] Cons.prems(2)
    by blast
  then show ?case
    using Cons.IH [OF u(2)] Cons.prems(2,3,5) reach_step [OF Cons.prems(2) step] set_up_step [OF step] by blast
qed

lemma set_up_run: "exec_acts cd p as s = Some t \<Longrightarrow> set_up j s \<Longrightarrow> set_up j t"
proof (induction as arbitrary: s)
  case Nil
  then show ?case by simp
next
  case (Cons a as)
  then show ?case by (auto split: option.splits dest: set_up_step [OF exec_act_step])
qed

text \<open>At rest, a key that was asked for has been handed over.\<close>

lemma steady_at_rest:
  assumes "steady p k n j rq s" "quiescent s" "set_up j s" "key_inds k (sys_inds s) \<noteq> []"
  shows "ue_table (sys_world s) k = Some (rq_tgt rq, Done) \<and>
    sent_to (control_for p n (new_value rq n)) s = [control_for p n (new_value rq n)]"
proof -
  have "\<not> just_asked p k n j rq s" using assms(2) by (force simp: just_asked_def quiescent_def)
  then obtain a where st: "in_stage p k n j rq a s" using assms(1,4) by (auto simp: steady_def)
  have j: "sys_nodes s ! j \<in> set (sys_nodes s)" using assms(3) by (simp add: set_up_def)
  have "ctl_tokens k s = 0"
    using assms(2) by (simp add: ctl_tokens_def inbox_quiescent) (simp add: quiescent_def)
  moreover have "np_pc (sys_nodes s ! j) \<in> {N_End, N_Range}" using assms(2) j by (auto simp: quiescent_def)
  then have "nod_tokens k j s = 0"
    using assms(2) by (auto simp: nod_tokens_def inbox_quiescent)
  ultimately show ?thesis
    using st by (auto simp: in_stage_def stage_ok_def stored_def same_ident_def ue_table_def)
qed

lemma undisturbed_same:
  assumes "undisturbed p k n j rq s" "sys_inds t = sys_inds s" "sys_cancelled t = sys_cancelled s"
    and "map np_node (sys_nodes t) = map np_node (sys_nodes s)"
  shows "undisturbed p k n j rq t"
proof -
  have "length (sys_nodes t) = length (sys_nodes s)" using assms(4) by (metis length_map)
  moreover have "np_node (sys_nodes t ! i) = np_node (sys_nodes s ! i)" if "i < length (sys_nodes s)" for i
    using assms(4) that calculation by (metis nth_map)
  ultimately show ?thesis using assms(1-3) by (simp add: undisturbed_def)
qed

lemma steady_rests:
  assumes "reachable cd p s" "sys_ctrl s \<noteq> C_Init" "j < length (sys_nodes s)" "np_pc (sys_nodes s ! j) \<noteq> N_Init"
    and "key_inds k (sys_inds s) = []" "exec_acts cd p as s = Some t"
    and "undisturbed p k n j rq t" "key_inds k (sys_inds t) \<noteq> []" "quiescent t"
  shows "ue_table (sys_world t) k = Some (rq_tgt rq, Done) \<and>
    sent_to (control_for p n (new_value rq n)) t = [control_for p n (new_value rq n)]"
proof -
  have up: "set_up j s" using assms(2-4) reachable_paired [OF assms(1)] by (simp add: set_up_def)
  have "steady p k n j rq s" using assms(5) by (simp add: steady_def)
  then show ?thesis
    using steady_at_rest steady_run [OF assms(6,1) up] set_up_run [OF assms(6) up] assms(7-9) by blast
qed

text \<open>
  C7. Undisturbed handovers complete, in every schedule. Let the controller and the watcher of a
  node be registered before the first indication of a UE key is accepted, and let every
  indication of the key come from that node with one target, with no cancellation and no second
  connection of the node. Then every internal run that follows is bounded, and when no internal
  step is left the row of the UE says that target and Done, and the node was sent exactly one
  control message for the UE, with that target. (No other UE of the node may have the same
  encoded control header.)
\<close>

theorem steady_handover:
  assumes "reachable cd p s" "sys_ctrl s \<noteq> C_Init" "j < length (sys_nodes s)" "np_pc (sys_nodes s ! j) \<noteq> N_Init"
    and "key_inds k (sys_inds s) = []"
    and "exec_acts cd p as s = Some u" "sys_crash u = None" "undisturbed p k n j rq u"
    and "key_inds k (sys_inds u) \<noteq> []"
    and "exec_acts cd p bs u = Some t" "\<forall>b \<in> set bs. internal b"
  shows "length bs \<le> work u \<and>
    (ue_table (sys_world t) k = Some (rq_tgt rq, Done) \<and>
       filter (\<lambda>c. cm_node c = n \<and> cm_header c = bytes_or_nil (CreateRcControlHeader p (rq_ue rq))) (sys_controls t) =
         [control_for p n (new_value rq n)] \<or>
     (\<exists>a v. internal a \<and> exec_act cd p a t = Some v))"
proof -
  have ru: "reachable cd p u" by (rule exec_acts_reachable [OF assms(6,1)])
  have run: "exec_acts cd p (as @ bs) s = Some t"
    using assms(6,10) by (induction as arbitrary: s) (auto split: option.splits)
  note keeps = internal_run_keeps [OF assms(10,11)]
  then have un: "undisturbed p k n j rq t" using undisturbed_same [OF assms(8)] by blast
  have "quiescent t \<Longrightarrow> ue_table (sys_world t) k = Some (rq_tgt rq, Done) \<and>
      sent_to (control_for p n (new_value rq n)) t = [control_for p n (new_value rq n)]"
    using steady_rests [OF assms(1-5) run un] keeps assms(9) by simp
  moreover have "quiescent t \<or> (\<exists>a v. internal a \<and> exec_act cd p a t = Some v)"
    using internal_run_rests [OF ru assms(7) undisturbedD(2) [OF assms(8)] assms(10,11)] .
  moreover have "length bs + work t \<le> work u"
    by (rule internal_bound [OF assms(10) reachable_chan_ok [OF ru] assms(11)])
  ultimately show ?thesis by (auto simp: sent_to_def control_for_def)
qed

theorem steady_handover_witness:
  "\<exists>s u t. exec_acts sample_codec sample_pdu boot sys_init = Some s \<and>
     exec_acts sample_codec sample_pdu first_ind s = Some u \<and>
     exec_acts sample_codec sample_pdu [A_Start 0 [0, 1], A_ToCtrl 0, A_Ctrl] u = Some t \<and> 3 \<le> work u \<and>
     (ue_table (sys_world t) sample_key = Some (''c1'', Done) \<and>
       filter (\<lambda>c. cm_node c = ''n1'' \<and> cm_header c = bytes_or_nil (CreateRcControlHeader sample_pdu sample_ue))
         (sys_controls t) = [control_for sample_pdu ''n1'' (new_value sample_rq1 ''n1'')] \<or>
      (\<exists>a v. internal a \<and> exec_act sample_codec sample_pdu a t = Some v))"
proof -
  obtain s where s: "exec_acts sample_codec sample_pdu boot sys_init = Some s" "sys_ctrl s \<noteq> C_Init"
    "0 < length (sys_nodes s)" "np_pc (sys_nodes s ! 0) \<noteq> N_Init" "key_inds sample_key (sys_inds s) = []"
    and su: "\<exists>u. exec_acts sample_codec sample_pdu first_ind s = Some u \<and> sys_crash u = None \<and>
      undisturbed sample_pdu sample_key ''n1'' 0 sample_rq1 u \<and> key_inds sample_key (sys_inds u) \<noteq> [] \<and>
      (\<exists>t. exec_acts sample_codec sample_pdu [A_Start 0 [0, 1], A_ToCtrl 0, A_Ctrl] u = Some t)"
    by (simp add: boot_def first_ind_def run_simps undisturbed_def key_inds_def)
  from su obtain u t where u: "exec_acts sample_codec sample_pdu first_ind s = Some u" "sys_crash u = None"
    "undisturbed sample_pdu sample_key ''n1'' 0 sample_rq1 u" "key_inds sample_key (sys_inds u) \<noteq> []"
    and t: "exec_acts sample_codec sample_pdu [A_Start 0 [0, 1], A_ToCtrl 0, A_Ctrl] u = Some t"
    by (elim exE conjE)
  have i: "\<forall>b \<in> set [A_Start 0 [0, 1], A_ToCtrl 0, A_Ctrl]. internal b" by simp
  have ue: "rq_ue sample_rq1 = sample_ue" by (simp add: sample_rq1_def)
  show ?thesis
    using s(1) u(1) t
      steady_handover [OF exec_acts_reachable [OF s(1) reach_init] s(2-5) u t i] ue by auto
qed

end
