(* ===== verification/Mho_Delivery.thy ===== *)
theory Mho_Delivery
  imports Mho_App Mho_Steady
begin

text \<open>
  Deliveries complete: what the application does once its environment is silent.

  The environment is the topology service, which announces nodes, and the E2 SDK, which puts
  indications on subscription channels. Every other step belongs to a goroutine of the
  application (\<open>settling\<close>). Such steps use up a budget (\<open>app_work\<close>), so every schedule ends;
  where it ends (\<open>at_rest\<close>), nothing is left in a stream whose monitor still reads. Together
  with the stages of \<open>Mho_Steady\<close> this follows an indication from the SDK to its control message.
\<close>

fun settling :: "'f app_act \<Rightarrow> bool" where
  "settling (P_Watch v) \<longleftrightarrow> False"
| "settling (P_Event v ev) \<longleftrightarrow> False"
| "settling P_WatchClosed \<longleftrightarrow> False"
| "settling (P_FeedSend j m) \<longleftrightarrow> False"
| "settling (P_FeedClosed j) \<longleftrightarrow> False"
| "settling _ \<longleftrightarrow> True"

definition at_rest :: "codec \<Rightarrow> pdubuilder \<Rightarrow> e2_manager \<Rightarrow> app \<Rightarrow> bool" where
  "at_rest cd p em a \<longleftrightarrow> (\<forall>x :: unit app_act. settling x \<longrightarrow> app_exec cd p em x a = None)"

subsection \<open>The budget\<close>

text \<open>An indication in a buffer is taken out, offered and received; an empty stream goes to sleep.\<close>

definition stream_work :: "'a stream \<Rightarrow> nat" where
  "stream_work s = 3 * length (buffer s) +
     (case drain s of D_Next \<Rightarrow> 1 | D_Waiting \<Rightarrow> 0 | D_Sending x \<Rightarrow> 2 | D_Done \<Rightarrow> 0)"

text \<open>A monitor survives one error of \<open>Recv\<close> or of an indication, and blocks on the second.\<close>

definition loop_work :: "mon_proc \<Rightarrow> nat" where
  "loop_work m = (if blocked (mp_loop m) then 0 else if returned (mp_loop m) = None then 2 else 1)"

fun sub_pc_work :: "sub_pc \<Rightarrow> nat" where
  "sub_pc_work S_Start = 5"
| "sub_pc_work (S_Lookup c spec) = 4"
| "sub_pc_work (S_Create c spec) = 3"
| "sub_pc_work (S_Monitor r) = 0"
| "sub_pc_work (S_Failed e) = 0"

fun feed_pc_work :: "feed_pc \<Rightarrow> nat" where
  "feed_pc_work F_None = 0"
| "feed_pc_work (F_Open i) = 1"
| "feed_pc_work (F_Range r) = 0"
| "feed_pc_work F_Ended = 0"

definition sub_work :: "sub_proc \<Rightarrow> nat" where
  "sub_work m = sub_pc_work (sp_pc m) + feed_pc_work (sp_feed m)"

text \<open>Receiving an indication starts a handler, whose work grows with the number of readers.\<close>

definition app_work :: "app \<Rightarrow> nat" where
  "app_work a =
     (let c = 6 + new_work (Suc (length (sys_nodes (app_sys a)))) in
      c * sum_list (map sub_work (app_subs a)) +
      c * sum_list (map (stream_work \<circ> snd) (objs (app_broker a))) +
      c * sum_list (map loop_work (sys_mons (app_sys a))) +
      work (app_sys a))"

lemma drain_works: "drain_step s = Some t \<Longrightarrow> stream_work t < stream_work s"
  by (auto simp: drain_step_def stream_work_def split: drain_pc.splits list.splits if_splits)

lemma recv_works:
  "(t, Inr x) \<in> set (stream_Recv ctx s) \<Longrightarrow> Suc (stream_work t) = stream_work s"
  "(t, Inl e) \<in> set (stream_Recv ctx s) \<Longrightarrow> t = s"
  by (auto simp: stream_Recv_def chan_recv_def stream_work_def split: drain_pc.splits option.splits)

text \<open>What a receive costs the running system.\<close>

lemma send_err_work:
  "\<not> blocked l \<Longrightarrow> blocked (send_err e l) \<or> returned l = None \<and> returned (send_err e l) \<noteq> None"
  "blocked l \<Longrightarrow> blocked (send_err e l)" "returned l \<noteq> None \<Longrightarrow> returned (send_err e l) \<noteq> None"
  by (auto simp: send_err_def)

lemma mon_recv_work:
  assumes "mon_recv cd r m = Ret (m', new)" "mp_pc m = M_Idle" "\<not> blocked (mp_loop m)"
  shows "loop_work m' \<le> loop_work m" "r = Inl e \<Longrightarrow> loop_work m' < loop_work m"
    "mon_proc_work k m' \<le> mon_proc_work k m + 4 + new_work k"
  using assms
  by (auto simp: mon_recv_def loop_work_def send_err_def split: sum.splits if_splits go.splits)

lemma do_recv_work:
  assumes j: "j < length (sys_mons s)" "mp_pc (sys_mons s ! j) = M_Idle" "\<not> blocked (mp_loop (sys_mons s ! j))"
    and c: "sys_crash s = None"
    and t: "t = do_recv cd j r s"
  shows "work t \<le> work s + 4 + new_work (Suc (length (sys_nodes s)))"
    "sum_list (map loop_work (sys_mons t)) \<le> sum_list (map loop_work (sys_mons s))"
    "r = Inl e \<Longrightarrow> sum_list (map loop_work (sys_mons t)) < sum_list (map loop_work (sys_mons s)) \<or>
       sum_list (map loop_work (sys_mons t)) = sum_list (map loop_work (sys_mons s)) \<and> work t < work s"
proof -
  let ?k = "Suc (length (sys_nodes s))"
  have crashed: "work (s\<lparr>sys_crash := Some Crash_Indication\<rparr>) < work s"
    using c by (simp add: work_def Let_def unregistered_def)
  have "work t \<le> work s + 4 + new_work ?k \<and>
    sum_list (map loop_work (sys_mons t)) \<le> sum_list (map loop_work (sys_mons s)) \<and>
    (r = Inl e \<longrightarrow> sum_list (map loop_work (sys_mons t)) < sum_list (map loop_work (sys_mons s)) \<or>
       sum_list (map loop_work (sys_mons t)) = sum_list (map loop_work (sys_mons s)) \<and> work t < work s)"
  proof (cases "mon_recv cd r (sys_mons s ! j)")
    case (Ret x)
    obtain m new where x: "x = (m, new)" by (cases x)
    note w = mon_recv_work [OF Ret [unfolded x] j(2,3)]
    have s': "t = s\<lparr>sys_mons := (sys_mons s)[j := m], sys_inds := sys_inds s @ new\<rparr>"
      using Ret x by (simp add: t do_recv_def)
    have "work t + mon_proc_work ?k (sys_mons s ! j) = work s + mon_proc_work ?k m"
      using sum_list_map_update [OF j(1), of "mon_proc_work ?k" m]
      by (simp add: s' work_def Let_def unregistered_def)
    then show ?thesis
      using w(1,2) w(3) [of ?k] sum_list_map_update [OF j(1), of loop_work m] c by (auto simp: s')
  next
    case (Fail f)
    then have "t = s\<lparr>sys_crash := Some Crash_Indication\<rparr>" by (simp add: t do_recv_def)
    then show ?thesis using crashed c by simp
  next
    case Panic
    then have "t = s\<lparr>sys_crash := Some Crash_Indication\<rparr>" by (simp add: t do_recv_def)
    then show ?thesis using crashed c by simp
  qed
  then show "work t \<le> work s + 4 + new_work ?k"
    "sum_list (map loop_work (sys_mons t)) \<le> sum_list (map loop_work (sys_mons s))"
    "r = Inl e \<Longrightarrow> sum_list (map loop_work (sys_mons t)) < sum_list (map loop_work (sys_mons s)) \<or>
       sum_list (map loop_work (sys_mons t)) = sum_list (map loop_work (sys_mons s)) \<and> work t < work s"
    by blast+
qed

subsection \<open>Every step of the application uses up its budget\<close>

definition tokens :: "app \<Rightarrow> nat" where
  "tokens a = sum_list (map sub_work (app_subs a)) +
     sum_list (map (stream_work \<circ> snd) (objs (app_broker a))) +
     sum_list (map loop_work (sys_mons (app_sys a)))"

lemma app_work_tokens:
  "app_work a = (6 + new_work (Suc (length (sys_nodes (app_sys a))))) * tokens a + work (app_sys a)"
  by (simp only: app_work_def tokens_def Let_def distrib_left)

lemma app_work_less:
  assumes "length (sys_nodes (app_sys b)) = length (sys_nodes (app_sys a))"
    and "tokens b < tokens a \<and> work (app_sys b) < work (app_sys a) + 6 + new_work (Suc (length (sys_nodes (app_sys a)))) \<or>
         tokens b \<le> tokens a \<and> work (app_sys b) < work (app_sys a)"
  shows "app_work b < app_work a"
proof -
  let ?c = "6 + new_work (Suc (length (sys_nodes (app_sys a))))"
  have b: "app_work b = ?c * tokens b + work (app_sys b)" by (simp add: app_work_tokens assms(1))
  from assms(2) show ?thesis
  proof
    assume l: "tokens b < tokens a \<and> work (app_sys b) < work (app_sys a) + 6 + new_work (Suc (length (sys_nodes (app_sys a))))"
    then have "?c * Suc (tokens b) \<le> ?c * tokens a" by (intro mult_le_mono2) simp
    then show ?thesis using l b unfolding app_work_tokens [of a] mult_Suc_right by linarith
  next
    assume l: "tokens b \<le> tokens a \<and> work (app_sys b) < work (app_sys a)"
    then have "?c * tokens b \<le> ?c * tokens a" by (intro mult_le_mono2) simp
    then show ?thesis using l b unfolding app_work_tokens [of a] by linarith
  qed
qed

lemma internal_loops:
  assumes "internal y" "act_enabled y s"
  shows "sum_list (map loop_work (sys_mons (act_do cd p y s))) \<le> sum_list (map loop_work (sys_mons s))"
proof -
  have upd: "sum_list (map loop_work ((sys_mons s)[j := m])) \<le> sum_list (map loop_work (sys_mons s))"
    if "j < length (sys_mons s)" "loop_work m \<le> loop_work (sys_mons s ! j)" for j m
    using sum_list_map_update [OF that(1), of loop_work m] that(2) by linarith
  have le: "loop_work (m\<lparr>mp_loop := ctx_done (mp_loop m)\<rparr>) \<le> loop_work m"
    "loop_work (m\<lparr>mp_pc := pc\<rparr>) \<le> loop_work m"
    "loop_work (m\<lparr>mp_pc := pc, mp_loop := send_err e (mp_loop m)\<rparr>) \<le> loop_work m" for m pc e
    by (auto simp: loop_work_def ctx_done_def send_err_def)
  show ?thesis
  proof (cases y)
    case (A_Mon j)
    then show ?thesis
      using assms upd le(2,3) by (auto simp: do_mon_def Let_def split: go.split)
  next
    case (A_MonCtx j)
    then show ?thesis using assms upd le(1) by (simp add: do_mon_ctx_def)
  qed (use assms in \<open>auto simp: do_simps Let_def split: go.splits\<close>)
qed

lemma set_sub_tokens:
  assumes "j < length (app_subs a)" "sub_work m < sub_work (app_subs a ! j)"
  shows "tokens (set_sub j m a) < tokens a"
  using sum_list_map_update [OF assms(1), of sub_work m] assms(2) by (simp add: tokens_def set_sub_def)

lemma sub_opened_tokens:
  assumes "j < length (app_subs a)"
  shows "tokens (sub_opened j r a) + sub_work (app_subs a ! j) = Suc (tokens a)"
  using sum_list_map_update [OF assms, of sub_work
      "(app_subs a ! j)\<lparr>sp_pc := S_Monitor r, sp_feed := F_Open (streamID (info_of r (app_broker a)))\<rparr>"]
  by (simp add: tokens_def sub_opened_def set_sub_def sub_work_def [of "_\<lparr>sp_pc := _, sp_feed := _\<rparr>"])

lemma set_stream_tokens:
  assumes "r < length (objs (app_broker a))"
  shows "tokens (set_stream r s a) + stream_work (stream_at r a) = tokens a + stream_work s"
  using sum_list_map_update [OF assms, of "stream_work \<circ> snd" "(fst (objs (app_broker a) ! r), s)"]
  by (simp add: tokens_def set_stream_def stream_at_def)

lemma sub_create_tokens:
  assumes "j < length (app_subs a)" "sp_pc (app_subs a ! j) = S_Create c spec"
  shows "tokens (sub_create j c spec a) < tokens a"
proof -
  obtain b r where b: "open_create (sp_node (app_subs a ! j)) ''onos-mho-subscription'' c spec (app_broker a) = (b, r)"
    by fastforce
  then have "tokens (a\<lparr>app_broker := b\<rparr>) = Suc (tokens a)"
    by (auto simp: tokens_def open_create_def Let_def newBufferedStream_def newBufferedWriter_def stream_work_def)
  then have "tokens (sub_opened j r (a\<lparr>app_broker := b\<rparr>)) + sub_work (app_subs a ! j) = Suc (Suc (tokens a))"
    using sub_opened_tokens [of j "a\<lparr>app_broker := b\<rparr>" r] assms(1) by simp
  moreover have "3 \<le> sub_work (app_subs a ! j)" by (simp add: sub_work_def assms(2))
  ultimately show ?thesis using b by (simp add: sub_create_def)
qed

lemma settling_works:
  assumes step: "app_exec cd p em x a = Some b" and x: "settling x" and ok: "app_ok a" "chan_ok (app_sys a)"
  shows "app_work b < app_work a"
proof -
  have live: "sys_crash (app_sys a) = None" using app_exec_ready [OF step] by simp
  have tok: "app_work b < app_work a" if "app_sys b = app_sys a" "tokens b < tokens a"
    by (rule app_work_less) (use that in simp_all)
  from step show ?thesis
  proof (cases rule: app_exec_cases)
    case (request v j)
    have "tokens b < tokens a"
      using request set_sub_tokens [OF request(2)]
      by (auto simp: sub_request_def Let_def sub_work_def split: sum.split)
    then show ?thesis using tok request by simp
  next
    case (lookup j c spec)
    have "tokens (sub_opened j r a) < tokens a" for r
      using sub_opened_tokens [OF lookup(2), of r] by (simp add: sub_work_def lookup(3))
    then have "tokens b < tokens a"
      using lookup set_sub_tokens [OF lookup(2)] by (auto simp: sub_lookup_def sub_work_def split: option.split)
    then show ?thesis using tok lookup by simp
  next
    case (create j c spec)
    then show ?thesis using tok sub_create_tokens [OF create(2,3)] by simp
  next
    case (feed_open j i)
    have "tokens b < tokens a"
      using feed_open set_sub_tokens [OF feed_open(2)]
      by (auto simp: feed_open_def sub_work_def split: sum.split)
    then show ?thesis using tok feed_open by simp
  next
    case (drain r s)
    then have "tokens b < tokens a" using set_stream_tokens [OF drain(2), of s] drain_works by fastforce
    then show ?thesis using tok drain by simp
  next
    case (recv j i r s res)
    have r: "r < length (objs (app_broker a))" using reading [OF ok(1) recv(2,3)] by blast
    have j: "j < length (sys_mons (app_sys a))" using app_okD(2) [OF ok(1)] recv(2) by (metis length_map)
    have out: "(s, res) \<in> set (stream_Recv (if sys_cancelled (app_sys a) then Some Canceled else None) (stream_at r a))"
      using recv(6) by (simp add: recv_outcomes_def)
    let ?t = "do_recv cd j res (app_sys a)"
    note w = do_recv_work [OF j recv(4,5) live refl, where cd = cd and r = res]
    have n: "length (sys_nodes ?t) = length (sys_nodes (app_sys a))" by (simp add: do_recv_def split: go.split)
    have t: "tokens b + stream_work (stream_at r a) + sum_list (map loop_work (sys_mons (app_sys a))) =
        tokens a + stream_work s + sum_list (map loop_work (sys_mons ?t))"
      using set_stream_tokens [OF r, of s] recv(7)
      by (auto simp: mon_receive_def Let_def tokens_def set_stream_def split: sum.split)
    show ?thesis
    proof (cases res)
      case (Inl e)
      then have "s = stream_at r a" using recv_works(2) out by fastforce
      then show ?thesis using w(1) w(3) [OF Inl] t n recv(7) by (intro app_work_less) (auto simp: )
    next
      case (Inr ind)
      then have "Suc (stream_work s) = stream_work (stream_at r a)" using recv_works(1) out by fastforce
      then show ?thesis using w(1,2) t n recv(7) by (intro app_work_less) auto
    qed
  next
    case (inner y t)
    then have y: "act_enabled y (app_sys a)" "t = act_do cd p y (app_sys a)"
      by (auto simp: exec_act_def split: if_splits)
    have "map np_node (sys_nodes t) = map np_node (sys_nodes (app_sys a))"
      using internal_keeps [OF inner(2) y(1), of cd p] y(2) by simp
    then have "length (sys_nodes t) = length (sys_nodes (app_sys a))" by (metis length_map)
    then show ?thesis
      using internal_works [OF inner(2) y(1) ok(2) live, of cd p] internal_loops [OF inner(2) y(1), of cd p] inner(4) y(2)
      by (intro app_work_less) (auto simp: tokens_def)
  qed (use x in auto)
qed

lemma settling_bound:
  "app_run cd p em xs a = Some b \<Longrightarrow> app_ok a \<Longrightarrow> reachable cd p (app_sys a) \<Longrightarrow> \<forall>x \<in> set xs. settling x \<Longrightarrow>
   length xs + app_work b \<le> app_work a"
proof (induction xs arbitrary: a)
  case Nil
  then show ?case by simp
next
  case (Cons x xs)
  then obtain c where c: "app_exec cd p em x a = Some c" "app_run cd p em xs c = Some b"
    by (auto split: option.splits)
  have "app_work c < app_work a"
    using settling_works [OF c(1) _ Cons.prems(2) reachable_chan_ok] Cons.prems(3,4) by simp
  moreover have "length xs + app_work b \<le> app_work c"
    using Cons.IH [OF c(2) app_exec_ok [OF c(1)] app_exec_reachable [OF c(1)]] Cons.prems(2-4) by simp
  ultimately show ?case by simp
qed

subsection \<open>Where a schedule ends\<close>

text \<open>No step of the application closes a stream, and none breaks its well-formedness.\<close>

definition streams_open :: "app \<Rightarrow> bool" where
  "streams_open a \<longleftrightarrow> (\<forall>x \<in> set (objs (app_broker a)). stream_ok (snd x) \<and> \<not> closed (snd x))"

lemma open_steps:
  "stream_Send m s = (t, r) \<Longrightarrow> closed t = closed s" "drain_step s = Some t \<Longrightarrow> closed t = closed s"
  "(t, res) \<in> set (stream_Recv ctx s) \<Longrightarrow> closed t = closed s"
  by (auto simp: stream_defs split: if_splits drain_pc.splits list.splits option.splits)

lemma ok_steps:
  "stream_ok s \<Longrightarrow> stream_Send m s = (t, r) \<Longrightarrow> stream_ok t" "stream_ok s \<Longrightarrow> drain_step s = Some t \<Longrightarrow> stream_ok t"
  "stream_ok s \<Longrightarrow> (t, res) \<in> set (stream_Recv ctx s) \<Longrightarrow> stream_ok t"
proof -
  show "stream_ok s \<Longrightarrow> stream_Send m s = (t, r) \<Longrightarrow> stream_ok t"
    using st.step_ok [OF stream_step.send] st.step_ok [OF stream_step.send_rejected] by (cases r) auto
  show "stream_ok s \<Longrightarrow> drain_step s = Some t \<Longrightarrow> stream_ok t"
    using st.step_ok [OF stream_step.drain] by blast
  show "stream_ok s \<Longrightarrow> (t, res) \<in> set (stream_Recv ctx s) \<Longrightarrow> stream_ok t"
    using st.step_ok [OF stream_step.recv] st.step_ok [OF stream_step.recv_err] by (cases res) auto
qed

lemma streams_open_set:
  assumes "streams_open a" "r < length (objs (app_broker a))"
    and "stream_ok (stream_at r a) \<Longrightarrow> stream_ok s" "closed s = closed (stream_at r a)"
  shows "streams_open (set_stream r s a)"
proof -
  have "objs (app_broker a) ! r \<in> set (objs (app_broker a))" using assms(2) by simp
  then have "stream_ok (stream_at r a)" "\<not> closed (stream_at r a)"
    using assms(1) unfolding streams_open_def stream_at_def by blast+
  then show ?thesis
    using assms set_update_subset_insert [of "objs (app_broker a)" r "(fst (objs (app_broker a) ! r), s)"]
    by (auto simp: streams_open_def set_stream_def)
qed

lemma streams_open_same: "streams_open a \<Longrightarrow> objs (app_broker b) = objs (app_broker a) \<Longrightarrow> streams_open b"
  by (simp add: streams_open_def)

lemma announces_broker: "app_broker (fold announce ns a) = app_broker a"
  by (induction ns arbitrary: a) (simp_all add: announce_def)

lemma set_sub_broker [simp]: "app_broker (set_sub j m a) = app_broker a"
  by (simp add: set_sub_def)

lemma streams_open_step:
  assumes step: "app_exec cd p em x a = Some b" and ok: "app_ok a" and opn: "streams_open a"
  shows "streams_open b"
  using step
proof (cases rule: app_exec_cases)
  case (watch v)
  then show ?thesis
    by (intro streams_open_same [OF opn]) (simp add: app_watch_def topo_end_def split: option.split)
next
  case (event v ev)
  then show ?thesis
    by (intro streams_open_same [OF opn])
      (simp add: app_event_def topo_end_def announces_broker Let_def split: go.split prod.split option.split)
next
  case (request v j)
  then show ?thesis
    by (intro streams_open_same [OF opn]) (simp add: sub_request_def Let_def split: sum.split prod.split)
next
  case (lookup j c spec)
  then show ?thesis
    by (intro streams_open_same [OF opn]) (simp add: sub_lookup_def sub_opened_def split: option.split)
next
  case (create j c spec)
  then show ?thesis
    using opn by (auto simp: streams_open_def sub_create_def sub_opened_def open_create_def Let_def
        newBufferedStream_def) (simp add: newBufferedWriter_def)
next
  case (feed_send j r m)
  have r: "r < length (objs (app_broker a))"
    using feed_reads [OF ok feed_send(2,3)] reading [OF ok feed_send(2)] by blast
  obtain s res where s: "stream_Send m (stream_at r a) = (s, res)" by fastforce
  have "streams_open (set_stream r s a)"
    by (rule streams_open_set [OF opn r]) (use ok_steps(1) [OF _ s] open_steps(1) [OF s] in blast)+
  then show ?thesis
    using feed_send(4) s by (auto simp: feed_send_def streams_open_def split: sum.split)
next
  case (drain r s)
  show ?thesis
    unfolding drain(4)
    by (rule streams_open_set [OF opn drain(2)]) (use ok_steps(2) [OF _ drain(3)] open_steps(2) [OF drain(3)] in blast)+
next
  case (recv j i r s res)
  have r: "r < length (objs (app_broker a))" using reading [OF ok recv(2,3)] by blast
  note out = recv(6) [unfolded recv_outcomes_def]
  have "streams_open (set_stream r s a)"
    by (rule streams_open_set [OF opn r]) (use ok_steps(3) [OF _ out] open_steps(3) [OF out] in blast)+
  then show ?thesis
    using recv(7) by (auto simp: mon_receive_def Let_def streams_open_def set_stream_def split: sum.split)
qed (auto intro!: streams_open_same [OF opn] simp: topo_end_def feed_open_def)

lemma streams_open_run:
  "app_run cd p em xs a = Some b \<Longrightarrow> app_ok a \<Longrightarrow> streams_open a \<Longrightarrow> streams_open b"
proof (induction xs arbitrary: a)
  case (Cons x xs)
  then obtain c where c: "app_exec cd p em x a = Some c" "app_run cd p em xs c = Some b"
    by (auto split: option.splits)
  then show ?case
    using Cons.IH [OF c(2) app_exec_ok [OF c(1)] streams_open_step [OF c(1)]] Cons.prems by blast
qed simp

lemma streams_open_init: "streams_open app_init"
  by (simp add: streams_open_def app_init_def NewBroker_def)

text \<open>At rest: nothing is under way in the running system, every subscription has its monitor or
  has failed, and a monitor that still reads has read everything.\<close>

lemma at_restD:
  assumes rest: "at_rest cd p em a" and live: "\<not> app_panic a" "sys_crash (app_sys a) = None"
    and x: "settling (x :: unit app_act)"
  shows "app_do cd p em x a = None"
  using rest x live by (auto simp: at_rest_def app_exec_def)

lemma rest_quiescent:
  assumes "at_rest cd p em a" "\<not> app_panic a" "sys_crash (app_sys a) = None" "reachable cd p (app_sys a)"
  shows "quiescent (app_sys a)"
proof -
  have "\<not> can_move (app_sys a)"
  proof
    assume "can_move (app_sys a)"
    then obtain y where "internal y" "act_enabled y (app_sys a)" by (auto simp: can_move_def)
    then show False using at_restD [OF assms(1-3), of "P_Inner y"] assms(3) by (simp add: exec_act_def)
  qed
  then show ?thesis using stuck_quiescent [OF reachable_chan_ok [OF assms(4)] assms(3)] by blast
qed

lemma quiescent_stuck:
  assumes "quiescent s"
  shows "\<not> can_move s"
proof
  assume "can_move s"
  then obtain y where y: "internal y" "act_enabled y s" by (auto simp: can_move_def)
  have nodes: "np_pc (sys_nodes s ! j) = N_End \<or> np_pc (sys_nodes s ! j) = N_Range \<and> np_chan (sys_nodes s ! j) \<notin> set (sys_closed s)"
    "sys_cancelled s \<Longrightarrow> np_reg (sys_nodes s ! j) = R_Closed" if "j < length (sys_nodes s)" for j
    using assms that by (simp_all add: quiescent_def)
  have mons: "mp_pc (sys_mons s ! j) = M_Idle" "sys_cancelled s \<Longrightarrow> returned (mp_loop (sys_mons s ! j)) \<noteq> None"
    if "j < length (sys_mons s)" for j
    using assms that by (simp_all add: quiescent_def)
  have act: "\<not> offers s i c" for i c using assms by (auto simp: quiescent_def offers_def)
  have ctrl: "sys_ctrl s = C_Range" "sends (mstore (sys_world s)) = []" using assms by (simp_all add: quiescent_def)
  from y show False
    using nodes mons act ctrl by (cases y) force+
qed

lemma at_restI:
  assumes "quiescent (app_sys a)"
    and subs: "\<And>j. j < length (app_subs a) \<Longrightarrow>
      ((\<exists>r. sp_pc (app_subs a ! j) = S_Monitor r \<and> recv_outcomes r a = []) \<or> (\<exists>e. sp_pc (app_subs a ! j) = S_Failed e)) \<and>
      (\<forall>i. sp_feed (app_subs a ! j) \<noteq> F_Open i)"
    and drains: "\<And>r. r < length (objs (app_broker a)) \<Longrightarrow> drain_step (stream_at r a) = None"
  shows "at_rest cd p em a"
  unfolding at_rest_def
proof (intro allI impI)
  fix x :: "unit app_act"
  assume x: "settling x"
  have "app_do cd p em x a = None"
  proof (cases x)
    case (P_Inner y)
    then show ?thesis using quiescent_stuck [OF assms(1)] can_moveI [of y "app_sys a"] by (auto simp: exec_act_def)
  next
    case (P_FeedOpen j)
    then show ?thesis using subs [of j] by (cases "sp_feed (app_subs a ! j)") auto
  qed (use x subs drains in \<open>fastforce split: sub_pc.splits\<close>)+
  then show "app_exec cd p em x a = None" by (simp add: app_exec_def)
qed

lemma rest_subscribed:
  assumes rest: "at_rest cd p em a" "\<not> app_panic a" "sys_crash (app_sys a) = None" and j: "j < length (app_subs a)"
  shows "(\<exists>r. sp_pc (app_subs a ! j) = S_Monitor r) \<or> (\<exists>e. sp_pc (app_subs a ! j) = S_Failed e)"
    "sp_feed (app_subs a ! j) \<noteq> F_Open i"
proof -
  note no = at_restD [OF rest]
  show "(\<exists>r. sp_pc (app_subs a ! j) = S_Monitor r) \<or> (\<exists>e. sp_pc (app_subs a ! j) = S_Failed e)"
    using no [of "P_Request v j" for v] no [of "P_Lookup j"] no [of "P_Create j"] j
    by (cases "sp_pc (app_subs a ! j)") auto
  show "sp_feed (app_subs a ! j) \<noteq> F_Open i"
    using no [of "P_FeedOpen j"] j by (cases "sp_feed (app_subs a ! j)") auto
qed

lemma rest_received:
  assumes rest: "at_rest cd p em a" "\<not> app_panic a" "sys_crash (app_sys a) = None"
    and ok: "app_ok a" "reachable cd p (app_sys a)" "streams_open a"
    and j: "j < length (app_subs a)" "sp_pc (app_subs a ! j) = S_Monitor r" "\<not> blocked (mp_loop (sys_mons (app_sys a) ! j))"
  shows "log_for r (app_got a) = log_for r (app_fed a)"
proof -
  note no = at_restD [OF rest]
  have r: "r < length (objs (app_broker a))" by (rule reading(1) [OF ok(1) j(1,2)])
  then have "objs (app_broker a) ! r \<in> set (objs (app_broker a))" by simp
  then have s: "stream_ok (stream_at r a)" "\<not> closed (stream_at r a)"
    using ok(3) unfolding streams_open_def stream_at_def by blast+
  have jm: "j < length (sys_mons (app_sys a))" using app_okD(2) [OF ok(1)] j(1) by (metis length_map)
  have idle: "mp_pc (sys_mons (app_sys a) ! j) = M_Idle"
    using rest_quiescent [OF rest ok(2)] jm by (simp add: quiescent_def)
  have "recv_outcomes r a = []" using no [of "P_Recv j 0"] j idle by (simp split: if_splits)
  moreover have "drain_step (stream_at r a) = None"
    using no [of "P_Drain r"] r by (simp split: option.splits)
  ultimately have "drain (stream_at r a) = D_Waiting"
    by (cases "drain (stream_at r a)") (auto simp: recv_outcomes_def stream_Recv_def chan_recv_def drain_step_def)
  then have "pending (stream_at r a) = []" using s(1) by (simp add: stream_ok_def pending_def inflight_def)
  then show ?thesis using app_okD(7) [OF ok(1) r] by simp
qed

text \<open>Every schedule can be run to its end.\<close>

lemma rests:
  "app_ok a \<Longrightarrow> reachable cd p (app_sys a) \<Longrightarrow>
   \<exists>zs :: unit app_act list. \<exists>b. app_run cd p em zs a = Some b \<and> (\<forall>z \<in> set zs. settling z) \<and> at_rest cd p em b"
proof (induction "app_work a" arbitrary: a rule: less_induct)
  case less
  show ?case
  proof (cases "at_rest cd p em a")
    case True
    then show ?thesis by (intro exI [of _ "[]"] exI [of _ a]) simp
  next
    case False
    then obtain x :: "unit app_act" and c where x: "settling x" "app_exec cd p em x a = Some c"
      by (auto simp: at_rest_def)
    have "app_work c < app_work a"
      using settling_works [OF x(2,1) less.prems(1) reachable_chan_ok [OF less.prems(2)]] .
    from less.hyps [OF this app_exec_ok [OF x(2) less.prems(1)] app_exec_reachable [OF x(2) less.prems]]
    obtain zs :: "unit app_act list" and b where zs: "app_run cd p em zs c = Some b" "\<forall>z \<in> set zs. settling z"
      "at_rest cd p em b" by blast
    then show ?thesis using x by (intro exI [of _ "x # zs"] exI [of _ b]) simp
  qed
qed

subsection \<open>Properties\<close>

text \<open>
  C6. The application settles. After any run, once the topology service announces nothing more
  and the E2 SDK delivers nothing more, every schedule of the application's own goroutines is
  bounded, and some schedule reaches rest. At rest without a crash nothing is under way in the
  system; every subscription has failed or has its monitor; and a monitor whose loop is not
  blocked by two errors has received every indication that went into its stream.
\<close>

theorem app_settles:
  assumes "app_run cd p em xs app_init = Some a" "app_run cd p em zs a = Some b" "\<forall>z \<in> set zs. settling z"
  shows "length zs \<le> app_work a \<and>
    (\<exists>ys :: unit app_act list. \<exists>c. app_run cd p em ys b = Some c \<and> (\<forall>y \<in> set ys. settling y) \<and> at_rest cd p em c) \<and>
    (at_rest cd p em b \<longrightarrow> \<not> app_panic b \<longrightarrow> sys_crash (app_sys b) = None \<longrightarrow>
       quiescent (app_sys b) \<and>
       (\<forall>j < length (app_subs b). (\<exists>e. sp_pc (app_subs b ! j) = S_Failed e) \<or>
          (\<exists>r. sp_pc (app_subs b ! j) = S_Monitor r \<and>
             (blocked (mp_loop (sys_mons (app_sys b) ! j)) \<or> log_for r (app_got b) = log_for r (app_fed b)))))"
proof -
  note a = app_runs_init [OF assms(1)]
  have b: "app_ok b" "reachable cd p (app_sys b)" using app_runs [OF assms(2) a(1,2)] by simp_all
  have opn: "streams_open b"
    using streams_open_run [OF assms(2) a(1)] streams_open_run [OF assms(1) app_ok_init streams_open_init] by blast
  have "length zs \<le> app_work a" using settling_bound [OF assms(2) a(1,2) assms(3)] by simp
  then show ?thesis
    using rests [OF b] rest_quiescent [OF _ _ _ b(2)] rest_subscribed(1) rest_received [OF _ _ _ b opn] by blast
qed

definition app_up :: "unit app_act list" where
  "app_up = [P_Watch sample_env, P_Event sample_env (relation_event T_ADDED ''n1''),
     P_Inner (A_CtrlWatch 0 []), P_Inner (A_NodeWatch 0 1 []),
     P_Request sample_env 0, P_Lookup 0, P_Create 0, P_FeedOpen 0]"

definition app_feed :: "unit app_act list" where
  "app_feed = [P_FeedSend 0 (sample_ind 1)]"

text \<open>The indication is handed over, the remaining events go by, and the stream goes to sleep.\<close>

definition app_deliver :: "unit app_act list" where
  "app_deliver = [P_Drain 0, P_Recv 0 0] @ app_handover @
     map P_Inner [A_Node 0, A_Node 0, A_Start 0 [0, 1], A_ToCtrl 1, A_Ctrl, A_Ctrl,
       A_ToCtrl 2, A_Ctrl, A_Ctrl, A_ToNode 2 0, A_Node 0, A_Node 0] @ [P_Drain 0]"

lemma app_up_eval:
  "\<exists>a b c. app_run sample_codec sample_pdu sample_manager app_up app_init = Some a \<and>
    app_run sample_codec sample_pdu sample_manager app_feed a = Some b \<and>
    app_run sample_codec sample_pdu sample_manager app_deliver b = Some c \<and>
    sys_ctrl (app_sys a) \<noteq> C_Init \<and> 0 < length (sys_nodes (app_sys a)) \<and>
    np_pc (sys_nodes (app_sys a) ! 0) \<noteq> N_Init \<and> key_inds sample_key (sys_inds (app_sys a)) = [] \<and>
    \<not> app_panic c \<and> sys_crash (app_sys c) = None \<and>
    undisturbed sample_pdu sample_key ''n1'' 0 sample_rq1 (app_sys c) \<and>
    (0, 0, sample_ind 1) \<in> set (app_fed c) \<and> \<not> blocked (mp_loop (sys_mons (app_sys c) ! 0)) \<and>
    records (mstore (sys_world (app_sys c))) = [sample_key \<mapsto> \<lparr>Key = sample_key, Value = 0\<rparr>] \<and>
    heap (sys_world (app_sys c)) = [(new_value sample_rq1 ''n1'')\<lparr>State := Done\<rparr>] \<and>
    quiescent (app_sys c) \<and> length (app_subs c) = 1 \<and> sp_pc (app_subs c ! 0) = S_Monitor 0 \<and>
    sp_feed (app_subs c ! 0) = F_Range 0 \<and> recv_outcomes 0 c = [] \<and>
    length (objs (app_broker c)) = 1 \<and> drain_step (stream_at 0 c) = None"
  by (simp add: app_up_def app_feed_def app_deliver_def app_handover_def app_run_simps run_simps sample_watch sample_turn
      sample_request key_inds_def undisturbed_def quiescent_def)

lemma app_up_run:
  "\<exists>a b c. app_run sample_codec sample_pdu sample_manager app_up app_init = Some a \<and>
    app_run sample_codec sample_pdu sample_manager app_feed a = Some b \<and>
    app_run sample_codec sample_pdu sample_manager app_deliver b = Some c \<and>
    sys_ctrl (app_sys a) \<noteq> C_Init \<and> 0 < length (sys_nodes (app_sys a)) \<and>
    np_pc (sys_nodes (app_sys a) ! 0) \<noteq> N_Init \<and> key_inds sample_key (sys_inds (app_sys a)) = [] \<and>
    \<not> app_panic c \<and> sys_crash (app_sys c) = None \<and>
    undisturbed sample_pdu sample_key ''n1'' 0 sample_rq1 (app_sys c) \<and>
    (0, 0, sample_ind 1) \<in> set (app_fed c) \<and> \<not> blocked (mp_loop (sys_mons (app_sys c) ! 0)) \<and>
    records (mstore (sys_world (app_sys c))) = [sample_key \<mapsto> \<lparr>Key = sample_key, Value = 0\<rparr>] \<and>
    heap (sys_world (app_sys c)) = [(new_value sample_rq1 ''n1'')\<lparr>State := Done\<rparr>] \<and>
    at_rest sample_codec sample_pdu sample_manager c"
proof -
  have "at_rest sample_codec sample_pdu sample_manager c"
    if "quiescent (app_sys c) \<and> length (app_subs c) = 1 \<and> sp_pc (app_subs c ! 0) = S_Monitor 0 \<and>
      sp_feed (app_subs c ! 0) = F_Range 0 \<and> recv_outcomes 0 c = [] \<and>
      length (objs (app_broker c)) = 1 \<and> drain_step (stream_at 0 c) = None" for c
    using that by (intro at_restI) simp_all
  then show ?thesis using app_up_eval by meson
qed

lemma deliver_settles: "\<forall>z \<in> set app_deliver. settling z"
  by (simp add: app_deliver_def app_handover_def)

theorem app_settles_witness:
  "\<exists>a b. app_run sample_codec sample_pdu sample_manager (app_up @ app_feed) app_init = Some a \<and>
     app_run sample_codec sample_pdu sample_manager app_deliver a = Some b \<and> 28 \<le> app_work a \<and>
     at_rest sample_codec sample_pdu sample_manager b \<and> quiescent (app_sys b)"
proof -
  obtain a b c where run: "app_run sample_codec sample_pdu sample_manager app_up app_init = Some a"
    "app_run sample_codec sample_pdu sample_manager app_feed a = Some b"
    "app_run sample_codec sample_pdu sample_manager app_deliver b = Some c"
    and c: "\<not> app_panic c" "sys_crash (app_sys c) = None" "at_rest sample_codec sample_pdu sample_manager c"
    using app_up_run by blast
  have "length app_deliver = 28" by (simp add: app_deliver_def app_handover_def)
  then show ?thesis
    using app_settles [OF app_run_append [OF run(1,2)] run(3) deliver_settles] app_run_append [OF run(1,2)] run(3) c
    by auto
qed

text \<open>At rest, with the indication in the stream of a monitor that still reads.\<close>

lemma handed_over_at_rest:
  fixes ys :: "'f app_act list"
  assumes up: "app_ok a0" "reachable cd p (app_sys a0)" "sys_ctrl (app_sys a0) \<noteq> C_Init" "j < length (sys_nodes (app_sys a0))"
      "np_pc (sys_nodes (app_sys a0) ! j) \<noteq> N_Init" "key_inds k (sys_inds (app_sys a0)) = []"
    and run: "app_run cd p em ys a0 = Some b"
    and b: "app_ok b" "reachable cd p (app_sys b)" "inds_ok cd b" "streams_open b"
    and live: "\<not> app_panic b" "sys_crash (app_sys b) = None" "undisturbed p k n j rq (app_sys b)"
    and ind: "(r, i, ind) \<in> set (app_fed b)" "parse_indication cd ind = Ret rq'" "rq_key rq' = k"
      "\<not> blocked (mp_loop (sys_mons (app_sys b) ! i))"
    and rest: "at_rest cd p em b"
  shows "ue_table (sys_world (app_sys b)) k = Some (rq_tgt rq', Done) \<and>
    sent_to (control_for p n (new_value rq n)) (app_sys b) = [control_for p n (new_value rq n)]"
proof -
  have i: "i < length (app_subs b)" "sp_pc (app_subs b ! i) = S_Monitor r"
    using app_okD(5) [OF b(1)] ind(1) by (auto simp: log_ok_def)
  have "ind \<in> set (log_for r (app_fed b))" using ind(1) by (force simp: log_for_def)
  then have "ind \<in> set (log_for r (app_got b))"
    using rest_received [OF rest live(1,2) b(1,2,4) i ind(4)] by simp
  then obtain l where "(r, l, ind) \<in> set (app_got b)" by (auto simp: log_for_def)
  then have "(name_of b l, rq') \<in> set (sys_inds (app_sys b))"
    using b(3) ind(2) by (force simp: inds_ok_def accepted_def map_filter_def)
  then have mem: "(name_of b l, rq') \<in> set (key_inds k (sys_inds (app_sys b)))"
    using ind(3) by (simp add: key_inds_def)
  then have ne: "key_inds k (sys_inds (app_sys b)) \<noteq> []" by auto
  have "rq_tgt rq' = rq_tgt rq" using live(3) mem by (auto simp: undisturbed_def)
  moreover obtain as where "exec_acts cd p as (app_sys a0) = Some (app_sys b)"
    using path_acts [OF app_run_path [OF run up(1)]] by blast
  ultimately show ?thesis
    using steady_rests [OF up(2-6) _ live(3) ne rest_quiescent [OF rest live(1,2) b(2)]] by simp
qed

text \<open>
  C2. From the E2 SDK to the control message. Let the controller and the watcher of a node be
  registered before an indication of a UE key is accepted, and let the key be undisturbed: asked
  for by that node only, to one target, with no cancellation and no second connection. If an
  indication of the key went into the node's stream and the monitor of that subscription is not
  blocked, then every schedule of the application's goroutines is bounded, and where it ends
  the row of the UE has the target of the indication and is Done, and the node has been sent
  exactly one control message for the UE.
\<close>

theorem indication_handed_over:
  fixes ys zs :: "'f app_act list"
  assumes up: "app_run cd p em xs app_init = Some a0" "sys_ctrl (app_sys a0) \<noteq> C_Init"
      "j < length (sys_nodes (app_sys a0))" "np_pc (sys_nodes (app_sys a0) ! j) \<noteq> N_Init"
      "key_inds k (sys_inds (app_sys a0)) = []"
    and run: "app_run cd p em ys a0 = Some a"
    and settle: "app_run cd p em zs a = Some b" "\<forall>z \<in> set zs. settling z"
    and live: "\<not> app_panic b" "sys_crash (app_sys b) = None" "undisturbed p k n j rq (app_sys b)"
    and ind: "(r, i, ind) \<in> set (app_fed b)" "parse_indication cd ind = Ret rq'" "rq_key rq' = k"
      "\<not> blocked (mp_loop (sys_mons (app_sys b) ! i))" and cd: "empty_decodes cd"
  shows "length zs \<le> app_work a \<and>
    (ue_table (sys_world (app_sys b)) k = Some (rq_tgt rq', Done) \<and>
       filter (\<lambda>c. cm_node c = n \<and> cm_header c = bytes_or_nil (CreateRcControlHeader p (rq_ue rq)))
         (sys_controls (app_sys b)) = [control_for p n (new_value rq n)] \<or>
     \<not> at_rest cd p em b)"
proof -
  note a0 = app_runs_init [OF up(1)]
  have a: "app_ok a" "reachable cd p (app_sys a)" using app_runs [OF run a0(1,2)] by simp_all
  have b: "app_ok b" "reachable cd p (app_sys b)" "inds_ok cd b"
    using app_runs [OF settle(1) a] app_runs [OF run a0(1,2)] a0(3) cd by simp_all
  note whole = app_run_append [OF run settle(1)]
  have opn: "streams_open b"
    using streams_open_run [OF whole a0(1)] streams_open_run [OF up(1) app_ok_init streams_open_init] by blast
  show ?thesis
    using settling_bound [OF settle(1) a settle(2)] handed_over_at_rest [OF a0(1,2) up(2-5) whole b opn live ind]
    by (auto simp: sent_to_def control_for_def)
qed

theorem indication_handed_over_witness:
  "\<exists>b c. app_run sample_codec sample_pdu sample_manager app_deliver b = Some c \<and> 28 \<le> app_work b \<and>
    ue_table (sys_world (app_sys c)) sample_key = Some (''c1'', Done) \<and>
    filter (\<lambda>m. cm_node m = ''n1'' \<and> cm_header m = bytes_or_nil (CreateRcControlHeader sample_pdu sample_ue))
      (sys_controls (app_sys c)) = [control_for sample_pdu ''n1'' (new_value sample_rq1 ''n1'')]"
proof -
  obtain a b c where run: "app_run sample_codec sample_pdu sample_manager app_up app_init = Some a"
    "app_run sample_codec sample_pdu sample_manager app_feed a = Some b"
    "app_run sample_codec sample_pdu sample_manager app_deliver b = Some c"
    and up: "sys_ctrl (app_sys a) \<noteq> C_Init" "0 < length (sys_nodes (app_sys a))"
      "np_pc (sys_nodes (app_sys a) ! 0) \<noteq> N_Init" "key_inds sample_key (sys_inds (app_sys a)) = []"
    and c: "\<not> app_panic c" "sys_crash (app_sys c) = None"
      "undisturbed sample_pdu sample_key ''n1'' 0 sample_rq1 (app_sys c)"
      "(0, 0, sample_ind 1) \<in> set (app_fed c)" "\<not> blocked (mp_loop (sys_mons (app_sys c) ! 0))"
      "at_rest sample_codec sample_pdu sample_manager c"
    using app_up_run by blast
  have "length app_deliver = 28" "rq_ue sample_rq1 = sample_ue"
    by (simp_all add: app_deliver_def app_handover_def sample_rq1_def)
  then show ?thesis
    using indication_handed_over [OF run(1) up run(2,3) deliver_settles c(1-4) sample_parse(1) _ c(5) sample_empty] run(3) c(6)
    by auto
qed

end
