(* ===== verification/Mho_Dynamic.thy ===== *)
theory Mho_Dynamic
  imports Mho_Invariants Mho_Northbound
begin

text \<open>
  The \<open>interface\{\}\<close> values of \<open>pkg/store\<close> and the type assertions of its clients.

  \<open>Entry.Value\<close> and all four fields of \<open>Event\<close> have no static type in the source; the
  controller, the southbound, the monitor and the northbound recover one by \<open>x.(T)\<close>, which
  panics when the value has another type. The other theories give those fields the type that
  is asserted. Here they keep the type the source gives them: a value of \<open>dyn\<close> carries its
  type, an assertion inspects it, and every access to the store is written again over such
  values. \<open>typed_model_exact\<close> shows that the typed definitions compute the same; a typing
  judgement with progress and preservation shows that no assertion ever fails.
\<close>

subsection \<open>Values of interface type\<close>

datatype dyn =
    D_Nil
  | D_String string
  | D_Type event_type
  | D_State mho_state
  | D_Value addr
  | D_Entry string dyn

text \<open>\<open>x.(string)\<close>, \<open>x.(store.MHOState)\<close>, \<open>x.(*store.MetricValue)\<close>.\<close>

fun as_string :: "dyn \<Rightarrow> string go" where
  "as_string (D_String k) = Ret k"
| "as_string d = Panic"

fun as_state :: "dyn \<Rightarrow> mho_state go" where
  "as_state (D_State st) = Ret st"
| "as_state d = Panic"

fun as_value :: "dyn \<Rightarrow> addr go" where
  "as_value (D_Value a) = Ret a"
| "as_value d = Panic"

record d_entry =
  de_Key :: string
  de_Value :: dyn

record d_event =
  dv_Key :: dyn
  dv_Value :: dyn
  dv_Type :: dyn
  dv_State :: dyn

subsection \<open>The store and the heap of metric values\<close>

record d_world =
  d_heap :: "metric_value list"
  d_records :: "string \<rightharpoonup> d_entry"
  d_sends :: "d_event list"

definition d_new :: d_world where
  "d_new = \<lparr>d_heap = [], d_records = Map.empty, d_sends = []\<rparr>"

definition d_Put :: "string \<Rightarrow> dyn \<Rightarrow> mho_state \<Rightarrow> d_world \<Rightarrow> d_world" where
  "d_Put key value st w =
     (if d_records w key = None then
        w\<lparr>d_records := (d_records w)(key \<mapsto> \<lparr>de_Key = key, de_Value = value\<rparr>),
          d_sends := d_sends w @ [\<lparr>dv_Key = D_String key, dv_Value = D_Entry key value,
                                   dv_Type = D_Type Created, dv_State = D_State st\<rparr>]\<rparr>
      else
        w\<lparr>d_records := (d_records w)(key \<mapsto> \<lparr>de_Key = key, de_Value = value\<rparr>),
          d_sends := d_sends w @ [\<lparr>dv_Key = D_String key, dv_Value = D_Entry key value,
                                   dv_Type = D_Type Updated, dv_State = D_State st\<rparr>]\<rparr>)"

definition d_Get :: "string \<Rightarrow> d_world \<Rightarrow> d_entry go" where
  "d_Get key w = (case d_records w key of Some v \<Rightarrow> Ret v | None \<Rightarrow> Fail NotFound)"

definition d_HasEntry :: "string \<Rightarrow> d_world \<Rightarrow> bool" where
  "d_HasEntry key w \<longleftrightarrow> d_records w key \<noteq> None"

definition d_Entries :: "string list \<Rightarrow> d_world \<Rightarrow> d_entry list" where
  "d_Entries order w = ranged (d_records w) order"

definition d_load :: "addr \<Rightarrow> d_world \<Rightarrow> metric_value go" where
  "d_load a w = (if a < length (d_heap w) then Ret (d_heap w ! a) else Panic)"

definition d_set_state :: "addr \<Rightarrow> mho_state \<Rightarrow> d_world \<Rightarrow> d_world" where
  "d_set_state a st w = w\<lparr>d_heap := (d_heap w)[a := (d_heap w ! a)\<lparr>State := st\<rparr>]\<rparr>"

definition d_alloc :: "metric_value \<Rightarrow> d_world \<Rightarrow> d_world" where
  "d_alloc v w = w\<lparr>d_heap := d_heap w @ [v]\<rparr>"

subsection \<open>The handlers\<close>

definition d_put_new :: "ind_request \<Rightarrow> node_id \<Rightarrow> d_world \<Rightarrow> d_world" where
  "d_put_new rq nodeID w =
     d_Put (rq_key rq) (D_Value (length (d_heap w))) StateCreated (d_alloc (new_value rq nodeID) w)"

text \<open>Once asserted, a value has a static type in the source, so the program points of the
  monitor are those of \<open>monitor_step\<close>; the controller and the southbound carry the event as
  they received it, and the key once they have asserted it.\<close>

fun d_monitor_step :: "node_id \<Rightarrow> monitor_pc \<Rightarrow> d_world \<Rightarrow> (d_world \<times> monitor_pc) go" where
  "d_monitor_step n M_Idle w = Ret (w, M_Idle)"
| "d_monitor_step n (M_Has rq) w =
     Ret (w, if d_HasEntry (rq_key rq) w then M_Get rq else M_New rq)"
| "d_monitor_step n (M_Get rq) w =
     go_bind (d_Get (rq_key rq) w) (\<lambda>v.
     go_bind (as_value (de_Value v)) (\<lambda>a. Ret (w, M_Got rq a)))"
| "d_monitor_step n (M_Got rq a) w =
     go_bind (d_load a w) (\<lambda>nv.
       Ret (w, if TgtCellID nv \<noteq> rq_tgt rq then M_New rq
               else if State nv = Denied then M_Same rq a
               else M_Idle))"
| "d_monitor_step n (M_New rq) w = Ret (d_put_new rq n w, M_Idle)"
| "d_monitor_step n (M_Same rq a) w = Ret (d_Put (rq_key rq) (D_Value a) Denied w, M_Idle)"

datatype d_ctrl_pc =
  DC_Init | DC_Range | DC_Event d_event | DC_Got string d_event addr | DC_Put string d_event addr

text \<open>Comparing an interface value with a constant is false when the types differ; the
  second assertion of the state runs only when the first comparison is false.\<close>

fun d_ctrl_step :: "d_ctrl_pc \<Rightarrow> d_world \<Rightarrow> (d_world \<times> d_ctrl_pc) go" where
  "d_ctrl_step DC_Init w = Ret (w, DC_Init)"
| "d_ctrl_step DC_Range w = Ret (w, DC_Range)"
| "d_ctrl_step (DC_Event e) w =
     (if dv_Type e = D_Type Created \<or> dv_Type e = D_Type Updated then
        go_bind (as_string (dv_Key e)) (\<lambda>key.
        case d_Get key w of
          Ret v \<Rightarrow> go_bind (as_value (de_Value v)) (\<lambda>a. Ret (w, DC_Got key e a))
        | _ \<Rightarrow> Panic)
      else Ret (w, DC_Range))"
| "d_ctrl_step (DC_Got key e a) w =
     go_bind (d_load a w) (\<lambda>nv.
     go_bind (as_state (dv_State e)) (\<lambda>st.
     if st = StateCreated then Ret (d_set_state a Approved w, DC_Put key e a)
     else go_bind (as_state (dv_State e)) (\<lambda>st.
       if st = Denied then Ret (d_set_state a Approved w, DC_Put key e a)
       else Ret (w, DC_Range))))"
| "d_ctrl_step (DC_Put key e a) w = Ret (d_Put key (D_Value a) Approved w, DC_Range)"

datatype d_node_pc =
    DN_Init
  | DN_Range
  | DN_Event d_event
  | DN_Got string d_event addr
  | DN_Sent string d_event addr
  | DN_Put string d_event addr
  | DN_End

fun d_node_step ::
  "pdubuilder \<Rightarrow> node_id \<Rightarrow> d_node_pc \<Rightarrow> d_world \<Rightarrow> (d_world \<times> d_node_pc \<times> control_msg list) go" where
  "d_node_step p n DN_Init w = Ret (w, DN_Init, [])"
| "d_node_step p n DN_Range w = Ret (w, DN_Range, [])"
| "d_node_step p n DN_End w = Ret (w, DN_End, [])"
| "d_node_step p n (DN_Event e) w =
     (if dv_Type e = D_Type Updated then
        go_bind (as_string (dv_Key e)) (\<lambda>key.
        case d_Get key w of
          Ret v \<Rightarrow> go_bind (as_value (de_Value v)) (\<lambda>a. Ret (w, DN_Got key e a, []))
        | _ \<Rightarrow> Panic)
      else Ret (w, DN_Range, []))"
| "d_node_step p n (DN_Got key e a) w =
     go_bind (d_load a w) (\<lambda>nv.
     go_bind (as_state (dv_State e)) (\<lambda>st.
     if st = Approved \<and> E2NodeID nv = n then Ret (w, DN_Sent key e a, [control_for p n nv])
     else Ret (w, DN_Range, [])))"
| "d_node_step p n (DN_Sent key e a) w = Ret (d_set_state a Done w, DN_Put key e a, [])"
| "d_node_step p n (DN_Put key e a) w = Ret (d_Put key (D_Value a) Done w, DN_Range, [])"

primrec d_ues_loop :: "d_world \<Rightarrow> d_entry list \<Rightarrow> ue_info list \<Rightarrow> ue_info list go" where
  "d_ues_loop w [] ues = Ret ues"
| "d_ues_loop w (e # es) ues =
     go_bind (as_value (de_Value e)) (\<lambda>a.
     go_bind (d_load a w) (\<lambda>v.
     case GetGNbUeid (RawUEID v) of
       None \<Rightarrow> d_ues_loop w es ues
     | Some g \<Rightarrow> d_ues_loop w es (ues @ [ue_row v g])))"

definition d_GetUes :: "string list \<Rightarrow> d_world \<Rightarrow> ue_info list go" where
  "d_GetUes order w = d_ues_loop w (d_Entries order w) []"

primrec d_count_loop :: "d_world \<Rightarrow> d_entry list \<Rightarrow> (string \<rightharpoonup> int) \<Rightarrow> (string \<rightharpoonup> int) go" where
  "d_count_loop w [] result = Ret result"
| "d_count_loop w (e # es) result =
     go_bind (as_value (de_Value e)) (\<lambda>a.
     go_bind (d_load a w) (\<lambda>v.
     case GetGNbUeid (RawUEID v) of
       None \<Rightarrow> d_count_loop w es result
     | Some g \<Rightarrow> d_count_loop w es (incr (TgtCellID v) result)))"

definition d_GetCells :: "string list \<Rightarrow> string list \<Rightarrow> d_world \<Rightarrow> cell_info list go" where
  "d_GetCells order corder w =
     go_bind (d_count_loop w (d_Entries order w) Map.empty) (\<lambda>result. Ret (cells_of corder result))"

subsection \<open>The typed definitions as erasures\<close>

definition emb_entry :: "entry \<Rightarrow> d_entry" where
  "emb_entry e = \<lparr>de_Key = Key e, de_Value = D_Value (Value e)\<rparr>"

definition emb_event :: "event \<Rightarrow> d_event" where
  "emb_event e = \<lparr>dv_Key = D_String (EvKey e),
     dv_Value = D_Entry (Key (EvValue e)) (D_Value (Value (EvValue e))),
     dv_Type = D_Type (EvType e), dv_State = D_State (EventMHOState e)\<rparr>"

definition emb :: "world \<Rightarrow> d_world" where
  "emb w = \<lparr>d_heap = heap w, d_records = (\<lambda>k. map_option emb_entry (records (mstore w) k)),
            d_sends = map emb_event (sends (mstore w))\<rparr>"

fun emb_ctrl :: "ctrl_pc \<Rightarrow> d_ctrl_pc" where
  "emb_ctrl C_Init = DC_Init"
| "emb_ctrl C_Range = DC_Range"
| "emb_ctrl (C_Event e) = DC_Event (emb_event e)"
| "emb_ctrl (C_Got e a) = DC_Got (EvKey e) (emb_event e) a"
| "emb_ctrl (C_Put e a) = DC_Put (EvKey e) (emb_event e) a"

fun emb_node :: "node_pc \<Rightarrow> d_node_pc" where
  "emb_node N_Init = DN_Init"
| "emb_node N_Range = DN_Range"
| "emb_node N_End = DN_End"
| "emb_node (N_Event e) = DN_Event (emb_event e)"
| "emb_node (N_Got e a) = DN_Got (EvKey e) (emb_event e) a"
| "emb_node (N_Sent e a) = DN_Sent (EvKey e) (emb_event e) a"
| "emb_node (N_Put e a) = DN_Put (EvKey e) (emb_event e) a"

primrec go_map :: "('a \<Rightarrow> 'b) \<Rightarrow> 'a go \<Rightarrow> 'b go" where
  "go_map f (Ret x) = Ret (f x)"
| "go_map f (Fail e) = Fail e"
| "go_map f Panic = Panic"

named_theorems emb_simps \<open>the embedding of the typed world commutes with its operations\<close>

lemma emb_event_sel [emb_simps]:
  "dv_Key (emb_event e) = D_String (EvKey e)"
  "dv_Type (emb_event e) = D_Type (EvType e)"
  "dv_State (emb_event e) = D_State (EventMHOState e)"
  "de_Value (emb_entry x) = D_Value (Value x)"
  by (simp_all add: emb_event_def emb_entry_def)

lemma emb_load [emb_simps]: "d_load a (emb w) = load a w"
  by (simp add: d_load_def load_def emb_def)

lemma emb_Get [emb_simps]: "d_Get k (emb w) = go_map emb_entry (Get k (mstore w))"
  by (simp add: d_Get_def Get_def emb_def split: option.split)

lemma emb_HasEntry [emb_simps]: "d_HasEntry k (emb w) \<longleftrightarrow> HasEntry k (mstore w)"
  by (simp add: d_HasEntry_def HasEntry_def emb_def)

lemma emb_set_state [emb_simps]: "d_set_state a st (emb w) = emb (set_state a st w)"
  by (simp add: d_set_state_def set_state_def emb_def)

lemma emb_Put [emb_simps]: "d_Put k (D_Value a) st (emb w) = emb (put_value k a st w)"
  by (simp add: d_Put_def put_value_def Put_def Send_def emb_def emb_event_def
      emb_entry_def Let_def fun_eq_iff)

lemma emb_put_new [emb_simps]: "d_put_new rq n (emb w) = emb (put_new rq n w)"
proof -
  have "d_alloc v (emb w) = emb (fst (alloc v w))" for v
    by (simp add: d_alloc_def alloc_def emb_def)
  then show ?thesis
    by (simp add: d_put_new_def put_new_def emb_Put alloc_def emb_def [of w] Let_def)
qed

lemma emb_Entries [emb_simps]: "d_Entries order (emb w) = map emb_entry (Entries order (mstore w))"
proof -
  have "ranged (\<lambda>k. map_option f (m k)) ks = map f (ranged m ks)"
    for m :: "string \<rightharpoonup> entry" and f :: "entry \<Rightarrow> d_entry" and ks
    by (induction ks) (auto split: option.split)
  then show ?thesis by (simp add: d_Entries_def Entries_def emb_def)
qed

lemma emb_monitor_step:
  "d_monitor_step n pc (emb w) = go_map (\<lambda>(w', pc'). (emb w', pc')) (monitor_step n pc w)"
  by (cases "(n, pc, w)" rule: monitor_step.cases)
    (auto simp: emb_simps Get_def load_def split: option.splits)

lemma emb_ctrl_step:
  "d_ctrl_step (emb_ctrl pc) (emb w) = go_map (\<lambda>(w', pc'). (emb w', emb_ctrl pc')) (ctrl_step pc w)"
  by (cases "(pc, w)" rule: ctrl_step.cases)
    (auto simp: emb_simps Get_def load_def split: option.splits)

lemma emb_node_step:
  "d_node_step p n (emb_node pc) (emb w) =
     go_map (\<lambda>(w', pc', out). (emb w', emb_node pc', out)) (node_step p n pc w)"
  by (cases "(p, n, pc, w)" rule: node_step.cases)
    (auto simp: emb_simps Get_def load_def split: option.splits)

lemma emb_ues_loop: "d_ues_loop (emb w) (map emb_entry es) ues = ues_loop w es ues"
  by (induction es arbitrary: ues) (auto simp: emb_simps load_def split: option.split)

lemma emb_count_loop: "d_count_loop (emb w) (map emb_entry es) m = count_loop w es m"
  by (induction es arbitrary: m) (auto simp: emb_simps load_def split: option.split)

text \<open>
  The typed model is exact: on a store whose entries and events carry the values that
  \<open>Put\<close> boxes, every step of the monitor, the controller and a node watcher, and both
  northbound handlers, with the type assertions and interface comparisons of the source
  executed on tagged values, do what the definitions do that give the interface fields their
  asserted type: the same result, the same failure, the same messages and program points.
\<close>

lemma typed_model_exact:
  "d_monitor_step n mpc (emb w) = go_map (\<lambda>(w', pc'). (emb w', pc')) (monitor_step n mpc w) \<and>
   d_ctrl_step (emb_ctrl cpc) (emb w) =
     go_map (\<lambda>(w', pc'). (emb w', emb_ctrl pc')) (ctrl_step cpc w) \<and>
   d_node_step p n (emb_node npc) (emb w) =
     go_map (\<lambda>(w', pc', out). (emb w', emb_node pc', out)) (node_step p n npc w) \<and>
   d_GetUes order (emb w) = GetUes order w \<and>
   d_GetCells order corder (emb w) = GetCells order corder w"
  by (simp add: emb_monitor_step emb_ctrl_step emb_node_step emb_Entries emb_ues_loop emb_count_loop
      d_GetUes_def GetUes_def d_GetCells_def GetCells_def cell_counts_def)

subsection \<open>Types\<close>

datatype ty = TString | TEventType | TState | TMetricValue | TEntry

text \<open>A pointer has its type only while it is inside the heap: a failed assertion and a
  dangling pointer are both untyped.\<close>

inductive has_type :: "d_world \<Rightarrow> dyn \<Rightarrow> ty \<Rightarrow> bool" where
  T_String: "has_type w (D_String k) TString"
| T_Event_Type: "has_type w (D_Type t) TEventType"
| T_State: "has_type w (D_State st) TState"
| T_Metric: "a < length (d_heap w) \<Longrightarrow> has_type w (D_Value a) TMetricValue"
| T_Entry: "has_type w v TMetricValue \<Longrightarrow> has_type w (D_Entry k v) TEntry"

code_pred has_type .

inductive_simps has_type_simps [simp]:
  "has_type w d TString" "has_type w d TEventType" "has_type w d TState"
  "has_type w d TMetricValue" "has_type w d TEntry"

text \<open>What the world may become: values stay allocated, no key is removed.\<close>

definition d_le :: "d_world \<Rightarrow> d_world \<Rightarrow> bool" where
  "d_le w w' \<longleftrightarrow> length (d_heap w) \<le> length (d_heap w') \<and> dom (d_records w) \<subseteq> dom (d_records w')"

definition wt_event :: "d_world \<Rightarrow> d_event \<Rightarrow> bool" where
  "wt_event w e \<longleftrightarrow> has_type w (dv_Key e) TString \<and> has_type w (dv_Value e) TEntry \<and>
     has_type w (dv_Type e) TEventType \<and> has_type w (dv_State e) TState \<and>
     (\<forall>k. dv_Key e = D_String k \<longrightarrow> d_HasEntry k w)"

definition wt_world :: "d_world \<Rightarrow> bool" where
  "wt_world w \<longleftrightarrow>
     (\<forall>k v. d_records w k = Some v \<longrightarrow> de_Key v = k \<and> has_type w (de_Value v) TMetricValue) \<and>
     (\<forall>e \<in> set (d_sends w). wt_event w e)"

definition wt_ptr :: "d_world \<Rightarrow> addr \<Rightarrow> bool" where
  "wt_ptr w a \<longleftrightarrow> has_type w (D_Value a) TMetricValue"

fun wt_monitor :: "d_world \<Rightarrow> monitor_pc \<Rightarrow> bool" where
  "wt_monitor w M_Idle \<longleftrightarrow> True"
| "wt_monitor w (M_Has rq) \<longleftrightarrow> True"
| "wt_monitor w (M_Get rq) \<longleftrightarrow> d_HasEntry (rq_key rq) w"
| "wt_monitor w (M_Got rq a) \<longleftrightarrow> wt_ptr w a"
| "wt_monitor w (M_New rq) \<longleftrightarrow> True"
| "wt_monitor w (M_Same rq a) \<longleftrightarrow> wt_ptr w a"

fun wt_ctrl :: "d_world \<Rightarrow> d_ctrl_pc \<Rightarrow> bool" where
  "wt_ctrl w DC_Init \<longleftrightarrow> True"
| "wt_ctrl w DC_Range \<longleftrightarrow> True"
| "wt_ctrl w (DC_Event e) \<longleftrightarrow> wt_event w e"
| "wt_ctrl w (DC_Got k e a) \<longleftrightarrow> wt_event w e \<and> wt_ptr w a"
| "wt_ctrl w (DC_Put k e a) \<longleftrightarrow> wt_event w e \<and> wt_ptr w a"

fun wt_node :: "d_world \<Rightarrow> d_node_pc \<Rightarrow> bool" where
  "wt_node w DN_Init \<longleftrightarrow> True"
| "wt_node w DN_Range \<longleftrightarrow> True"
| "wt_node w DN_End \<longleftrightarrow> True"
| "wt_node w (DN_Event e) \<longleftrightarrow> wt_event w e"
| "wt_node w (DN_Got k e a) \<longleftrightarrow> wt_event w e \<and> wt_ptr w a"
| "wt_node w (DN_Sent k e a) \<longleftrightarrow> wt_event w e \<and> wt_ptr w a"
| "wt_node w (DN_Put k e a) \<longleftrightarrow> wt_event w e \<and> wt_ptr w a"

lemma d_le_refl [simp]: "d_le w w"
  by (simp add: d_le_def)

lemma has_type_mono: "has_type w d t \<Longrightarrow> d_le w w' \<Longrightarrow> has_type w' d t"
  by (induction rule: has_type.induct) (auto intro: has_type.intros simp: d_le_def)

lemma d_HasEntry_mono: "d_le w w' \<Longrightarrow> d_HasEntry k w \<Longrightarrow> d_HasEntry k w'"
  by (auto simp: d_le_def d_HasEntry_def)

lemma wt_ptr_mono: "d_le w w' \<Longrightarrow> wt_ptr w a \<Longrightarrow> wt_ptr w' a"
  unfolding wt_ptr_def by (rule has_type_mono)

lemma wt_event_mono: "d_le w w' \<Longrightarrow> wt_event w e \<Longrightarrow> wt_event w' e"
  unfolding wt_event_def using has_type_mono d_HasEntry_mono by blast

lemma wt_monitor_mono: "d_le w w' \<Longrightarrow> wt_monitor w pc \<Longrightarrow> wt_monitor w' pc"
  by (cases pc) (auto simp: d_HasEntry_mono wt_ptr_mono)

lemma wt_ctrl_mono: "d_le w w' \<Longrightarrow> wt_ctrl w pc \<Longrightarrow> wt_ctrl w' pc"
  by (cases pc) (auto simp: wt_event_mono wt_ptr_mono)

lemma wt_node_mono: "d_le w w' \<Longrightarrow> wt_node w pc \<Longrightarrow> wt_node w' pc"
  by (cases pc) (auto simp: wt_event_mono wt_ptr_mono)

lemmas wt_monos = wt_monitor_mono wt_ctrl_mono wt_node_mono wt_event_mono wt_ptr_mono

subsection \<open>Preservation by the operations of the store\<close>

lemma d_Put_simps [store_simps]:
  "d_heap (d_Put k v st w) = d_heap w"
  "d_records (d_Put k v st w) = (d_records w)(k \<mapsto> \<lparr>de_Key = k, de_Value = v\<rparr>)"
  "d_sends (d_Put k v st w) = d_sends w @ [\<lparr>dv_Key = D_String k, dv_Value = D_Entry k v,
     dv_Type = D_Type (if d_HasEntry k w then Updated else Created), dv_State = D_State st\<rparr>]"
  by (simp_all add: d_Put_def d_HasEntry_def)

lemma d_le_Put: "d_le w (d_Put k v st w)"
  by (auto simp: d_le_def store_simps)

lemma wt_world_Put:
  assumes "wt_world w" "has_type w v TMetricValue"
  shows "wt_world (d_Put k v st w)"
  using assms wt_event_mono [OF d_le_Put, of w _ k v st] has_type_mono [OF _ d_le_Put, of w _ TMetricValue k v st]
  by (auto simp: wt_world_def store_simps wt_event_def d_HasEntry_def)

lemma d_le_set_state: "d_le w (d_set_state a st w)"
  by (simp add: d_le_def d_set_state_def)

lemma wt_world_grow:
  assumes "wt_world w" "d_le w w'" "d_records w' = d_records w" "d_sends w' = d_sends w"
  shows "wt_world w'"
  using assms has_type_mono [OF _ assms(2), of _ TMetricValue] wt_event_mono [OF assms(2)]
  unfolding wt_world_def by metis

lemma wt_world_set_state: "wt_world w \<Longrightarrow> wt_world (d_set_state a st w)"
  using wt_world_grow [OF _ d_le_set_state] by (simp add: d_set_state_def)

lemma d_put_new_wt:
  assumes "wt_world w"
  shows "wt_world (d_put_new rq n w)" "d_le w (d_put_new rq n w)"
proof -
  have "wt_world (d_alloc (new_value rq n) w)"
    using wt_world_grow [OF assms, of "d_alloc (new_value rq n) w"] by (simp add: d_alloc_def d_le_def)
  moreover have "has_type (d_alloc (new_value rq n) w) (D_Value (length (d_heap w))) TMetricValue"
    by (simp add: d_alloc_def)
  ultimately show "wt_world (d_put_new rq n w)" by (simp add: d_put_new_def wt_world_Put)
  show "d_le w (d_put_new rq n w)" by (auto simp: d_le_def d_put_new_def store_simps d_alloc_def)
qed

subsection \<open>Progress and preservation\<close>

text \<open>A well-typed lookup: the entry is there, its assertion succeeds, the pointer is valid.\<close>

lemma wt_Get:
  assumes "wt_world w" "d_HasEntry k w"
  obtains v a where "d_Get k w = Ret v" "as_value (de_Value v) = Ret a" "wt_ptr w a"
proof -
  from assms(2) obtain v where v: "d_records w k = Some v" by (auto simp: d_HasEntry_def)
  with assms(1) have "has_type w (de_Value v) TMetricValue" by (simp add: wt_world_def)
  then show thesis using v that by (auto simp: d_Get_def wt_ptr_def)
qed

lemma wt_load: "wt_ptr w a \<Longrightarrow> d_load a w = Ret (d_heap w ! a)"
  by (simp add: wt_ptr_def d_load_def)

lemma wt_ptrD: "wt_ptr w a \<Longrightarrow> has_type w (D_Value a) TMetricValue"
  by (simp add: wt_ptr_def)

lemma wt_eventE:
  assumes "wt_event w e"
  obtains k t st where "dv_Key e = D_String k" "d_HasEntry k w" "dv_Type e = D_Type t" "dv_State e = D_State st"
  using assms by (auto simp: wt_event_def)

lemma wt_monitor_step:
  assumes "wt_world w" "wt_monitor w pc"
  shows "\<exists>w' pc'. d_monitor_step n pc w = Ret (w', pc') \<and> wt_world w' \<and> d_le w w' \<and> wt_monitor w' pc'"
proof (cases pc)
  case (M_Get rq)
  with assms obtain v a
    where "d_Get (rq_key rq) w = Ret v" "as_value (de_Value v) = Ret a" "wt_ptr w a"
    by (auto elim: wt_Get)
  with assms M_Get show ?thesis by simp
next
  case (M_New rq)
  with assms show ?thesis by (simp add: d_put_new_wt)
next
  case (M_Same rq a)
  with assms show ?thesis by (simp add: d_le_Put wt_world_Put [OF _ wt_ptrD])
qed (use assms in \<open>auto simp: wt_load\<close>)

lemma wt_ctrl_step:
  assumes "wt_world w" "wt_ctrl w pc"
  shows "\<exists>w' pc'. d_ctrl_step pc w = Ret (w', pc') \<and> wt_world w' \<and> d_le w w' \<and> wt_ctrl w' pc'"
proof (cases pc)
  case (DC_Event e)
  with assms obtain k where k: "dv_Key e = D_String k" "d_HasEntry k w" by (auto elim: wt_eventE)
  obtain v a where "d_Get k w = Ret v" "as_value (de_Value v) = Ret a" "wt_ptr w a"
    using wt_Get [OF assms(1) k(2)] by blast
  with assms DC_Event k show ?thesis by simp
next
  case (DC_Got k e a)
  with assms obtain st where st: "dv_State e = D_State st" by (auto elim: wt_eventE)
  have le: "d_le w (d_set_state a Approved w)" by (rule d_le_set_state)
  show ?thesis
    using assms DC_Got st wt_event_mono [OF le] wt_ptr_mono [OF le]
    by (simp add: wt_load wt_world_set_state le)
next
  case (DC_Put k e a)
  with assms show ?thesis by (simp add: d_le_Put wt_world_Put [OF _ wt_ptrD])
qed (use assms in auto)

lemma wt_node_step:
  assumes "wt_world w" "wt_node w pc"
  shows "\<exists>w' pc' out. d_node_step p n pc w = Ret (w', pc', out) \<and> wt_world w' \<and> d_le w w' \<and> wt_node w' pc'"
proof (cases pc)
  case (DN_Event e)
  with assms obtain k where k: "dv_Key e = D_String k" "d_HasEntry k w" by (auto elim: wt_eventE)
  obtain v a where "d_Get k w = Ret v" "as_value (de_Value v) = Ret a" "wt_ptr w a"
    using wt_Get [OF assms(1) k(2)] by blast
  with assms DN_Event k show ?thesis by simp
next
  case (DN_Got k e a)
  with assms obtain st where "dv_State e = D_State st" by (auto elim: wt_eventE)
  with assms DN_Got show ?thesis by (simp add: wt_load)
next
  case (DN_Sent k e a)
  have le: "d_le w (d_set_state a Done w)" by (rule d_le_set_state)
  show ?thesis
    using assms DN_Sent wt_event_mono [OF le] wt_ptr_mono [OF le] by (simp add: wt_world_set_state le)
next
  case (DN_Put k e a)
  with assms show ?thesis by (simp add: d_le_Put wt_world_Put [OF _ wt_ptrD])
qed (use assms in auto)

text \<open>The readers of the northbound: every entry they are given carries a metric value.\<close>

lemma wt_Entries:
  assumes "wt_world w" "e \<in> set (d_Entries order w)"
  obtains a where "as_value (de_Value e) = Ret a" "wt_ptr w a"
proof -
  from assms(2) obtain k where "d_records w k = Some e" by (auto simp: d_Entries_def set_ranged)
  with assms(1) have "has_type w (de_Value e) TMetricValue" by (simp add: wt_world_def)
  then show thesis using that by (auto simp: wt_ptr_def)
qed

lemma wt_ues_loop:
  "(\<And>e. e \<in> set es \<Longrightarrow> \<exists>a. as_value (de_Value e) = Ret a \<and> wt_ptr w a) \<Longrightarrow>
   \<exists>rows. d_ues_loop w es ues = Ret rows"
proof (induction es arbitrary: ues)
  case (Cons e es)
  from Cons.prems [of e] obtain a where "as_value (de_Value e) = Ret a" "wt_ptr w a" by auto
  with Cons show ?case by (auto simp: wt_load split: option.split)
qed simp

lemma wt_count_loop:
  "(\<And>e. e \<in> set es \<Longrightarrow> \<exists>a. as_value (de_Value e) = Ret a \<and> wt_ptr w a) \<Longrightarrow>
   \<exists>r. d_count_loop w es m = Ret r"
proof (induction es arbitrary: m)
  case (Cons e es)
  from Cons.prems [of e] obtain a where "as_value (de_Value e) = Ret a" "wt_ptr w a" by auto
  with Cons show ?case by (auto simp: wt_load split: option.split)
qed simp

lemma wt_GetUes: "wt_world w \<Longrightarrow> \<exists>rows. d_GetUes order w = Ret rows"
  unfolding d_GetUes_def by (rule wt_ues_loop) (elim wt_Entries, blast+)

lemma wt_GetCells: "wt_world w \<Longrightarrow> \<exists>cells. d_GetCells order corder w = Ret cells"
proof -
  assume w: "wt_world w"
  have "\<exists>r. d_count_loop w (d_Entries order w) Map.empty = Ret r"
    by (rule wt_count_loop) (rule wt_Entries [OF w], assumption, blast)
  then show ?thesis by (auto simp: d_GetCells_def)
qed

subsection \<open>Any interleaving of the clients\<close>

text \<open>
  The clients of one store: any number of monitors and node watchers, the controller and the
  northbound. Channels are left out: a client may be handed any event that was ever sent, at
  any time, in any order and again, which covers every delivery of \<open>Watchers.Send\<close>.
\<close>

record d_sys =
  ds_world :: d_world
  ds_mons :: "(node_id \<times> monitor_pc) list"
  ds_ctrl :: d_ctrl_pc
  ds_nodes :: "(node_id \<times> d_node_pc) list"
  ds_msgs :: "control_msg list"

definition d_boot :: "node_id list \<Rightarrow> node_id list \<Rightarrow> d_sys" where
  "d_boot ms ns = \<lparr>ds_world = d_new, ds_mons = map (\<lambda>n. (n, M_Idle)) ms, ds_ctrl = DC_Range,
                   ds_nodes = map (\<lambda>n. (n, DN_Range)) ns, ds_msgs = []\<rparr>"

datatype d_act =
    DA_Recv nat indication
  | DA_Mon nat
  | DA_CtrlTake nat
  | DA_Ctrl
  | DA_NodeTake nat nat
  | DA_Node nat
  | DA_GetUes "string list"
  | DA_GetCells "string list" "string list"

fun d_exec :: "pdubuilder \<Rightarrow> codec \<Rightarrow> d_act \<Rightarrow> d_sys \<Rightarrow> d_sys go" where
  "d_exec p cd (DA_Recv i ind) s =
     (if i < length (ds_mons s) \<and> snd (ds_mons s ! i) = M_Idle then
        (case parse_indication cd ind of
           Ret rq \<Rightarrow> Ret (s\<lparr>ds_mons := (ds_mons s)[i := (fst (ds_mons s ! i), M_Has rq)]\<rparr>)
         | Fail e \<Rightarrow> Ret s
         | Panic \<Rightarrow> Panic)
      else Ret s)"
| "d_exec p cd (DA_Mon i) s =
     (if i < length (ds_mons s) then
        go_bind (d_monitor_step (fst (ds_mons s ! i)) (snd (ds_mons s ! i)) (ds_world s)) (\<lambda>(w, pc).
        Ret (s\<lparr>ds_world := w, ds_mons := (ds_mons s)[i := (fst (ds_mons s ! i), pc)]\<rparr>))
      else Ret s)"
| "d_exec p cd (DA_CtrlTake j) s =
     (if ds_ctrl s = DC_Range \<and> j < length (d_sends (ds_world s))
      then Ret (s\<lparr>ds_ctrl := DC_Event (d_sends (ds_world s) ! j)\<rparr>) else Ret s)"
| "d_exec p cd DA_Ctrl s =
     go_bind (d_ctrl_step (ds_ctrl s) (ds_world s)) (\<lambda>(w, pc).
     Ret (s\<lparr>ds_world := w, ds_ctrl := pc\<rparr>))"
| "d_exec p cd (DA_NodeTake i j) s =
     (if i < length (ds_nodes s) \<and> snd (ds_nodes s ! i) = DN_Range \<and> j < length (d_sends (ds_world s))
      then Ret (s\<lparr>ds_nodes := (ds_nodes s)
                    [i := (fst (ds_nodes s ! i), DN_Event (d_sends (ds_world s) ! j))]\<rparr>)
      else Ret s)"
| "d_exec p cd (DA_Node i) s =
     (if i < length (ds_nodes s) then
        go_bind (d_node_step p (fst (ds_nodes s ! i)) (snd (ds_nodes s ! i)) (ds_world s)) (\<lambda>(w, pc, out).
        Ret (s\<lparr>ds_world := w, ds_nodes := (ds_nodes s)[i := (fst (ds_nodes s ! i), pc)],
               ds_msgs := ds_msgs s @ out\<rparr>))
      else Ret s)"
| "d_exec p cd (DA_GetUes order) s = go_bind (d_GetUes order (ds_world s)) (\<lambda>_. Ret s)"
| "d_exec p cd (DA_GetCells order corder) s =
     go_bind (d_GetCells order corder (ds_world s)) (\<lambda>_. Ret s)"

primrec d_run :: "pdubuilder \<Rightarrow> codec \<Rightarrow> d_act list \<Rightarrow> d_sys \<Rightarrow> d_sys go" where
  "d_run p cd [] s = Ret s"
| "d_run p cd (x # xs) s = go_bind (d_exec p cd x s) (d_run p cd xs)"

definition wt_sys :: "d_sys \<Rightarrow> bool" where
  "wt_sys s \<longleftrightarrow> wt_world (ds_world s) \<and> wt_ctrl (ds_world s) (ds_ctrl s) \<and>
     (\<forall>x \<in> set (ds_mons s). wt_monitor (ds_world s) (snd x)) \<and>
     (\<forall>x \<in> set (ds_nodes s). wt_node (ds_world s) (snd x))"

lemma wt_sysD:
  assumes "wt_sys s"
  shows "wt_world (ds_world s)" "wt_ctrl (ds_world s) (ds_ctrl s)"
    "i < length (ds_mons s) \<Longrightarrow> wt_monitor (ds_world s) (snd (ds_mons s ! i))"
    "i < length (ds_nodes s) \<Longrightarrow> wt_node (ds_world s) (snd (ds_nodes s ! i))"
    "j < length (d_sends (ds_world s)) \<Longrightarrow> wt_event (ds_world s) (d_sends (ds_world s) ! j)"
  using assms by (auto simp: wt_sys_def wt_world_def)

text \<open>A step of one client leaves the others typed in the world it leaves behind.\<close>

lemma wt_sys_world:
  assumes "wt_sys s" "wt_world w" "d_le (ds_world s) w"
  shows "wt_sys (s\<lparr>ds_world := w\<rparr>)"
  using assms by (auto simp: wt_sys_def wt_monos [OF assms(3)])

lemma wt_sys_mon:
  assumes "wt_sys s" "wt_monitor (ds_world s) pc"
  shows "wt_sys (s\<lparr>ds_mons := (ds_mons s)[i := (n, pc)]\<rparr>)"
  using assms set_update_subset_insert [of "ds_mons s" i "(n, pc)"] by (auto simp: wt_sys_def)

lemma wt_sys_node:
  assumes "wt_sys s" "wt_node (ds_world s) pc"
  shows "wt_sys (s\<lparr>ds_nodes := (ds_nodes s)[i := (n, pc)], ds_msgs := ms\<rparr>)"
    "wt_sys (s\<lparr>ds_nodes := (ds_nodes s)[i := (n, pc)]\<rparr>)"
  using assms set_update_subset_insert [of "ds_nodes s" i "(n, pc)"] by (auto simp: wt_sys_def)

lemma wt_sys_ctrl: "wt_sys s \<Longrightarrow> wt_ctrl (ds_world s) pc \<Longrightarrow> wt_sys (s\<lparr>ds_ctrl := pc\<rparr>)"
  by (simp add: wt_sys_def)

lemma d_exec_wt:
  assumes "wt_sys s" and safe: "\<And>i ind. x = DA_Recv i ind \<Longrightarrow> parse_indication cd ind \<noteq> Panic"
  shows "\<exists>s'. d_exec p cd x s = Ret s' \<and> wt_sys s'"
proof (cases x)
  case (DA_Recv i ind)
  then show ?thesis
    using assms by (cases "parse_indication cd ind") (auto intro!: wt_sys_mon)
next
  case (DA_Mon i)
  show ?thesis
  proof (cases "i < length (ds_mons s)")
    case True
    obtain w pc where step: "d_monitor_step (fst (ds_mons s ! i)) (snd (ds_mons s ! i)) (ds_world s) = Ret (w, pc)"
      and wt: "wt_world w" "d_le (ds_world s) w" "wt_monitor w pc"
      using wt_monitor_step [OF wt_sysD(1,3) [OF assms(1)]] True by blast
    have "wt_sys (s\<lparr>ds_world := w, ds_mons := (ds_mons s)[i := (fst (ds_mons s ! i), pc)]\<rparr>)"
      using wt_sys_mon [OF wt_sys_world [OF assms(1) wt(1,2)], of pc] wt(3) by simp
    with DA_Mon step True show ?thesis by simp
  qed (use DA_Mon assms in simp)
next
  case DA_Ctrl
  obtain w pc where step: "d_ctrl_step (ds_ctrl s) (ds_world s) = Ret (w, pc)"
    and wt: "wt_world w" "d_le (ds_world s) w" "wt_ctrl w pc"
    using wt_ctrl_step [OF wt_sysD(1,2) [OF assms(1)]] by blast
  have "wt_sys (s\<lparr>ds_world := w, ds_ctrl := pc\<rparr>)"
    using wt_sys_ctrl [OF wt_sys_world [OF assms(1) wt(1,2)], of pc] wt(3) by simp
  with DA_Ctrl step show ?thesis by simp
next
  case (DA_Node i)
  show ?thesis
  proof (cases "i < length (ds_nodes s)")
    case True
    obtain w pc out where
      step: "d_node_step p (fst (ds_nodes s ! i)) (snd (ds_nodes s ! i)) (ds_world s) = Ret (w, pc, out)"
      and wt: "wt_world w" "d_le (ds_world s) w" "wt_node w pc"
      using wt_node_step [OF wt_sysD(1,4) [OF assms(1)]] True by blast
    have "wt_sys (s\<lparr>ds_world := w, ds_nodes := (ds_nodes s)[i := (fst (ds_nodes s ! i), pc)],
                   ds_msgs := ds_msgs s @ out\<rparr>)"
      using wt_sys_node(1) [OF wt_sys_world [OF assms(1) wt(1,2)], of pc] wt(3) by simp
    with DA_Node step True show ?thesis by simp
  qed (use DA_Node assms in simp)
next
  case (DA_CtrlTake j)
  then show ?thesis using assms(1) wt_sysD(5) [OF assms(1)] by (auto intro: wt_sys_ctrl)
next
  case (DA_NodeTake i j)
  then show ?thesis using assms(1) wt_sysD(5) [OF assms(1)] by (auto intro: wt_sys_node)
next
  case (DA_GetUes order)
  then show ?thesis using assms(1) wt_GetUes [OF wt_sysD(1) [OF assms(1)], of order] by auto
next
  case (DA_GetCells order corder)
  then show ?thesis using assms(1) wt_GetCells [OF wt_sysD(1) [OF assms(1)], of order corder] by auto
qed

lemma d_run_wt:
  "wt_sys s \<Longrightarrow> (\<And>i ind. DA_Recv i ind \<in> set xs \<Longrightarrow> parse_indication cd ind \<noteq> Panic) \<Longrightarrow>
   \<exists>s'. d_run p cd xs s = Ret s' \<and> wt_sys s'"
proof (induction xs arbitrary: s)
  case (Cons x xs)
  obtain s1 where s1: "d_exec p cd x s = Ret s1" "wt_sys s1"
    using d_exec_wt [OF Cons.prems(1), of x cd p] Cons.prems(2) by auto
  then show ?case using Cons.IH [OF s1(2)] Cons.prems(2) by auto
qed simp

lemma wt_boot: "wt_sys (d_boot ms ns)"
  by (auto simp: d_boot_def wt_sys_def wt_world_def d_new_def)

text \<open>
  C17. No type assertion of the program fails. From the empty store, whatever the steps of the
  monitors, the controller, the node watchers and the northbound readers and however they
  interleave, with any event handed to any client at any time: no step panics (neither an
  assertion on a stored value, an event's key or an event's state, nor a nil or dangling
  pointer), every record holds a metric value under its own key, and every event ever sent
  carries a key that is a string and in the store, an entry, an event type and a state. The
  indications received must not be malformed, which is a panic of its own (\<open>target_cell\<close>).
\<close>

theorem type_assertions_hold:
  assumes "\<And>i ind. DA_Recv i ind \<in> set acts \<Longrightarrow> parse_indication cd ind \<noteq> Panic"
  shows "\<exists>s. d_run p cd acts (d_boot ms ns) = Ret s \<and> wt_world (ds_world s)"
proof -
  obtain s where s: "d_run p cd acts (d_boot ms ns) = Ret s" "wt_sys s"
    using d_run_wt [OF wt_boot] assms by blast
  then show ?thesis using wt_sysD(1) [OF s(2)] by blast
qed

text \<open>One whole handover, in which every assertion of the source is executed.\<close>

definition d_handover :: "d_act list" where
  "d_handover = [DA_Recv 0 (sample_ind 1), DA_Mon 0, DA_Mon 0, DA_CtrlTake 0, DA_Ctrl, DA_Ctrl, DA_Ctrl,
     DA_NodeTake 0 1, DA_Node 0, DA_Node 0, DA_Node 0, DA_Node 0, DA_Recv 0 (sample_ind 1), DA_Mon 0,
     DA_Mon 0, DA_Mon 0, DA_GetUes [sample_key], DA_GetCells [sample_key] [''c1'']]"

theorem type_assertions_hold_witness:
  "\<exists>s. d_run sample_pdu sample_codec d_handover (d_boot [''n1''] [''n1'']) = Ret s \<and> wt_world (ds_world s)"
proof (rule type_assertions_hold)
  show "parse_indication sample_codec ind \<noteq> Panic" if "DA_Recv i ind \<in> set d_handover" for i ind
    using that by (auto simp: d_handover_def sample_parse)
qed

lemma d_handover_done:
  "\<exists>s. d_run sample_pdu sample_codec d_handover (d_boot [''n1''] [''n1'']) = Ret s \<and>
     length (ds_msgs s) = 1 \<and> length (d_sends (ds_world s)) = 3 \<and> State (d_heap (ds_world s) ! 0) = Done"
  by (simp add: d_handover_def d_boot_def d_new_def sample_parse d_HasEntry_def d_put_new_def d_Put_def
      d_alloc_def d_Get_def d_load_def d_set_state_def new_value_def d_GetUes_def d_Entries_def
      d_GetCells_def sample_rq1_def sample_ue_def GetGNbUeid_def)

end
