(* ===== verification/Mho_Requests.thy ===== *)
theory Mho_Requests
  imports Mho_Delivery Mho_Northbound
begin

text \<open>
  The whole process: the southbound application together with the requests of the northbound
  service, which the gRPC server handles each in its own goroutine, at any time.

  A handler and its reading goroutine meet on the unbuffered channel of \<open>Entries\<close>. \<open>Entries\<close>
  holds the lock of the store while it ranges over the records, so no other call of the store
  runs meanwhile; but the reading goroutine holds no lock, and the values behind the entries
  are shared: between two entries, and after the lock is given back while the last entry is
  still being read, the controller and the southbound may set states. Steps of the
  application that call the store wait for the lock (\<open>needs_lock\<close>).
\<close>

subsection \<open>Requests\<close>

datatype nb_call = Call_GetUes | Call_GetCells

text \<open>The handler: about to call \<open>Entries\<close>, in its loop, waiting for the reader, returned.\<close>

datatype nb_main = E_Lock | E_Range "entry list" | E_Wait | E_Return

datatype nb_reader = R_Recv | R_Entry entry | R_Exit

datatype nb_reply = UeList "ue_info list" | CellList "cell_info list"

record request =
  rq_call :: nb_call
  rq_main :: nb_main
  rq_reader :: nb_reader
  rq_ues :: "ue_info list"
  rq_result :: "string \<rightharpoonup> int"
  rq_reply :: "nb_reply option"

definition new_request :: "nb_call \<Rightarrow> request" where
  "new_request c = \<lparr>rq_call = c, rq_main = E_Lock, rq_reader = R_Recv, rq_ues = [],
     rq_result = Map.empty, rq_reply = None\<rparr>"

record prog =
  pg_app :: app
  pg_reqs :: "request list"
  pg_lock :: "nat option"
  pg_panic :: bool

definition prog_init :: prog where
  "prog_init = \<lparr>pg_app = app_init, pg_reqs = [], pg_lock = None, pg_panic = False\<rparr>"

abbreviation pg_world :: "prog \<Rightarrow> world" where
  "pg_world g \<equiv> sys_world (app_sys (pg_app g))"

definition set_req :: "nat \<Rightarrow> request \<Rightarrow> prog \<Rightarrow> prog" where
  "set_req q r g = g\<lparr>pg_reqs := (pg_reqs g)[q := r]\<rparr>"

subsection \<open>The steps of a request\<close>

definition nb_arrive :: "nb_call \<Rightarrow> prog \<Rightarrow> prog" where
  "nb_arrive c g = g\<lparr>pg_reqs := pg_reqs g @ [new_request c]\<rparr>"

text \<open>\<open>Entries\<close>: \<open>s.mu.Lock()\<close>, and the records in the order the range will visit them.\<close>

definition entries_lock :: "nat \<Rightarrow> string list \<Rightarrow> prog \<Rightarrow> prog" where
  "entries_lock q order g =
     (set_req q ((pg_reqs g ! q)\<lparr>rq_main := E_Range (Entries order (mstore (pg_world g)))\<rparr>) g)
       \<lparr>pg_lock := Some q\<rparr>"

text \<open>\<open>ch <- entry\<close>, received by the \<open>range ch\<close> of the reading goroutine.\<close>

definition entries_send :: "nat \<Rightarrow> entry \<Rightarrow> entry list \<Rightarrow> prog \<Rightarrow> prog" where
  "entries_send q e es g = set_req q ((pg_reqs g ! q)\<lparr>rq_main := E_Range es, rq_reader := R_Entry e\<rparr>) g"

text \<open>\<open>close(ch)\<close>, and the deferred \<open>s.mu.Unlock()\<close>.\<close>

definition entries_close :: "nat \<Rightarrow> prog \<Rightarrow> prog" where
  "entries_close q g = (set_req q ((pg_reqs g ! q)\<lparr>rq_main := E_Wait\<rparr>) g)\<lparr>pg_lock := None\<rparr>"

text \<open>The body of the reading loop, for either handler.\<close>

definition read_entry :: "nat \<Rightarrow> entry \<Rightarrow> prog \<Rightarrow> prog" where
  "read_entry q e g =
     (let r = (pg_reqs g ! q)\<lparr>rq_reader := R_Recv\<rparr> in
      case load (Value e) (pg_world g) of
        Ret v \<Rightarrow>
          (case GetGNbUeid (RawUEID v) of
             None \<Rightarrow> set_req q r g
           | Some gnb \<Rightarrow>
               (case rq_call r of
                  Call_GetUes \<Rightarrow> set_req q (r\<lparr>rq_ues := rq_ues r @ [ue_row v gnb]\<rparr>) g
                | Call_GetCells \<Rightarrow> set_req q (r\<lparr>rq_result := incr (TgtCellID v) (rq_result r)\<rparr>) g))
      | _ \<Rightarrow> g\<lparr>pg_panic := True\<rparr>)"

text \<open>The channel is closed and empty: the loop ends, \<open>wg.Done()\<close>.\<close>

definition reader_exit :: "nat \<Rightarrow> prog \<Rightarrow> prog" where
  "reader_exit q g = set_req q ((pg_reqs g ! q)\<lparr>rq_reader := R_Exit\<rparr>) g"

text \<open>\<open>wg.Wait()\<close> returns, and the handler builds its reply; \<open>corder\<close> is the order in which
  \<open>GetCells\<close> visits its local map.\<close>

definition nb_return :: "nat \<Rightarrow> string list \<Rightarrow> prog \<Rightarrow> prog" where
  "nb_return q corder g =
     (let r = pg_reqs g ! q in
      set_req q (r\<lparr>rq_main := E_Return,
        rq_reply := Some (case rq_call r of
          Call_GetUes \<Rightarrow> UeList (rq_ues r) | Call_GetCells \<Rightarrow> CellList (cells_of corder (rq_result r)))\<rparr>) g)"

subsection \<open>The lock of the store\<close>

fun mon_calls :: "monitor_pc \<Rightarrow> bool" where
  "mon_calls M_Idle \<longleftrightarrow> False"
| "mon_calls (M_Has rq) \<longleftrightarrow> True"
| "mon_calls (M_Get rq) \<longleftrightarrow> True"
| "mon_calls (M_Got rq a) \<longleftrightarrow> False"
| "mon_calls (M_New rq) \<longleftrightarrow> True"
| "mon_calls (M_Same rq a) \<longleftrightarrow> True"

fun ctrl_calls :: "ctrl_pc \<Rightarrow> bool" where
  "ctrl_calls (C_Event e) \<longleftrightarrow> EvType e = Created \<or> EvType e = Updated"
| "ctrl_calls (C_Put e a) \<longleftrightarrow> True"
| "ctrl_calls _ \<longleftrightarrow> False"

fun node_calls :: "node_pc \<Rightarrow> bool" where
  "node_calls (N_Event e) \<longleftrightarrow> EvType e = Updated"
| "node_calls (N_Put e a) \<longleftrightarrow> True"
| "node_calls _ \<longleftrightarrow> False"

text \<open>The steps of the handlers that call \<open>HasEntry\<close>, \<open>Get\<close> or \<open>Put\<close>. (\<open>Watch\<close> and the removal
  of a watcher do not take this lock.)\<close>

fun needs_lock :: "'f app_act \<Rightarrow> app \<Rightarrow> bool" where
  "needs_lock (P_Inner (A_Mon j)) a \<longleftrightarrow> mon_calls (mp_pc (sys_mons (app_sys a) ! j))"
| "needs_lock (P_Inner A_Ctrl) a \<longleftrightarrow> ctrl_calls (sys_ctrl (app_sys a))"
| "needs_lock (P_Inner (A_Node j)) a \<longleftrightarrow> node_calls (np_pc (sys_nodes (app_sys a) ! j))"
| "needs_lock _ a \<longleftrightarrow> False"

datatype 'f prog_act =
    G_App "'f app_act"
  | G_Arrive nb_call
  | G_Lock nat "string list"
  | G_Send nat
  | G_Close nat
  | G_Read nat
  | G_Exit nat
  | G_Return nat "string list"

fun prog_do :: "codec \<Rightarrow> pdubuilder \<Rightarrow> e2_manager \<Rightarrow> 'f prog_act \<Rightarrow> prog \<Rightarrow> prog option" where
  "prog_do cd p em (G_App x) g =
     (if pg_lock g \<noteq> None \<and> needs_lock x (pg_app g) then None
      else (case app_exec cd p em x (pg_app g) of None \<Rightarrow> None | Some a \<Rightarrow> Some (g\<lparr>pg_app := a\<rparr>)))"
| "prog_do cd p em (G_Arrive c) g = Some (nb_arrive c g)"
| "prog_do cd p em (G_Lock q order) g =
     (if q < length (pg_reqs g) \<and> rq_main (pg_reqs g ! q) = E_Lock \<and> pg_lock g = None \<and>
         range_order (records (mstore (pg_world g))) order
      then Some (entries_lock q order g) else None)"
| "prog_do cd p em (G_Send q) g =
     (if q < length (pg_reqs g) \<and> rq_reader (pg_reqs g ! q) = R_Recv
      then (case rq_main (pg_reqs g ! q) of E_Range (e # es) \<Rightarrow> Some (entries_send q e es g) | _ \<Rightarrow> None)
      else None)"
| "prog_do cd p em (G_Close q) g =
     (if q < length (pg_reqs g) \<and> rq_main (pg_reqs g ! q) = E_Range [] then Some (entries_close q g) else None)"
| "prog_do cd p em (G_Read q) g =
     (if q < length (pg_reqs g)
      then (case rq_reader (pg_reqs g ! q) of R_Entry e \<Rightarrow> Some (read_entry q e g) | _ \<Rightarrow> None) else None)"
| "prog_do cd p em (G_Exit q) g =
     (if q < length (pg_reqs g) \<and> rq_main (pg_reqs g ! q) = E_Wait \<and> rq_reader (pg_reqs g ! q) = R_Recv
      then Some (reader_exit q g) else None)"
| "prog_do cd p em (G_Return q corder) g =
     (if q < length (pg_reqs g) \<and> rq_main (pg_reqs g ! q) = E_Wait \<and> rq_reader (pg_reqs g ! q) = R_Exit \<and>
         range_order (rq_result (pg_reqs g ! q)) corder
      then Some (nb_return q corder g) else None)"

text \<open>A panic anywhere ends the process.\<close>

definition dead :: "prog \<Rightarrow> bool" where
  "dead g \<longleftrightarrow> pg_panic g \<or> app_panic (pg_app g) \<or> sys_crash (app_sys (pg_app g)) \<noteq> None"

definition prog_exec :: "codec \<Rightarrow> pdubuilder \<Rightarrow> e2_manager \<Rightarrow> 'f prog_act \<Rightarrow> prog \<Rightarrow> prog option" where
  "prog_exec cd p em x g = (if dead g then None else prog_do cd p em x g)"

primrec prog_run :: "codec \<Rightarrow> pdubuilder \<Rightarrow> e2_manager \<Rightarrow> 'f prog_act list \<Rightarrow> prog \<Rightarrow> prog option" where
  "prog_run cd p em [] g = Some g"
| "prog_run cd p em (x # xs) g =
     (case prog_exec cd p em x g of None \<Rightarrow> None | Some h \<Rightarrow> prog_run cd p em xs h)"

text \<open>The part of a schedule that belongs to the application.\<close>

definition app_part :: "'f prog_act list \<Rightarrow> 'f app_act list" where
  "app_part xs = List.map_filter (\<lambda>x. case x of G_App y \<Rightarrow> Some y | _ \<Rightarrow> None) xs"

lemma app_part_simps [simp]:
  "app_part [] = []" "app_part (xs @ ys) = app_part xs @ app_part ys"
  "app_part (x # xs) = (case x of G_App y \<Rightarrow> y # app_part xs | _ \<Rightarrow> app_part xs)"
proof -
  show "app_part (xs @ ys) = app_part xs @ app_part ys" by (simp add: app_part_def List.map_filter_def)
qed (simp_all add: app_part_def List.map_filter_simps split: prog_act.split)

text \<open>The steps, each with what it needs to be enabled.\<close>

lemma prog_exec_cases [consumes 1, case_names app arrive lock send close read exit return]:
  assumes "prog_exec cd p em x g = Some h"
  obtains y a where "x = G_App y" "pg_lock g = None \<or> \<not> needs_lock y (pg_app g)"
      "app_exec cd p em y (pg_app g) = Some a" "h = g\<lparr>pg_app := a\<rparr>"
  | c where "x = G_Arrive c" "h = nb_arrive c g"
  | q order where "x = G_Lock q order" "q < length (pg_reqs g)" "rq_main (pg_reqs g ! q) = E_Lock"
      "pg_lock g = None" "range_order (records (mstore (pg_world g))) order" "h = entries_lock q order g"
  | q e es where "x = G_Send q" "q < length (pg_reqs g)" "rq_reader (pg_reqs g ! q) = R_Recv"
      "rq_main (pg_reqs g ! q) = E_Range (e # es)" "h = entries_send q e es g"
  | q where "x = G_Close q" "q < length (pg_reqs g)" "rq_main (pg_reqs g ! q) = E_Range []" "h = entries_close q g"
  | q e where "x = G_Read q" "q < length (pg_reqs g)" "rq_reader (pg_reqs g ! q) = R_Entry e" "h = read_entry q e g"
  | q where "x = G_Exit q" "q < length (pg_reqs g)" "rq_main (pg_reqs g ! q) = E_Wait"
      "rq_reader (pg_reqs g ! q) = R_Recv" "h = reader_exit q g"
  | q corder where "x = G_Return q corder" "q < length (pg_reqs g)" "rq_main (pg_reqs g ! q) = E_Wait"
      "rq_reader (pg_reqs g ! q) = R_Exit" "range_order (rq_result (pg_reqs g ! q)) corder" "h = nb_return q corder g"
  using assms
  by (cases x) (auto simp: prog_exec_def split: if_splits option.splits nb_main.splits list.splits nb_reader.splits)

lemma set_req_app [simp]: "pg_app (set_req q r g) = pg_app g" "pg_lock (set_req q r g) = pg_lock g"
  "pg_panic (set_req q r g) = pg_panic g" "pg_reqs (set_req q r g) = (pg_reqs g)[q := r]"
  by (simp_all add: set_req_def)

lemma request_app [simp]:
  "pg_app (nb_arrive c g) = pg_app g" "pg_app (entries_lock q order g) = pg_app g"
  "pg_app (entries_send q e es g) = pg_app g" "pg_app (entries_close q g) = pg_app g"
  "pg_app (read_entry q e g) = pg_app g" "pg_app (reader_exit q g) = pg_app g"
  "pg_app (nb_return q corder g) = pg_app g"
  by (simp_all add: nb_arrive_def entries_lock_def entries_send_def entries_close_def read_entry_def
      reader_exit_def nb_return_def Let_def split: go.split option.split nb_call.split)

lemma prog_exec_app:
  assumes "prog_exec cd p em x g = Some h"
  shows "app_run cd p em (app_part [x]) (pg_app g) = Some (pg_app h)"
  using assms by (cases rule: prog_exec_cases) simp_all

lemma prog_run_app: "prog_run cd p em xs g = Some h \<Longrightarrow> app_run cd p em (app_part xs) (pg_app g) = Some (pg_app h)"
proof (induction xs arbitrary: g)
  case (Cons x xs)
  then obtain u where u: "prog_exec cd p em x g = Some u" "prog_run cd p em xs u = Some h"
    by (auto split: option.splits)
  have "app_part (x # xs) = app_part [x] @ app_part xs" using app_part_simps(2) [of "[x]" xs] by simp
  then show ?case using app_run_append [OF prog_exec_app [OF u(1)] Cons.IH [OF u(2)]] by (simp only:)
qed simp

lemma prog_run_append [simp]:
  "prog_run cd p em (xs @ ys) g = (case prog_run cd p em xs g of None \<Rightarrow> None | Some h \<Rightarrow> prog_run cd p em ys h)"
  by (induction xs arbitrary: g) (simp_all split: option.split)

lemma prog_run_snoc:
  assumes "prog_run cd p em (xs @ [x]) g = Some h"
  obtains u where "prog_run cd p em xs g = Some u" "prog_exec cd p em x u = Some h"
  using assms by (auto split: option.splits)

text \<open>With the lock free and no panic, the application runs as it would alone.\<close>

lemma app_run_prog:
  "app_run cd p em ys (pg_app g) = Some a \<Longrightarrow> pg_lock g = None \<Longrightarrow> \<not> pg_panic g \<Longrightarrow>
   prog_run cd p em (map G_App ys) g = Some (g\<lparr>pg_app := a\<rparr>)"
proof (induction ys arbitrary: g)
  case (Cons y ys)
  then obtain c where c: "app_exec cd p em y (pg_app g) = Some c" "app_run cd p em ys c = Some a"
    by (auto split: option.splits)
  from c(1) have "\<not> app_panic (pg_app g)" "sys_crash (app_sys (pg_app g)) = None"
    by (auto simp: app_exec_def split: if_splits)
  then show ?case using Cons.IH [of "g\<lparr>pg_app := c\<rparr>"] Cons.prems(2,3) c by (simp add: prog_exec_def dead_def)
qed simp

subsection \<open>What the world of a run keeps\<close>

text \<open>Values stay allocated and keep all but their state, and no key is removed.\<close>

lemma mon_le:
  assumes inv: "sys_inv p s" and j: "j < length (sys_mons s)"
  shows "world_le (sys_world s) (sys_world (do_mon j s))"
  using monitor_step_ok [OF sys_invD(1,4) [OF inv], OF j] by (auto simp: do_mon_def Let_def)

lemma ctrl_le: "sys_inv p s \<Longrightarrow> world_le (sys_world s) (sys_world (do_ctrl s))"
  using ctrl_step_ok [OF sys_invD(1,2)] by (fastforce simp: do_ctrl_def)

lemma node_le:
  assumes inv: "sys_inv p s" and j: "j < length (sys_nodes s)"
  shows "world_le (sys_world s) (sys_world (do_node p j s))"
  using node_step_ok [OF sys_invD(1,3) [OF inv], OF j, of p "np_node (sys_nodes s ! j)"]
  by (auto simp: do_node_def Let_def)

lemma sys_step_le: "sys_step cd p s t \<Longrightarrow> sys_inv p s \<Longrightarrow> world_le (sys_world s) (sys_world t)"
proof (induction rule: sys_step.induct)
  case (recv s j r)
  then show ?case by (simp add: do_recv_def split: go.split)
next
  case (mon_move s j)
  then show ?case by (simp add: mon_le)
next
  case (ctrl_move s)
  then show ?case by (simp add: ctrl_le)
next
  case (node_move s j)
  then show ?case by (simp add: node_le)
qed (simp_all add: do_connect_def do_watch_def do_ctrl_watch_def do_node_watch_def
    do_cancel_def do_unwatch_def unwatch_def do_close_def do_send_closed_def do_node_end_def do_mon_ctx_def
    do_send_start_def do_taken_def do_deliver_ctrl_def do_deliver_node_def Let_def world_le_def store_simps)

lemma path_le: "(sys_step cd p)\<^sup>*\<^sup>* s t \<Longrightarrow> sys_inv p s \<Longrightarrow> world_le (sys_world s) (sys_world t) \<and> sys_inv p t"
  by (induction rule: rtranclp_induct) (auto intro: world_le_trans sys_step_le sys_step_inv)

text \<open>A state of the process that a run from the start has reached.\<close>

lemma prog_run_init:
  assumes "prog_run cd p em xs prog_init = Some g"
  shows "app_ok (pg_app g)" "reachable cd p (app_sys (pg_app g))" "sys_inv p (app_sys (pg_app g))"
    "wf_world (pg_world g)"
proof -
  have "app_run cd p em (app_part xs) app_init = Some (pg_app g)"
    using prog_run_app [OF assms] by (simp add: prog_init_def)
  note a = app_runs_init [OF this]
  show "app_ok (pg_app g)" "reachable cd p (app_sys (pg_app g))" using a(1,2) .
  show "sys_inv p (app_sys (pg_app g))" using reachable_inv [OF a(2)] .
  then show "wf_world (pg_world g)" using world_okD(1) [OF sys_invD(1)] by blast
qed

lemma app_run_le:
  "app_run cd p em xs a = Some b \<Longrightarrow> app_ok a \<Longrightarrow> sys_inv p (app_sys a) \<Longrightarrow>
   world_le (sys_world (app_sys a)) (sys_world (app_sys b))"
  using path_le [OF app_run_path] by blast

lemma prog_exec_le:
  assumes "prog_run cd p em xs prog_init = Some g" "prog_exec cd p em x g = Some h"
  shows "world_le (pg_world g) (pg_world h)"
  using app_run_le [OF prog_exec_app [OF assms(2)]] prog_run_init [OF assms(1)] by blast

lemma gnb_entry_le: "gnb_entry w e \<Longrightarrow> world_le w w' \<Longrightarrow> gnb_entry w' e \<and> same_ident (stored w e) (stored w' e)"
  by (auto simp: gnb_entry_def stored_def world_le_def heap_ext_def same_ident_def)

text \<open>Without the lock no record changes.\<close>

lemma step_records:
  "ctrl_step pc w = Ret (w', pc') \<Longrightarrow> \<not> ctrl_calls pc \<Longrightarrow> records (mstore w') = records (mstore w)"
  "monitor_step n mpc w = Ret (w', mpc') \<Longrightarrow> \<not> mon_calls mpc \<Longrightarrow> records (mstore w') = records (mstore w)"
  "node_step p n npc w = Ret (w', npc', out) \<Longrightarrow> \<not> node_calls npc \<Longrightarrow> records (mstore w') = records (mstore w)"
  subgoal by (cases pc) (auto simp: go_simps store_simps split: if_splits)
  subgoal by (cases mpc) (auto simp: go_simps store_simps split: if_splits)
  subgoal by (cases npc) (auto simp: go_simps store_simps split: if_splits)
  done

lemma inner_records:
  assumes "internal y" "\<not> needs_lock (P_Inner y) a"
  shows "records (mstore (sys_world (act_do cd p y (app_sys a)))) = records (mstore (sys_world (app_sys a)))"
proof (cases y)
  case (A_Mon j)
  then show ?thesis using assms(2) by (auto simp: do_mon_def Let_def dest: step_records split: go.split)
next
  case A_Ctrl
  then show ?thesis using assms(2) by (auto simp: do_ctrl_def dest: step_records split: go.split)
next
  case (A_Node j)
  then show ?thesis using assms(2) by (auto simp: do_node_def Let_def dest: step_records split: go.split)
qed (use assms in \<open>auto simp: do_simps Let_def store_simps\<close>)

lemma announces_world: "sys_world (app_sys (fold announce ns a)) = sys_world (app_sys a)"
  by (induction ns arbitrary: a) (simp_all add: announce_def do_connect_def)

lemma unlocked_records:
  assumes "app_exec cd p em x a = Some b" "\<not> needs_lock x a"
  shows "records (mstore (sys_world (app_sys b))) = records (mstore (sys_world (app_sys a)))"
  using assms(1)
proof (cases rule: app_exec_cases)
  case (watch v)
  then show ?thesis by (simp add: app_watch_def topo_end_def do_cancel_def split: option.split)
next
  case (event v ev)
  then show ?thesis
    by (simp add: app_event_def topo_end_def do_cancel_def announces_world Let_def split: go.split prod.split option.split)
next
  case closed
  then show ?thesis by (simp add: topo_end_def do_cancel_def)
next
  case (recv j i r s res)
  then show ?thesis by (simp add: do_recv_def split: go.split)
next
  case (inner y t)
  then show ?thesis using inner_records [OF inner(2), of a cd p] assms(2) by (auto simp: exec_act_def split: if_splits)
qed simp_all

subsection \<open>The invariant of the requests\<close>

definition during :: "nat \<Rightarrow> prog \<Rightarrow> bool" where
  "during q g \<longleftrightarrow> q < length (pg_reqs g) \<and> rq_main (pg_reqs g ! q) \<noteq> E_Return"

text \<open>A state that the run \<open>xs\<close> went through while request \<open>q\<close> was being handled.\<close>

definition seen :: "codec \<Rightarrow> pdubuilder \<Rightarrow> e2_manager \<Rightarrow> 'f prog_act list \<Rightarrow> nat \<Rightarrow> prog \<Rightarrow> bool" where
  "seen cd p em xs q h \<longleftrightarrow> (\<exists>ys zs. xs = ys @ zs \<and> prog_run cd p em ys prog_init = Some h \<and> during q h)"

lemma seen_mono: "seen cd p em xs q h \<Longrightarrow> seen cd p em (xs @ ys) q h"
  unfolding seen_def by (metis append.assoc)

lemma seen_now: "prog_run cd p em xs prog_init = Some g \<Longrightarrow> during q g \<Longrightarrow> seen cd p em (xs @ ys) q g"
  unfolding seen_def by blast

lemma seen_world:
  assumes "seen cd p em xs q h"
  shows "wf_world (pg_world h)" "prog_run cd p em xs prog_init = Some g \<Longrightarrow> world_le (pg_world h) (pg_world g)"
proof -
  obtain ys zs where h: "xs = ys @ zs" "prog_run cd p em ys prog_init = Some h"
    using assms by (auto simp: seen_def)
  note i = prog_run_init [OF h(2)]
  show "wf_world (pg_world h)" by (rule i(4))
  assume "prog_run cd p em xs prog_init = Some g"
  then have "prog_run cd p em zs h = Some g" using h by simp
  from app_run_le [OF prog_run_app [OF this] i(1,3)]
  show "world_le (pg_world h) (pg_world g)" .
qed

definition now_reading :: "request \<Rightarrow> entry list" where
  "now_reading r = (case rq_reader r of R_Entry e \<Rightarrow> [e] | _ \<Rightarrow> [])"

definition to_send :: "request \<Rightarrow> entry list" where
  "to_send r = (case rq_main r of E_Range es \<Rightarrow> es | _ \<Rightarrow> [])"

definition row_read :: "codec \<Rightarrow> pdubuilder \<Rightarrow> e2_manager \<Rightarrow> 'f prog_act list \<Rightarrow> nat \<Rightarrow> ue_info \<Rightarrow> entry \<Rightarrow> bool" where
  "row_read cd p em xs q row e \<longleftrightarrow> (\<exists>h. seen cd p em xs q h \<and> gnb_entry (pg_world h) e \<and> row = row_of (pg_world h) e)"

text \<open>The store at the moment \<open>h\<close> of the lock is what the request lists: what was read, what is
  being read, and what is still to be sent.\<close>

definition covered ::
  "codec \<Rightarrow> pdubuilder \<Rightarrow> e2_manager \<Rightarrow> 'f prog_act list \<Rightarrow> nat \<Rightarrow> request \<Rightarrow> prog \<Rightarrow> string list \<Rightarrow> entry list \<Rightarrow> bool" where
  "covered cd p em xs q r h order old \<longleftrightarrow>
     seen cd p em xs q h \<and> range_order (records (mstore (pg_world h))) order \<and>
     Entries order (mstore (pg_world h)) = old @ now_reading r @ to_send r \<and>
     (rq_call r = Call_GetUes \<longrightarrow> rq_result r = Map.empty \<and> list_all2 (row_read cd p em xs q) (rq_ues r) old) \<and>
     (rq_call r = Call_GetCells \<longrightarrow> rq_result r = tally (map (\<lambda>e. TgtCellID (stored (pg_world h) e)) old))"

definition reply_of :: "request \<Rightarrow> nb_reply \<Rightarrow> bool" where
  "reply_of r reply \<longleftrightarrow>
     (case rq_call r of
        Call_GetUes \<Rightarrow> reply = UeList (rq_ues r)
      | Call_GetCells \<Rightarrow> (\<exists>corder. range_order (rq_result r) corder \<and> reply = CellList (cells_of corder (rq_result r))))"

definition req_inv ::
  "codec \<Rightarrow> pdubuilder \<Rightarrow> e2_manager \<Rightarrow> 'f prog_act list \<Rightarrow> prog \<Rightarrow> nat \<Rightarrow> request \<Rightarrow> bool" where
  "req_inv cd p em xs g q r \<longleftrightarrow>
     (rq_main r = E_Lock \<longrightarrow> r = new_request (rq_call r)) \<and>
     (rq_main r \<noteq> E_Lock \<longrightarrow> (\<exists>h order old. covered cd p em xs q r h order old \<and>
        (\<forall>es. rq_main r = E_Range es \<longrightarrow> records (mstore (pg_world h)) = records (mstore (pg_world g))))) \<and>
     (rq_reader r = R_Exit \<longrightarrow> rq_main r \<in> {E_Wait, E_Return}) \<and>
     (rq_main r = E_Return \<longleftrightarrow> rq_reply r \<noteq> None) \<and>
     (\<forall>reply. rq_reply r = Some reply \<longrightarrow> rq_reader r = R_Exit \<and> reply_of r reply)"

definition lock_inv :: "prog \<Rightarrow> bool" where
  "lock_inv g \<longleftrightarrow> (\<forall>q. pg_lock g = Some q \<longleftrightarrow> q < length (pg_reqs g) \<and> (\<exists>es. rq_main (pg_reqs g ! q) = E_Range es))"

definition prog_inv :: "codec \<Rightarrow> pdubuilder \<Rightarrow> e2_manager \<Rightarrow> 'f prog_act list \<Rightarrow> prog \<Rightarrow> bool" where
  "prog_inv cd p em xs g \<longleftrightarrow> \<not> pg_panic g \<and> lock_inv g \<and>
     (\<forall>q < length (pg_reqs g). req_inv cd p em xs g q (pg_reqs g ! q))"

lemma prog_inv_init: "prog_inv cd p em [] prog_init"
  by (simp add: prog_inv_def prog_init_def lock_inv_def)

lemma covered_mono:
  assumes "covered cd p em xs q r h order old"
  shows "covered cd p em (xs @ ys) q r h order old"
proof -
  have "list_all2 (row_read cd p em xs q) us old \<Longrightarrow> list_all2 (row_read cd p em (xs @ ys) q) us old" for us
    by (erule list_all2_mono) (auto simp: row_read_def intro: seen_mono)
  then show ?thesis using assms by (simp add: covered_def seen_mono)
qed

lemma req_inv_keep:
  assumes "req_inv cd p em xs g q r"
    and "\<And>es. rq_main r = E_Range es \<Longrightarrow> records (mstore (pg_world h)) = records (mstore (pg_world g))"
  shows "req_inv cd p em (xs @ ys) h q r"
  using assms covered_mono [of cd p em xs q r] unfolding req_inv_def by metis

text \<open>A step of one request answers for that request and for the lock.\<close>

lemma prog_inv_request:
  assumes inv: "prog_inv cd p em xs g" and q: "q < length (pg_reqs g)"
    and h: "pg_app h = pg_app g" "pg_reqs h = (pg_reqs g)[q := r]" "\<not> pg_panic h"
    and lock: "lock_inv h" and r: "req_inv cd p em (xs @ [x]) h q r"
  shows "prog_inv cd p em (xs @ [x]) h"
proof -
  have "req_inv cd p em (xs @ [x]) h k (pg_reqs h ! k)" if "k < length (pg_reqs h)" for k
  proof (cases "k = q")
    case True
    then show ?thesis using r q h(2) by simp
  next
    case False
    then have "req_inv cd p em xs g k (pg_reqs h ! k)" using inv that h(2) by (simp add: prog_inv_def)
    then show ?thesis by (rule req_inv_keep) (simp add: h(1))
  qed
  then show ?thesis using h(3) lock by (simp add: prog_inv_def)
qed

lemma lock_inv_same:
  assumes "lock_inv g" "q < length (pg_reqs g)" "pg_reqs h = (pg_reqs g)[q := r]" "pg_lock h = pg_lock g"
    and "(\<exists>es. rq_main r = E_Range es) \<longleftrightarrow> (\<exists>es. rq_main (pg_reqs g ! q) = E_Range es)"
  shows "lock_inv h"
  using assms by (auto simp: lock_inv_def nth_list_update)

lemma prog_inv_app:
  assumes inv: "prog_inv cd p em xs g" and step: "app_exec cd p em y (pg_app g) = Some a"
    and free: "pg_lock g = None \<or> \<not> needs_lock y (pg_app g)"
  shows "prog_inv cd p em (xs @ [x]) (g\<lparr>pg_app := a\<rparr>)"
proof -
  have "req_inv cd p em (xs @ [x]) (g\<lparr>pg_app := a\<rparr>) q (pg_reqs g ! q)" if q: "q < length (pg_reqs g)" for q
  proof (rule req_inv_keep)
    show "req_inv cd p em xs g q (pg_reqs g ! q)" using inv q by (simp add: prog_inv_def)
    fix es
    assume "rq_main (pg_reqs g ! q) = E_Range es"
    then have "pg_lock g = Some q" using inv q by (auto simp: prog_inv_def lock_inv_def)
    then show "records (mstore (pg_world (g\<lparr>pg_app := a\<rparr>))) = records (mstore (pg_world g))"
      using unlocked_records [OF step] free by simp
  qed
  then show ?thesis using inv by (simp add: prog_inv_def lock_inv_def)
qed

lemma prog_inv_arrive:
  assumes inv: "prog_inv cd p em xs g"
  shows "prog_inv cd p em (xs @ [x]) (nb_arrive c g)"
proof -
  let ?h = "nb_arrive c g"
  have "req_inv cd p em (xs @ [x]) ?h q (pg_reqs ?h ! q)" if "q < length (pg_reqs ?h)" for q
  proof (cases "q < length (pg_reqs g)")
    case True
    then have "req_inv cd p em xs g q (pg_reqs ?h ! q)"
      using inv by (simp add: prog_inv_def nb_arrive_def nth_append)
    then show ?thesis by (rule req_inv_keep) simp
  next
    case False
    then have "q = length (pg_reqs g)" using that by (simp add: nb_arrive_def)
    then show ?thesis by (simp add: nb_arrive_def req_inv_def new_request_def)
  qed
  moreover have "lock_inv ?h"
    using inv by (auto simp: prog_inv_def lock_inv_def nb_arrive_def nth_append new_request_def less_Suc_eq)
  ultimately show ?thesis using inv by (simp add: prog_inv_def nb_arrive_def)
qed

text \<open>The entries of a request carry gNB values, also later.\<close>

lemma covered_entry:
  assumes "covered cd p em xs q r h order old" "prog_run cd p em xs prog_init = Some g"
    and "e \<in> set (old @ now_reading r @ to_send r)"
  shows "gnb_entry (pg_world g) e" "same_ident (stored (pg_world h) e) (stored (pg_world g) e)"
proof -
  have "gnb_entry (pg_world h) e"
    using Entries_gnb [OF seen_world(1), of cd p em xs q h order] assms(1,3) by (auto simp: covered_def)
  then show "gnb_entry (pg_world g) e" "same_ident (stored (pg_world h) e) (stored (pg_world g) e)"
    using gnb_entry_le seen_world(2) [OF _ assms(2)] assms(1) by (auto simp: covered_def)
qed

lemma req_invD:
  assumes "req_inv cd p em xs g q r"
  shows "rq_main r = E_Lock \<Longrightarrow> r = new_request (rq_call r)"
    "rq_reader r = R_Exit \<Longrightarrow> rq_main r = E_Wait \<or> rq_main r = E_Return"
    "rq_main r \<noteq> E_Return \<Longrightarrow> rq_reply r = None" "rq_main r = E_Return \<Longrightarrow> rq_reader r = R_Exit"
    "rq_reply r = Some reply \<Longrightarrow> rq_main r = E_Return \<and> reply_of r reply"
  using assms by (auto simp: req_inv_def)

lemma req_inv_fresh:
  assumes "req_inv cd p em xs g q r" "rq_main r = E_Lock"
  shows "rq_reader r = R_Recv" "rq_ues r = []" "rq_result r = Map.empty" "rq_reply r = None"
  by (subst req_invD(1) [OF assms], simp add: new_request_def)+

lemma req_inv_covered:
  assumes "req_inv cd p em xs g q r" "rq_main r \<noteq> E_Lock"
  obtains h order old where "covered cd p em xs q r h order old"
    "\<And>es. rq_main r = E_Range es \<Longrightarrow> records (mstore (pg_world h)) = records (mstore (pg_world g))"
  using assms by (auto simp: req_inv_def)

lemma prog_inv_lock:
  assumes run: "prog_run cd p em xs prog_init = Some g" and inv: "prog_inv cd p em xs g"
    and q: "q < length (pg_reqs g)" "rq_main (pg_reqs g ! q) = E_Lock" and free: "pg_lock g = None"
    and order: "range_order (records (mstore (pg_world g))) order"
  shows "prog_inv cd p em (xs @ [x]) (entries_lock q order g)"
proof (rule prog_inv_request [OF inv q(1)])
  let ?es = "Entries order (mstore (pg_world g))"
  let ?r = "(pg_reqs g ! q)\<lparr>rq_main := E_Range ?es\<rparr>"
  show "pg_reqs (entries_lock q order g) = (pg_reqs g)[q := ?r]" by (simp add: entries_lock_def)
  show "\<not> pg_panic (entries_lock q order g)" using inv by (simp add: entries_lock_def prog_inv_def)
  have "lock_inv g" using inv by (simp add: prog_inv_def)
  then show "lock_inv (entries_lock q order g)"
    using free q(1) by (auto simp: lock_inv_def entries_lock_def nth_list_update)
  have i: "req_inv cd p em xs g q (pg_reqs g ! q)" using inv q(1) by (simp add: prog_inv_def)
  have now: "seen cd p em (xs @ [x]) q g" by (rule seen_now [OF run]) (use q in \<open>simp add: during_def\<close>)
  note fresh = req_inv_fresh [OF i q(2)]
  have "covered cd p em (xs @ [x]) q ?r g order []" "rq_reader ?r = R_Recv" "rq_reply ?r = None"
    using now order fresh by (simp_all add: covered_def now_reading_def to_send_def tally_def fun_eq_iff)
  then show "req_inv cd p em (xs @ [x]) (entries_lock q order g) q ?r"
    unfolding req_inv_def by auto
qed simp

lemma prog_inv_send:
  assumes inv: "prog_inv cd p em xs g" and q: "q < length (pg_reqs g)" "rq_reader (pg_reqs g ! q) = R_Recv"
    "rq_main (pg_reqs g ! q) = E_Range (e # es)"
  shows "prog_inv cd p em (xs @ [x]) (entries_send q e es g)"
proof (rule prog_inv_request [OF inv q(1)])
  let ?r = "(pg_reqs g ! q)\<lparr>rq_main := E_Range es, rq_reader := R_Entry e\<rparr>"
  have i: "req_inv cd p em xs g q (pg_reqs g ! q)" using inv q(1) by (simp add: prog_inv_def)
  show "pg_reqs (entries_send q e es g) = (pg_reqs g)[q := ?r]" by (simp add: entries_send_def)
  show "\<not> pg_panic (entries_send q e es g)" using inv by (simp add: entries_send_def prog_inv_def)
  show "lock_inv (entries_send q e es g)"
    by (rule lock_inv_same [OF _ q(1), where r = ?r]) (use inv q in \<open>simp_all add: entries_send_def prog_inv_def\<close>)
  obtain h order old where c: "covered cd p em xs q (pg_reqs g ! q) h order old"
    "records (mstore (pg_world h)) = records (mstore (pg_world g))"
    using req_inv_covered [OF i] q(3) by auto
  have "covered cd p em (xs @ [x]) q ?r h order old"
    using covered_mono [OF c(1), of "[x]"] q(2,3) by (simp add: covered_def now_reading_def to_send_def)
  moreover have "rq_reply ?r = None" using req_invD(3) [OF i] q(3) by simp
  ultimately show "req_inv cd p em (xs @ [x]) (entries_send q e es g) q ?r"
    using c(2) unfolding req_inv_def by auto
qed simp

lemma prog_inv_close:
  assumes inv: "prog_inv cd p em xs g" and q: "q < length (pg_reqs g)" "rq_main (pg_reqs g ! q) = E_Range []"
  shows "prog_inv cd p em (xs @ [x]) (entries_close q g)"
proof (rule prog_inv_request [OF inv q(1)])
  let ?r = "(pg_reqs g ! q)\<lparr>rq_main := E_Wait\<rparr>"
  have i: "req_inv cd p em xs g q (pg_reqs g ! q)" using inv q(1) by (simp add: prog_inv_def)
  show "pg_reqs (entries_close q g) = (pg_reqs g)[q := ?r]" by (simp add: entries_close_def)
  show "\<not> pg_panic (entries_close q g)" using inv by (simp add: entries_close_def prog_inv_def)
  have "lock_inv g" using inv by (simp add: prog_inv_def)
  then have l: "pg_lock g = Some k \<longleftrightarrow> k < length (pg_reqs g) \<and> (\<exists>es. rq_main (pg_reqs g ! k) = E_Range es)" for k
    by (simp add: lock_inv_def)
  have "pg_lock g = Some q" using l [of q] q by simp
  then have "\<not> (k < length (pg_reqs g) \<and> (\<exists>es. rq_main (pg_reqs g ! k) = E_Range es))" if "k \<noteq> q" for k
    using l [of k] that by simp
  then show "lock_inv (entries_close q g)"
    using q(1) by (simp add: lock_inv_def entries_close_def nth_list_update)
  obtain h order old where c: "covered cd p em xs q (pg_reqs g ! q) h order old"
    by (rule req_inv_covered [OF i]) (use q(2) in auto)
  have "covered cd p em (xs @ [x]) q ?r h order old"
    using covered_mono [OF c, of "[x]"] q(2) by (simp add: covered_def now_reading_def to_send_def)
  moreover have "rq_reply ?r = None" using req_invD(3) [OF i] q(2) by simp
  ultimately show "req_inv cd p em (xs @ [x]) (entries_close q g) q ?r"
    unfolding req_inv_def by auto
qed simp

lemma read_entry_gnb:
  assumes "gnb_entry (pg_world g) e"
  shows "read_entry q e g = (case rq_call (pg_reqs g ! q) of
       Call_GetUes \<Rightarrow> set_req q ((pg_reqs g ! q)\<lparr>rq_reader := R_Recv, rq_ues := rq_ues (pg_reqs g ! q) @ [row_of (pg_world g) e]\<rparr>) g
     | Call_GetCells \<Rightarrow> set_req q ((pg_reqs g ! q)\<lparr>rq_reader := R_Recv,
         rq_result := incr (TgtCellID (stored (pg_world g) e)) (rq_result (pg_reqs g ! q))\<rparr>) g)"
proof -
  obtain gnb where "GetGNbUeid (RawUEID (stored (pg_world g) e)) = Some gnb"
    using assms by (auto simp: gnb_entry_def)
  then show ?thesis
    using gnb_entry_load [OF assms]
    by (cases "rq_call (pg_reqs g ! q)") (simp_all add: read_entry_def row_of_def Let_def)
qed

lemma prog_inv_read:
  assumes run: "prog_run cd p em xs prog_init = Some g" and inv: "prog_inv cd p em xs g"
    and q: "q < length (pg_reqs g)" "rq_reader (pg_reqs g ! q) = R_Entry e"
  shows "prog_inv cd p em (xs @ [x]) (read_entry q e g)"
proof -
  let ?r = "pg_reqs g ! q"
  have i: "req_inv cd p em xs g q ?r" using inv q(1) by (simp add: prog_inv_def)
  have main: "rq_main ?r \<noteq> E_Lock" "rq_main ?r \<noteq> E_Return"
    using req_inv_fresh(1) [OF i] req_invD(4) [OF i] q(2) by auto
  obtain h order old where c: "covered cd p em xs q ?r h order old"
    and rec: "\<And>es. rq_main ?r = E_Range es \<Longrightarrow> records (mstore (pg_world h)) = records (mstore (pg_world g))"
    using req_inv_covered [OF i main(1)] by blast
  have e: "gnb_entry (pg_world g) e" "same_ident (stored (pg_world h) e) (stored (pg_world g) e)"
    using covered_entry [OF c run, of e] q(2) by (simp_all add: now_reading_def)
  note read = read_entry_gnb [OF e(1), of q]
  have c': "covered cd p em (xs @ [x]) q ?r h order old" by (rule covered_mono [OF c])
  have "seen cd p em (xs @ [x]) q g" by (rule seen_now [OF run]) (use q main in \<open>simp add: during_def\<close>)
  then have row: "row_read cd p em (xs @ [x]) q (row_of (pg_world g) e) e" using e(1) by (auto simp: row_read_def)
  define r' where "r' = (case rq_call ?r of
       Call_GetUes \<Rightarrow> ?r\<lparr>rq_reader := R_Recv, rq_ues := rq_ues ?r @ [row_of (pg_world g) e]\<rparr>
     | Call_GetCells \<Rightarrow> ?r\<lparr>rq_reader := R_Recv, rq_result := incr (TgtCellID (stored (pg_world g) e)) (rq_result ?r)\<rparr>)"
  have h': "read_entry q e g = set_req q r' g" by (simp add: read r'_def split: nb_call.split)
  have r': "rq_main r' = rq_main ?r" "rq_reader r' = R_Recv" "rq_reply r' = rq_reply ?r" "rq_call r' = rq_call ?r"
    by (simp_all add: r'_def split: nb_call.split)
  have "covered cd p em (xs @ [x]) q r' h order (old @ [e])"
    using c' q(2) row e(2)
    by (auto simp: covered_def now_reading_def to_send_def r'_def same_ident_def incr_tally list_all2_appendI
        split: nb_call.splits)
  then have "req_inv cd p em (xs @ [x]) (set_req q r' g) q r'"
    using rec r' main req_invD(3) [OF i] unfolding req_inv_def by auto
  moreover have "lock_inv (set_req q r' g)"
    by (rule lock_inv_same [OF _ q(1), where r = r']) (use inv r' in \<open>simp_all add: prog_inv_def\<close>)
  ultimately show ?thesis
    unfolding h' using inv by (intro prog_inv_request [OF inv q(1)]) (simp_all add: prog_inv_def)
qed

lemma prog_inv_exit:
  assumes inv: "prog_inv cd p em xs g" and q: "q < length (pg_reqs g)" "rq_main (pg_reqs g ! q) = E_Wait"
    "rq_reader (pg_reqs g ! q) = R_Recv"
  shows "prog_inv cd p em (xs @ [x]) (reader_exit q g)"
proof (rule prog_inv_request [OF inv q(1)])
  let ?r = "(pg_reqs g ! q)\<lparr>rq_reader := R_Exit\<rparr>"
  have i: "req_inv cd p em xs g q (pg_reqs g ! q)" using inv q(1) by (simp add: prog_inv_def)
  show "pg_reqs (reader_exit q g) = (pg_reqs g)[q := ?r]" by (simp add: reader_exit_def)
  show "\<not> pg_panic (reader_exit q g)" using inv by (simp add: reader_exit_def prog_inv_def)
  show "lock_inv (reader_exit q g)"
    by (rule lock_inv_same [OF _ q(1), where r = ?r]) (use inv in \<open>simp_all add: reader_exit_def prog_inv_def\<close>)
  obtain h order old where c: "covered cd p em xs q (pg_reqs g ! q) h order old"
    using req_inv_covered [OF i] q(2) by auto
  have "covered cd p em (xs @ [x]) q ?r h order old"
    using covered_mono [OF c, of "[x]"] q(3) by (simp add: covered_def now_reading_def to_send_def)
  moreover have "rq_reply ?r = None" using req_invD(3) [OF i] q(2) by simp
  ultimately show "req_inv cd p em (xs @ [x]) (reader_exit q g) q ?r"
    using q(2) unfolding req_inv_def by auto
qed simp

lemma prog_inv_return:
  assumes inv: "prog_inv cd p em xs g" and q: "q < length (pg_reqs g)" "rq_main (pg_reqs g ! q) = E_Wait"
    "rq_reader (pg_reqs g ! q) = R_Exit" and corder: "range_order (rq_result (pg_reqs g ! q)) corder"
  shows "prog_inv cd p em (xs @ [x]) (nb_return q corder g)"
proof (rule prog_inv_request [OF inv q(1)])
  let ?reply = "case rq_call (pg_reqs g ! q) of Call_GetUes \<Rightarrow> UeList (rq_ues (pg_reqs g ! q))
    | Call_GetCells \<Rightarrow> CellList (cells_of corder (rq_result (pg_reqs g ! q)))"
  let ?r = "(pg_reqs g ! q)\<lparr>rq_main := E_Return, rq_reply := Some ?reply\<rparr>"
  have i: "req_inv cd p em xs g q (pg_reqs g ! q)" using inv q(1) by (simp add: prog_inv_def)
  show "pg_reqs (nb_return q corder g) = (pg_reqs g)[q := ?r]" by (simp add: nb_return_def Let_def)
  show "\<not> pg_panic (nb_return q corder g)" using inv by (simp add: nb_return_def Let_def prog_inv_def)
  show "lock_inv (nb_return q corder g)"
    by (rule lock_inv_same [OF _ q(1), where r = ?r]) (use inv q in \<open>simp_all add: nb_return_def Let_def prog_inv_def\<close>)
  obtain h order old where c: "covered cd p em xs q (pg_reqs g ! q) h order old"
    using req_inv_covered [OF i] q(2) by auto
  have "covered cd p em (xs @ [x]) q ?r h order old"
    using covered_mono [OF c, of "[x]"] q(2) by (simp add: covered_def now_reading_def to_send_def)
  moreover have "reply_of ?r ?reply" using corder by (auto simp: reply_of_def split: nb_call.split)
  ultimately show "req_inv cd p em (xs @ [x]) (nb_return q corder g) q ?r"
    using q(3) unfolding req_inv_def by auto
qed simp

lemma prog_inv_step:
  assumes "prog_run cd p em xs prog_init = Some g" "prog_inv cd p em xs g" "prog_exec cd p em x g = Some h"
  shows "prog_inv cd p em (xs @ [x]) h"
  using assms(3)
  by (cases rule: prog_exec_cases)
    (auto intro: prog_inv_app prog_inv_arrive prog_inv_lock prog_inv_send prog_inv_close prog_inv_read
      prog_inv_exit prog_inv_return assms(1,2))

lemma prog_run_inv: "prog_run cd p em xs prog_init = Some g \<Longrightarrow> prog_inv cd p em xs g"
proof (induction xs arbitrary: g rule: rev_induct)
  case (snoc x xs)
  then show ?case using prog_inv_step by (metis prog_run_snoc)
qed (simp add: prog_inv_init)

subsection \<open>A run\<close>

text \<open>Two requests arrive while a handover is under way. The first ranges over the store between
  the controller's \<open>Get\<close> and \<open>Put\<close>, and reads the state the controller sets meanwhile.\<close>

definition nb_up :: "unit prog_act list" where
  "nb_up = map G_App (app_up @ app_feed @ [P_Drain 0, P_Recv 0 0] @
     map P_Inner [A_Mon 0, A_Mon 0, A_Start 0 [0, 1], A_ToCtrl 0, A_Ctrl]) @
   [G_Arrive Call_GetUes, G_Arrive Call_GetCells, G_Lock 0 [sample_key], G_Send 0]"

definition nb_down :: "unit prog_act list" where
  "nb_down = [G_App (P_Inner A_Ctrl), G_Read 0, G_Close 0, G_App (P_Inner A_Ctrl), G_Exit 0, G_Return 0 [],
     G_Lock 1 [sample_key], G_Send 1, G_Close 1, G_Read 1, G_Exit 1, G_Return 1 [''c1'']]"

lemmas request_run_simps = prog_exec_def dead_def prog_init_def nb_arrive_def new_request_def set_req_def
  entries_lock_def entries_send_def entries_close_def read_entry_def reader_exit_def nb_return_def Entries_def

lemma range_order_one: "range_order [k \<mapsto> e] [k]" "range_order (\<lambda>x. None) []" "range_order Map.empty []"
  by (simp_all add: range_order_def)


lemma sample_stored: "GetGNbUeid (rq_ue sample_rq1) = Some sample_gnb" "TgtCellID (new_value sample_rq1 n) = ''c1''"
  "ue_row ((new_value sample_rq1 n)\<lparr>State := st\<rparr>) sample_gnb =
     \<lparr>UeInfo_UeId = ''7'', UeInfo_HoState = MHOState_String st, UeInfo_Cgi = ''c1''\<rparr>"
  by (simp_all add: sample_rq1_def sample_ue_def GetGNbUeid_def sample_gnb_def)
     (simp_all add: new_value_def ue_row_def GetAmfUeNgapId_def sample_rq1_def nil_get_def, code_simp)

lemma sample_incr: "incr c (\<lambda>x. None) = [c \<mapsto> 1]" "cells_of [c] [c \<mapsto> 1] = [\<lparr>CellInfo_Cgi = c, CellInfo_NumUes = 1\<rparr>]"
  by (simp_all add: incr_def cells_of_def)

lemma nb_run:
  "\<exists>g h. prog_run sample_codec sample_pdu sample_manager nb_up prog_init = Some g \<and>
    prog_run sample_codec sample_pdu sample_manager nb_down g = Some h \<and>
    map rq_main (pg_reqs g) = [E_Range [], E_Lock] \<and>
    map rq_call (pg_reqs h) = [Call_GetUes, Call_GetCells] \<and>
    map rq_reply (pg_reqs h) =
      [Some (UeList [\<lparr>UeInfo_UeId = ''7'', UeInfo_HoState = ''Approved'', UeInfo_Cgi = ''c1''\<rparr>]),
       Some (CellList [\<lparr>CellInfo_Cgi = ''c1'', CellInfo_NumUes = 1\<rparr>])]"
  by (simp add: nb_up_def app_up_def app_feed_def request_run_simps app_run_simps run_simps sample_watch sample_turn
      sample_request range_order_one nb_down_def sample_stored sample_incr)

text \<open>Every moment of a request agrees on who a row is about and where it is to go.\<close>

lemma seen_row:
  assumes run: "prog_run cd p em xs prog_init = Some g" and h: "seen cd p em xs q h" "gnb_entry (pg_world h) e"
    and row: "row_read cd p em xs q u e"
  shows "UeInfo_UeId u = UeInfo_UeId (row_of (pg_world h) e) \<and> UeInfo_Cgi u = UeInfo_Cgi (row_of (pg_world h) e)"
proof -
  obtain h' where h': "seen cd p em xs q h'" "gnb_entry (pg_world h') e" "u = row_of (pg_world h') e"
    using row by (auto simp: row_read_def)
  have "same_ident (stored (pg_world h) e) (stored (pg_world g) e)" "same_ident (stored (pg_world h') e) (stored (pg_world g) e)"
    using gnb_entry_le [OF h(2) seen_world(2) [OF h(1) run]] gnb_entry_le [OF h'(2) seen_world(2) [OF h'(1) run]]
    by simp_all
  then show ?thesis by (simp add: h'(3) row_of_def ue_row_def same_ident_def)
qed

text \<open>What a reply says of the moment its request took the lock.\<close>

lemma reply_moment:
  assumes run: "prog_run cd p em xs prog_init = Some g"
    and reply: "q < length (pg_reqs g)" "rq_reply (pg_reqs g ! q) = Some reply"
  obtains h order where "seen cd p em xs q h" "range_order (records (mstore (pg_world h))) order"
    "reply_of (pg_reqs g ! q) reply" "wf_world (pg_world h)"
    "rq_call (pg_reqs g ! q) = Call_GetUes \<longrightarrow>
       list_all2 (row_read cd p em xs q) (rq_ues (pg_reqs g ! q)) (Entries order (mstore (pg_world h)))"
    "rq_call (pg_reqs g ! q) = Call_GetCells \<longrightarrow> cell_counts order (pg_world h) = Ret (rq_result (pg_reqs g ! q))"
proof -
  let ?r = "pg_reqs g ! q"
  have i: "req_inv cd p em xs g q ?r" using prog_run_inv [OF run] reply(1) by (simp add: prog_inv_def)
  have ret: "rq_main ?r = E_Return" "reply_of ?r reply" "rq_reader ?r = R_Exit"
    using req_invD(4,5) [OF i] reply(2) by auto
  then obtain h order old where c: "covered cd p em xs q ?r h order old"
    using req_inv_covered [OF i] by auto
  then have h: "seen cd p em xs q h" "Entries order (mstore (pg_world h)) = old"
    using ret by (simp_all add: covered_def now_reading_def to_send_def)
  note wf = seen_world(1) [OF h(1)]
  show ?thesis
    by (rule that [where order = order, OF h(1) _ ret(2) wf]) (use c in \<open>simp_all add: covered_def cell_counts_tally [OF wf] h(2)\<close>)
qed

subsection \<open>Properties\<close>

text \<open>
  C10. While a request ranges over the store, it holds the lock and no other request ranges; the
  records are just those it listed when it took the lock, so what it has read, is reading and
  has still to send are together the records of the store now; and no step of the process,
  whichever goroutine takes it, changes a record.
\<close>

theorem entries_exclusive:
  assumes run: "prog_run cd p em xs prog_init = Some g"
    and q: "q < length (pg_reqs g)" "rq_main (pg_reqs g ! q) = E_Range es"
  shows "pg_lock g = Some q \<and>
    (\<forall>k es'. k < length (pg_reqs g) \<and> rq_main (pg_reqs g ! k) = E_Range es' \<longrightarrow> k = q) \<and>
    (\<exists>order old. range_order (records (mstore (pg_world g))) order \<and>
       Entries order (mstore (pg_world g)) = old @ now_reading (pg_reqs g ! q) @ es) \<and>
    (\<forall>x h. prog_exec cd p em x g = Some h \<longrightarrow> records (mstore (pg_world h)) = records (mstore (pg_world g)))"
proof (intro conjI allI impI)
  have inv: "prog_inv cd p em xs g" by (rule prog_run_inv [OF run])
  then have l: "pg_lock g = Some k \<longleftrightarrow> k < length (pg_reqs g) \<and> (\<exists>es. rq_main (pg_reqs g ! k) = E_Range es)" for k
    by (simp add: prog_inv_def lock_inv_def)
  show lock: "pg_lock g = Some q" using l [of q] q by simp
  show "k = q" if "k < length (pg_reqs g) \<and> rq_main (pg_reqs g ! k) = E_Range es'" for k es'
    using l [of k] lock that by simp
  have i: "req_inv cd p em xs g q (pg_reqs g ! q)" using inv q(1) by (simp add: prog_inv_def)
  obtain h order old where c: "covered cd p em xs q (pg_reqs g ! q) h order old"
    and rec: "records (mstore (pg_world h)) = records (mstore (pg_world g))"
    using req_inv_covered [OF i] q(2) by auto
  then have "range_order (records (mstore (pg_world g))) order"
    "Entries order (mstore (pg_world g)) = old @ now_reading (pg_reqs g ! q) @ es"
    using q(2) by (simp_all add: covered_def to_send_def Entries_def)
  then show "\<exists>order old. range_order (records (mstore (pg_world g))) order \<and>
       Entries order (mstore (pg_world g)) = old @ now_reading (pg_reqs g ! q) @ es"
    by blast
  show "records (mstore (pg_world h)) = records (mstore (pg_world g))" if "prog_exec cd p em x g = Some h" for x :: "'b prog_act" and h
    using that
  proof (cases rule: prog_exec_cases)
    case (app y a)
    then show ?thesis using unlocked_records [OF app(3)] lock by simp
  qed simp_all
qed

theorem entries_exclusive_witness:
  "\<exists>g. prog_run sample_codec sample_pdu sample_manager nb_up prog_init = Some g \<and> pg_lock g = Some 0 \<and>
    (\<forall>x :: unit prog_act. \<forall>h. prog_exec sample_codec sample_pdu sample_manager x g = Some h \<longrightarrow>
       records (mstore (pg_world h)) = records (mstore (pg_world g)))"
proof -
  obtain g where g: "prog_run sample_codec sample_pdu sample_manager nb_up prog_init = Some g"
    "map rq_main (pg_reqs g) = [E_Range [], E_Lock]" using nb_run by (elim exE conjE)
  have "length (map rq_main (pg_reqs g)) = 2" "map rq_main (pg_reqs g) ! 0 = E_Range []" unfolding g(2) by simp_all
  then have q: "0 < length (pg_reqs g)" "rq_main (pg_reqs g ! 0) = E_Range []" by simp_all
  note e = entries_exclusive [OF g(1) q]
  have "pg_lock g = Some 0" using e by (rule conjunct1)
  moreover have "\<forall>x :: unit prog_act. \<forall>h. prog_exec sample_codec sample_pdu sample_manager x g = Some h \<longrightarrow>
       records (mstore (pg_world h)) = records (mstore (pg_world g))"
    using e by (elim conjE)
  ultimately show ?thesis using g(1) by (intro exI [of _ g] conjI)
qed

text \<open>
  C3. Requests are linearizable. Whatever the other goroutines do meanwhile, the reply of a
  request describes the store at one moment while the request was being handled: \<open>GetCells\<close>
  replies what the sequential \<open>GetCells\<close> would have at that moment, and \<open>GetUes\<close> lists the UEs
  and cells the sequential \<open>GetUes\<close> would have; only the handover state in a row, which is
  read without the lock, may be that of another moment of the request.
\<close>

theorem requests_linearizable:
  assumes run: "prog_run cd p em xs prog_init = Some g"
    and reply: "q < length (pg_reqs g)" "rq_reply (pg_reqs g ! q) = Some reply"
  shows "\<exists>h order. seen cd p em xs q h \<and> range_order (records (mstore (pg_world h))) order \<and>
    (case rq_call (pg_reqs g ! q) of
       Call_GetCells \<Rightarrow>
         \<exists>result corder cells. cell_counts order (pg_world h) = Ret result \<and> range_order result corder \<and>
           GetCells order corder (pg_world h) = Ret cells \<and> reply = CellList cells
     | Call_GetUes \<Rightarrow>
         \<exists>ues. reply = UeList ues \<and>
           GetUes order (pg_world h) = Ret (map (row_of (pg_world h)) (Entries order (mstore (pg_world h)))) \<and>
           list_all2 (\<lambda>u e. UeInfo_UeId u = UeInfo_UeId (row_of (pg_world h) e) \<and>
               UeInfo_Cgi u = UeInfo_Cgi (row_of (pg_world h) e) \<and>
               (\<exists>h'. seen cd p em xs q h' \<and> gnb_entry (pg_world h') e \<and> u = row_of (pg_world h') e))
             ues (Entries order (mstore (pg_world h))))"
proof -
  let ?r = "pg_reqs g ! q"
  obtain h order where h: "seen cd p em xs q h" "range_order (records (mstore (pg_world h))) order"
    "reply_of ?r reply" "wf_world (pg_world h)"
    "rq_call ?r = Call_GetUes \<longrightarrow> list_all2 (row_read cd p em xs q) (rq_ues ?r) (Entries order (mstore (pg_world h)))"
    "rq_call ?r = Call_GetCells \<longrightarrow> cell_counts order (pg_world h) = Ret (rq_result ?r)"
    by (rule reply_moment [OF run reply]) (rule that)
  show ?thesis
  proof (cases "rq_call ?r")
    case Call_GetCells
    then obtain corder where "range_order (rq_result ?r) corder" "reply = CellList (cells_of corder (rq_result ?r))"
      using h(3) by (auto simp: reply_of_def)
    then show ?thesis
      by (intro exI [of _ h] exI [of _ order]) (use h(1,2,6) Call_GetCells in \<open>auto simp: GetCells_def\<close>)
  next
    case Call_GetUes
    have "gnb_entry (pg_world h) e" if "e \<in> set (Entries order (mstore (pg_world h)))" for e
      using Entries_gnb [OF h(4), of order] that by simp
    then have "list_all2 (\<lambda>u e. UeInfo_UeId u = UeInfo_UeId (row_of (pg_world h) e) \<and>
             UeInfo_Cgi u = UeInfo_Cgi (row_of (pg_world h) e) \<and>
             (\<exists>h'. seen cd p em xs q h' \<and> gnb_entry (pg_world h') e \<and> u = row_of (pg_world h') e))
        (rq_ues ?r) (Entries order (mstore (pg_world h)))"
      using h(5) [rule_format, OF Call_GetUes] seen_row [OF run h(1)] by (auto simp: list_all2_conv_all_nth row_read_def)
    then show ?thesis
      by (intro exI [of _ h] exI [of _ order])
        (use h(1-3) Call_GetUes in \<open>simp add: GetUes_rows [OF h(4)] reply_of_def\<close>)
  qed
qed

theorem requests_linearizable_witness:
  "\<exists>g h order. prog_run sample_codec sample_pdu sample_manager (nb_up @ nb_down) prog_init = Some g \<and>
    rq_reply (pg_reqs g ! 1) = Some (CellList [\<lparr>CellInfo_Cgi = ''c1'', CellInfo_NumUes = 1\<rparr>]) \<and>
    seen sample_codec sample_pdu sample_manager (nb_up @ nb_down) 1 h \<and>
    (\<exists>corder. GetCells order corder (pg_world h) = Ret [\<lparr>CellInfo_Cgi = ''c1'', CellInfo_NumUes = 1\<rparr>])"
proof -
  obtain g where g: "prog_run sample_codec sample_pdu sample_manager (nb_up @ nb_down) prog_init = Some g"
    "map rq_call (pg_reqs g) = [Call_GetUes, Call_GetCells]"
    "map rq_reply (pg_reqs g) =
      [Some (UeList [\<lparr>UeInfo_UeId = ''7'', UeInfo_HoState = ''Approved'', UeInfo_Cgi = ''c1''\<rparr>]),
       Some (CellList [\<lparr>CellInfo_Cgi = ''c1'', CellInfo_NumUes = 1\<rparr>])]"
    using nb_run by auto
  have "length (map rq_call (pg_reqs g)) = 2" using g(2) by simp
  then have l: "1 < length (pg_reqs g)" by simp
  have "map rq_call (pg_reqs g) ! 1 = Call_GetCells" "map rq_reply (pg_reqs g) ! 1 =
      Some (CellList [\<lparr>CellInfo_Cgi = ''c1'', CellInfo_NumUes = 1\<rparr>])" unfolding g by simp_all
  then have r: "rq_call (pg_reqs g ! 1) = Call_GetCells" "rq_reply (pg_reqs g ! 1) =
      Some (CellList [\<lparr>CellInfo_Cgi = ''c1'', CellInfo_NumUes = 1\<rparr>])" using l by simp_all
  show ?thesis using requests_linearizable [OF g(1) l r(2)] g(1) r by auto
qed

text \<open>
  The process refines the application: what the requests do between the steps of the
  application leaves no trace in it, so every run of the process, without the steps of the
  requests, is a run of the application to the same state, and what holds of the runs of the
  application holds of those of the process. Conversely every run of the application is one of
  the process, with no request.
\<close>

lemma program_refines_app:
  fixes xs :: "'f prog_act list" and ys :: "'f app_act list"
  shows "(prog_run cd p em xs prog_init = Some g \<longrightarrow> app_run cd p em (app_part xs) app_init = Some (pg_app g)) \<and>
    (app_run cd p em ys app_init = Some a \<longrightarrow>
       prog_run cd p em (map G_App ys) prog_init = Some (prog_init\<lparr>pg_app := a\<rparr>) \<and> app_part (map G_App ys) = ys)"
proof (intro conjI impI)
  show "app_run cd p em (app_part xs) app_init = Some (pg_app g)" if "prog_run cd p em xs prog_init = Some g"
    using prog_run_app [OF that] by (simp add: prog_init_def)
  show "prog_run cd p em (map G_App ys) prog_init = Some (prog_init\<lparr>pg_app := a\<rparr>)" if "app_run cd p em ys app_init = Some a"
    using app_run_prog [of cd p em ys prog_init a] that by (simp add: prog_init_def)
  show "app_part (map G_App ys) = ys" by (induction ys) simp_all
qed

end
