(* ===== verification/Mho_Replies.thy ===== *)
theory Mho_Replies
  imports Mho_Requests
begin

text \<open>
  That every request of the northbound service is answered: the steps left to the process are
  bounded by \<open>prog_work\<close>, every schedule can be run to its end, and at its end the lock of the
  store is free, every request has its reply, and the application itself is at rest.
\<close>

subsection \<open>Requests complete\<close>

fun prog_settling :: "'f prog_act \<Rightarrow> bool" where
  "prog_settling (G_App x) \<longleftrightarrow> settling x"
| "prog_settling (G_Arrive c) \<longleftrightarrow> False"
| "prog_settling _ \<longleftrightarrow> True"

definition prog_rest :: "codec \<Rightarrow> pdubuilder \<Rightarrow> e2_manager \<Rightarrow> prog \<Rightarrow> bool" where
  "prog_rest cd p em g \<longleftrightarrow> (\<forall>x :: unit prog_act. prog_settling x \<longrightarrow> prog_exec cd p em x g = None)"

text \<open>A step of the application stores at most one new key, so the records there may be when a
  request gets the lock are bounded by those there are and the work the application has left.\<close>

definition key_bound :: "prog \<Rightarrow> nat" where
  "key_bound g = card (dom (records (mstore (pg_world g)))) + app_work (pg_app g)"

fun main_work :: "nat \<Rightarrow> nb_main \<Rightarrow> nat" where
  "main_work n E_Lock = 2 * n + 4"
| "main_work n (E_Range es) = 2 * length es + 3"
| "main_work n E_Wait = 2"
| "main_work n E_Return = 0"

fun reader_work :: "nb_reader \<Rightarrow> nat" where
  "reader_work R_Recv = 1"
| "reader_work (R_Entry e) = 2"
| "reader_work R_Exit = 0"

definition req_work :: "nat \<Rightarrow> request \<Rightarrow> nat" where
  "req_work n r = main_work n (rq_main r) + reader_work (rq_reader r)"

definition prog_work :: "prog \<Rightarrow> nat" where
  "prog_work g = app_work (pg_app g) + sum_list (map (req_work (key_bound g)) (pg_reqs g))"

lemma step_dom:
  "monitor_step n mpc w = Ret (w', mpc') \<Longrightarrow> \<exists>k. dom (records (mstore w')) \<subseteq> insert k (dom (records (mstore w)))"
  "ctrl_step pc w = Ret (w', pc') \<Longrightarrow> \<exists>k. dom (records (mstore w')) \<subseteq> insert k (dom (records (mstore w)))"
  "node_step p n npc w = Ret (w', npc', out) \<Longrightarrow> \<exists>k. dom (records (mstore w')) \<subseteq> insert k (dom (records (mstore w)))"
  subgoal by (cases mpc) (auto simp: go_simps store_simps split: if_splits)
  subgoal by (cases pc) (auto simp: go_simps store_simps split: if_splits go.splits)
  subgoal by (cases npc) (auto simp: go_simps store_simps split: if_splits go.splits)
  done

lemma sys_step_dom:
  "sys_step cd p s t \<Longrightarrow> \<exists>k. dom (records (mstore (sys_world t))) \<subseteq> insert k (dom (records (mstore (sys_world s))))"
proof (induction rule: sys_step.induct)
  case (recv s j r)
  then show ?case by (auto simp: do_recv_def split: go.split)
next
  case (mon_move s j)
  then show ?case by (auto simp: do_mon_def Let_def dest: step_dom(1) split: go.split)
next
  case (ctrl_move s)
  then show ?case by (auto simp: do_ctrl_def dest: step_dom(2) split: go.split)
next
  case (node_move s j)
  then show ?case by (auto simp: do_node_def Let_def dest: step_dom(3) split: go.split)
qed (auto simp: do_connect_def do_watch_def do_ctrl_watch_def do_node_watch_def do_cancel_def do_unwatch_def
    unwatch_def do_close_def do_send_closed_def do_node_end_def do_mon_ctx_def do_send_start_def do_taken_def
    do_deliver_ctrl_def do_deliver_node_def Let_def store_simps)

lemma reachable_finite: "reachable cd p s \<Longrightarrow> finite (dom (records (mstore (sys_world s))))"
proof (induction rule: reachable.induct)
  case reach_init
  then show ?case by (simp add: sys_init_def new_world_def)
next
  case (reach_step s t)
  then show ?case using sys_step_dom by (meson finite_insert finite_subset)
qed

lemma app_exec_card:
  assumes "app_exec cd p em x a = Some b" "finite (dom (records (mstore (sys_world (app_sys a)))))"
  shows "card (dom (records (mstore (sys_world (app_sys b))))) \<le> Suc (card (dom (records (mstore (sys_world (app_sys a))))))"
proof (cases "needs_lock x a")
  case False
  then show ?thesis using unlocked_records [OF assms(1)] by simp
next
  case True
  then obtain y where "x = P_Inner y" by (cases x) auto
  with assms(1) have "sys_step cd p (app_sys a) (app_sys b)"
    by (auto simp: app_exec_def dest: exec_act_step split: if_splits option.splits)
  then obtain k where k: "dom (records (mstore (sys_world (app_sys b)))) \<subseteq> insert k (dom (records (mstore (sys_world (app_sys a)))))"
    using sys_step_dom by blast
  then have "card (dom (records (mstore (sys_world (app_sys b))))) \<le> card (insert k (dom (records (mstore (sys_world (app_sys a))))))"
    using assms(2) by (intro card_mono) simp_all
  then show ?thesis using card_insert_le_m1 assms(2) by (simp add: card_insert_if split: if_splits)
qed

lemma req_work_mono: "m \<le> n \<Longrightarrow> req_work m r \<le> req_work n r"
  by (cases "rq_main r") (simp_all add: req_work_def)

lemma request_works:
  assumes "q < length (pg_reqs g)" "pg_app h = pg_app g" "pg_reqs h = (pg_reqs g)[q := r]"
    and "req_work (key_bound g) r < req_work (key_bound g) (pg_reqs g ! q)"
  shows "prog_work h < prog_work g"
  using sum_list_map_update [OF assms(1), of "req_work (key_bound g)" r] assms(2-4)
  by (simp add: prog_work_def key_bound_def)

lemma lock_works:
  assumes "q < length (pg_reqs g)" "rq_main (pg_reqs g ! q) = E_Lock"
    and order: "range_order (records (mstore (pg_world g))) order"
  shows "prog_work (entries_lock q order g) < prog_work g"
proof -
  have "length (Entries order (mstore (pg_world g))) \<le> card (dom (records (mstore (pg_world g))))"
    using length_ranged [OF order] by (simp add: Entries_def)
  then show ?thesis
    using assms(2) by (intro request_works [OF assms(1),
      where r = "(pg_reqs g ! q)\<lparr>rq_main := E_Range (Entries order (mstore (pg_world g)))\<rparr>"])
      (simp_all add: entries_lock_def req_work_def key_bound_def)
qed

lemma read_works:
  assumes run: "prog_run cd p em xs prog_init = Some g" and q: "q < length (pg_reqs g)" "rq_reader (pg_reqs g ! q) = R_Entry e"
  shows "prog_work (read_entry q e g) < prog_work g"
proof -
  have inv: "req_inv cd p em xs g q (pg_reqs g ! q)" using prog_run_inv [OF run] q(1) by (simp add: prog_inv_def)
  have "rq_main (pg_reqs g ! q) \<noteq> E_Lock" using req_inv_fresh(1) [OF inv] q(2) by auto
  then obtain h order old where c: "covered cd p em xs q (pg_reqs g ! q) h order old"
    by (rule req_inv_covered [OF inv]) auto
  have "gnb_entry (pg_world g) e" using covered_entry(1) [OF c run, of e] q(2) by (simp add: now_reading_def)
  note r = read_entry_gnb [OF this, of q]
  show ?thesis
    using q(2) r request_works [OF q(1)] by (cases "rq_call (pg_reqs g ! q)") (simp_all add: req_work_def)
qed

lemma prog_works:
  assumes run: "prog_run cd p em xs prog_init = Some g" and step: "prog_exec cd p em x g = Some h" and x: "prog_settling x"
  shows "prog_work h < prog_work g"
proof -
  note i = prog_run_init [OF run]
  note fin = reachable_finite [OF i(2)]
  from step show ?thesis
  proof (cases rule: prog_exec_cases)
    case (app y a)
    have less: "app_work a < app_work (pg_app g)"
      using settling_works [OF app(3) _ i(1) reachable_chan_ok [OF i(2)]] x app(1) by simp
    then have "key_bound h \<le> key_bound g" using app_exec_card [OF app(3) fin] app(4) by (simp add: key_bound_def)
    then have "sum_list (map (req_work (key_bound h)) (pg_reqs h)) \<le> sum_list (map (req_work (key_bound g)) (pg_reqs g))"
      using app(4) by (simp add: sum_list_mono req_work_mono)
    then show ?thesis using less app(4) by (simp add: prog_work_def)
  next
    case (lock q order)
    then show ?thesis using lock_works by simp
  next
    case (send q e es)
    then show ?thesis
      by (intro request_works [OF send(2), where r = "(pg_reqs g ! q)\<lparr>rq_main := E_Range es, rq_reader := R_Entry e\<rparr>"])
        (simp_all add: entries_send_def req_work_def)
  next
    case (close q)
    then show ?thesis
      by (intro request_works [OF close(2), where r = "(pg_reqs g ! q)\<lparr>rq_main := E_Wait\<rparr>"])
        (simp_all add: entries_close_def req_work_def)
  next
    case (exit q)
    then show ?thesis
      by (intro request_works [OF exit(2), where r = "(pg_reqs g ! q)\<lparr>rq_reader := R_Exit\<rparr>"])
        (simp_all add: reader_exit_def req_work_def)
  next
    case (return q corder)
    have "\<exists>r. pg_reqs h = (pg_reqs g)[q := r] \<and> rq_main r = E_Return \<and> rq_reader r = R_Exit"
      using return by (simp add: nb_return_def Let_def) (metis (no_types, lifting) request.select_convs(2,3) request.surjective request.update_convs(2,6))
    then show ?thesis using return by (auto intro!: request_works [OF return(2)] simp: req_work_def)
  next
    case (read q e)
    then show ?thesis using read_works [OF run] by simp
  qed (use x in simp)
qed

lemma prog_bound:
  fixes xs zs :: "'f prog_act list"
  shows "prog_run cd p em xs prog_init = Some g \<Longrightarrow> prog_run cd p em zs g = Some h \<Longrightarrow> \<forall>z \<in> set zs. prog_settling z \<Longrightarrow>
   length zs + prog_work h \<le> prog_work g"
proof (induction zs arbitrary: xs g)
  case (Cons z zs)
  then obtain u where u: "prog_exec cd p em z g = Some u" "prog_run cd p em zs u = Some h"
    by (auto split: option.splits)
  have "prog_work u < prog_work g" using prog_works [OF Cons.prems(1) u(1)] Cons.prems(3) by simp
  moreover have "length zs + prog_work h \<le> prog_work u"
    using Cons.IH [of "xs @ [z]" u] Cons.prems(1,3) u by simp
  ultimately show ?case by simp
qed simp

subsection \<open>The type of a RAN function does not matter\<close>

text \<open>The application only looks at whether unmarshalling a RAN function fails.\<close>

definition forget :: "go_error + 'f \<Rightarrow> go_error + unit" where
  "forget r = (case r of Inl e \<Rightarrow> Inl e | Inr _ \<Rightarrow> Inr ())"

lemma forget_simps [simp]: "forget (Inl e) = Inl e" "forget (Inr x) = Inr ()"
  by (simp_all add: forget_def)

definition env_erase :: "'f e2_env \<Rightarrow> unit e2_env" where
  "env_erase v = \<lparr>env_pdu = env_pdu v, env_topo = env_topo v, env_ord = env_ord v,
     env_unmarshal = (\<lambda>m. forget (env_unmarshal v m)), env_Subscribe = env_Subscribe v\<rparr>"

fun app_erase :: "'f app_act \<Rightarrow> unit app_act" where
  "app_erase (P_Watch v) = P_Watch (env_erase v)"
| "app_erase (P_Event v ev) = P_Event (env_erase v) ev"
| "app_erase P_WatchClosed = P_WatchClosed"
| "app_erase (P_Request v j) = P_Request (env_erase v) j"
| "app_erase (P_Lookup j) = P_Lookup j"
| "app_erase (P_Create j) = P_Create j"
| "app_erase (P_FeedOpen j) = P_FeedOpen j"
| "app_erase (P_FeedSend j m) = P_FeedSend j m"
| "app_erase (P_FeedClosed j) = P_FeedClosed j"
| "app_erase (P_Drain r) = P_Drain r"
| "app_erase (P_Recv j i) = P_Recv j i"
| "app_erase (P_Inner y) = P_Inner y"

fun prog_erase :: "'f prog_act \<Rightarrow> unit prog_act" where
  "prog_erase (G_App x) = G_App (app_erase x)"
| "prog_erase (G_Arrive c) = G_Arrive c"
| "prog_erase (G_Lock q order) = G_Lock q order"
| "prog_erase (G_Send q) = G_Send q"
| "prog_erase (G_Close q) = G_Close q"
| "prog_erase (G_Read q) = G_Read q"
| "prog_erase (G_Exit q) = G_Exit q"
| "prog_erase (G_Return q corder) = G_Return q corder"

lemma env_erase_simps [simp]:
  "env_pdu (env_erase v) = env_pdu v" "env_topo (env_erase v) = env_topo v" "env_ord (env_erase v) = env_ord v"
  "env_unmarshal (env_erase v) = (\<lambda>m. forget (env_unmarshal v m))" "env_Subscribe (env_erase v) = env_Subscribe v"
  by (simp_all add: env_erase_def)

lemma erase_ran_function:
  "getRanFunction (\<lambda>m. forget (u m)) em ord sms = forget (getRanFunction u em ord sms)"
proof -
  have first: "first_ran_function (\<lambda>m. forget (u m)) fs = map_option forget (first_ran_function u fs)" for fs
    by (induction fs) simp_all
  have "ran_function_loop (\<lambda>m. forget (u m)) n sms' = forget (ran_function_loop u n sms')" for n sms'
    by (induction sms') (simp_all add: first split: option.split)
  then show ?thesis by (simp add: getRanFunction_def)
qed

lemma err_bind_forget: "err_bind (forget r) (\<lambda>_. k) = err_bind r (\<lambda>_. k)"
  by (cases r) simp_all

lemma erase_request: "request_subscription (env_erase v) em n = request_subscription v em n"
  by (simp add: request_subscription_def erase_ran_function err_bind_forget)

lemma erase_do: "app_do cd p em (app_erase x) a = app_do cd p em x a" "settling (app_erase x) = settling x"
  "needs_lock (app_erase x) a = needs_lock x a"
proof -
  have "topo_turn (env_erase v) ev = topo_turn v ev" for v :: "'a e2_env" and ev
    by (simp add: topo_turn_def cong: if_cong)
  moreover have "app_watch (env_erase v) em a = app_watch v em a" for v :: "'a e2_env"
    by (cases "EM_rnibClient em") (simp_all add: app_watch_def)
  ultimately show "app_do cd p em (app_erase x) a = app_do cd p em x a"
    by (cases x) (simp_all add: app_event_def sub_request_def erase_request)
  show "settling (app_erase x) = settling x" by (cases x) simp_all
  show "needs_lock (app_erase x) a = needs_lock x a"
  proof (cases x)
    case (P_Inner y)
    then show ?thesis by (cases y) simp_all
  qed simp_all
qed

lemma erase_exec: "prog_exec cd p em (prog_erase x) g = prog_exec cd p em x g"
  by (cases x) (simp_all add: prog_exec_def app_exec_def erase_do)

lemma erase_run: "prog_run cd p em (map prog_erase xs) g = prog_run cd p em xs g"
  by (induction xs arbitrary: g) (simp_all add: erase_exec split: option.split)

subsection \<open>Rest\<close>

lemma prog_rests:
  fixes xs :: "unit prog_act list"
  shows "prog_run cd p em xs prog_init = Some g \<Longrightarrow>
   \<exists>zs :: unit prog_act list. \<exists>h. prog_run cd p em zs g = Some h \<and> (\<forall>z \<in> set zs. prog_settling z) \<and> prog_rest cd p em h"
proof (induction "prog_work g" arbitrary: xs g rule: less_induct)
  case less
  show ?case
  proof (cases "prog_rest cd p em g")
    case True
    then show ?thesis by (intro exI [of _ "[]"] exI [of _ g]) simp
  next
    case False
    then obtain x :: "unit prog_act" and u where x: "prog_settling x" "prog_exec cd p em x g = Some u"
      by (auto simp: prog_rest_def)
    have run: "prog_run cd p em (xs @ [x]) prog_init = Some u" using less.prems x(2) by simp
    from less.hyps [OF prog_works [OF less.prems x(2,1)] run]
    obtain zs :: "unit prog_act list" and h where zs: "prog_run cd p em zs u = Some h"
      "\<forall>z \<in> set zs. prog_settling z" "prog_rest cd p em h" by blast
    then show ?thesis using x by (intro exI [of _ "x # zs"] exI [of _ h]) simp
  qed
qed

lemma prog_restD:
  assumes "prog_rest cd p em g" "\<not> dead g" "prog_settling (x :: unit prog_act)"
  shows "prog_do cd p em x g = None"
  using assms by (auto simp: prog_rest_def prog_exec_def)

lemma prog_restI:
  assumes "at_rest cd p em (pg_app g)"
    and "\<And>q. q < length (pg_reqs g) \<Longrightarrow> rq_main (pg_reqs g ! q) = E_Return \<and> rq_reader (pg_reqs g ! q) = R_Exit"
  shows "prog_rest cd p em g"
  unfolding prog_rest_def
proof (intro allI impI)
  fix x :: "unit prog_act"
  assume x: "prog_settling x"
  show "prog_exec cd p em x g = None"
  proof (cases x)
    case (G_App y)
    then show ?thesis using assms(1) x by (simp add: at_rest_def prog_exec_def)
  qed (use x assms(2) in \<open>auto simp: prog_exec_def\<close>)
qed

text \<open>The holder of the lock can always move.\<close>

lemma rest_unlocked:
  assumes inv: "prog_inv cd p em xs g" and rest: "prog_rest cd p em g" "\<not> dead g"
  shows "pg_lock g = None"
proof (rule ccontr)
  assume "pg_lock g \<noteq> None"
  then obtain q where "pg_lock g = Some q" by auto
  then obtain es where q: "q < length (pg_reqs g)" "rq_main (pg_reqs g ! q) = E_Range es"
    using inv by (auto simp: prog_inv_def lock_inv_def)
  then have i: "req_inv cd p em xs g q (pg_reqs g ! q)" using inv by (simp add: prog_inv_def)
  note no = prog_restD [OF rest]
  show False
  proof (cases "rq_reader (pg_reqs g ! q)")
    case R_Recv
    then show ?thesis using no [of "G_Send q"] no [of "G_Close q"] q by (cases es) simp_all
  next
    case (R_Entry e)
    then show ?thesis using no [of "G_Read q"] q by simp
  next
    case R_Exit
    then show ?thesis using req_invD(2) [OF i] q(2) by simp
  qed
qed

lemma req_inv_result:
  assumes "req_inv cd p em xs g q r" "rq_main r \<noteq> E_Lock"
  shows "finite (dom (rq_result r))"
proof -
  obtain h order old where "covered cd p em xs q r h order old"
    by (rule req_inv_covered [OF assms]) (rule that)
  moreover have "finite (dom (tally cs))" for cs
    by (rule finite_subset [of _ "set cs"]) (auto simp: tally_def split: if_splits)
  ultimately show ?thesis by (cases "rq_call r") (auto simp: covered_def)
qed

lemma rest_replied:
  assumes run: "prog_run cd p em xs prog_init = Some g" and rest: "prog_rest cd p em g" "\<not> dead g"
    and q: "q < length (pg_reqs g)"
  shows "rq_main (pg_reqs g ! q) = E_Return"
proof -
  note inv = prog_run_inv [OF run]
  note free = rest_unlocked [OF inv rest]
  note no = prog_restD [OF rest]
  have i: "req_inv cd p em xs g q (pg_reqs g ! q)" using inv q by (simp add: prog_inv_def)
  show ?thesis
  proof (cases "rq_main (pg_reqs g ! q)")
    case E_Lock
    obtain order where "range_order (records (mstore (pg_world g))) order"
      using range_order_exists [OF reachable_finite [OF prog_run_init(2) [OF run]]] by blast
    then show ?thesis using no [of "G_Lock q order"] q E_Lock free by simp
  next
    case (E_Range es)
    then have "pg_lock g = Some q" using inv q by (auto simp: prog_inv_def lock_inv_def)
    then show ?thesis using free by simp
  next
    case E_Wait
    obtain corder where "range_order (rq_result (pg_reqs g ! q)) corder"
      using range_order_exists [OF req_inv_result [OF i]] E_Wait by auto
    then show ?thesis
      using no [of "G_Read q"] no [of "G_Exit q"] no [of "G_Return q corder"] q E_Wait
      by (cases "rq_reader (pg_reqs g ! q)") auto
  qed
qed

lemma rest_app:
  assumes "prog_inv cd p em xs g" "prog_rest cd p em g" "\<not> dead g"
  shows "at_rest cd p em (pg_app g)"
  unfolding at_rest_def
proof (intro allI impI)
  fix x :: "unit app_act"
  assume "settling x"
  then show "app_exec cd p em x (pg_app g) = None"
    using prog_restD [OF assms(2,3), of "G_App x"] rest_unlocked [OF assms] by (simp split: option.splits)
qed

subsection \<open>A request at rest\<close>

text \<open>The requests and their kinds stay where they are.\<close>

lemma set_call:
  assumes "rq_call r = rq_call (rs ! q)"
  shows "map rq_call (rs[q := r]) = map rq_call rs"
proof (cases "q < length rs")
  case True
  then have "(map rq_call rs)[q := rq_call (rs ! q)] = map rq_call rs" by (metis list_update_id nth_map)
  then show ?thesis using assms by (simp add: map_update)
qed (simp add: list_update_beyond)

lemma read_entry_calls: "map rq_call (pg_reqs (read_entry q e g)) = map rq_call (pg_reqs g)"
proof (cases "load (Value e) (pg_world g)")
  case (Ret v)
  then show ?thesis
    by (cases "GetGNbUeid (RawUEID v)"; cases "rq_call (pg_reqs g ! q)") (simp_all add: read_entry_def set_call)
qed (simp_all add: read_entry_def)

lemma prog_exec_calls:
  assumes "prog_exec cd p em x g = Some h"
  shows "\<exists>cs. map rq_call (pg_reqs h) = map rq_call (pg_reqs g) @ cs"
  using assms
proof (cases rule: prog_exec_cases)
  case (arrive c)
  then show ?thesis by (simp add: nb_arrive_def)
qed (simp_all add: entries_lock_def entries_send_def entries_close_def read_entry_calls reader_exit_def nb_return_def
    Let_def set_call)

lemma prog_run_calls:
  "prog_run cd p em xs g = Some h \<Longrightarrow> \<exists>cs. map rq_call (pg_reqs h) = map rq_call (pg_reqs g) @ cs"
proof (induction xs arbitrary: g)
  case (Cons x xs)
  then obtain u where u: "prog_exec cd p em x g = Some u" "prog_run cd p em xs u = Some h"
    by (auto split: option.splits)
  then show ?case using prog_exec_calls [OF u(1)] Cons.IH [OF u(2)] by auto
qed simp

text \<open>While the application is at rest, requests do not wake it.\<close>

lemma rest_stays:
  "prog_run cd p em zs g = Some h \<Longrightarrow> at_rest cd p em (pg_app g) \<Longrightarrow>
   \<forall>z \<in> set zs. prog_settling z \<or> (\<exists>c. z = G_Arrive c) \<Longrightarrow> pg_app h = pg_app g"
proof (induction zs arbitrary: g)
  case (Cons z zs)
  then obtain u where u: "prog_exec cd p em z g = Some u" "prog_run cd p em zs u = Some h"
    by (auto split: option.splits)
  from u(1) have "pg_app u = pg_app g"
  proof (cases rule: prog_exec_cases)
    case (app y a)
    then have "settling (app_erase y)" using Cons.prems(3) by (simp add: erase_do)
    then have "app_exec cd p em y (pg_app g) = None"
      using Cons.prems(2) unfolding at_rest_def by (metis app_exec_def erase_do(1))
    then show ?thesis using app(3) by simp
  qed simp_all
  then show ?case using Cons.IH [OF u(2)] Cons.prems(2,3) by simp
qed simp

text \<open>What \<open>handed_over_at_rest\<close> says of the process.\<close>

lemma delivered_table:
  fixes us xs :: "'f prog_act list"
  assumes up: "prog_run cd p em us prog_init = Some g0" "sys_ctrl (app_sys (pg_app g0)) \<noteq> C_Init"
      "j < length (sys_nodes (app_sys (pg_app g0)))" "np_pc (sys_nodes (app_sys (pg_app g0)) ! j) \<noteq> N_Init"
      "key_inds k (sys_inds (app_sys (pg_app g0))) = []"
    and run: "prog_run cd p em xs g0 = Some g"
    and live: "\<not> app_panic (pg_app g)" "sys_crash (app_sys (pg_app g)) = None"
      "undisturbed p k n j rq (app_sys (pg_app g))"
    and ind: "(r, i, ind) \<in> set (app_fed (pg_app g))" "parse_indication cd ind = Ret rq'" "rq_key rq' = k"
      "\<not> blocked (mp_loop (sys_mons (app_sys (pg_app g)) ! i))" and cd: "empty_decodes cd"
    and rest: "at_rest cd p em (pg_app g)"
  shows "ue_table (pg_world g) k = Some (rq_tgt rq', Done)"
proof -
  have whole: "prog_run cd p em (us @ xs) prog_init = Some g" using up(1) run by simp
  note i0 = prog_run_init [OF up(1)] and i = prog_run_init [OF whole]
  have run: "app_run cd p em (app_part xs) (pg_app g0) = Some (pg_app g)" by (rule prog_run_app [OF run])
  have "app_run cd p em (app_part (us @ xs)) app_init = Some (pg_app g)"
    using prog_run_app [OF whole] by (simp add: prog_init_def)
  then have inds: "inds_ok cd (pg_app g)" "streams_open (pg_app g)"
    using app_runs_init(3) cd streams_open_run [OF _ app_ok_init streams_open_init] by blast+
  show ?thesis using handed_over_at_rest [OF i0(1,2) up(2-5) run i(1,2) inds live ind rest] by simp
qed

lemma seen_at_rest:
  assumes g: "prog_run cd p em xs prog_init = Some g" "at_rest cd p em (pg_app g)"
    and zs: "\<forall>z \<in> set zs. prog_settling z \<or> (\<exists>c. z = G_Arrive c)"
    and seen: "seen cd p em (xs @ zs) q h" "length (pg_reqs g) \<le> q"
  shows "pg_app h = pg_app g"
proof -
  obtain ys us where h: "xs @ zs = ys @ us" "prog_run cd p em ys prog_init = Some h" "q < length (pg_reqs h)"
    using seen(1) by (auto simp: seen_def during_def)
  then consider vs where "xs = ys @ vs" | vs where "ys = xs @ vs" "zs = vs @ us"
    by (auto simp: append_eq_append_conv2)
  then show ?thesis
  proof cases
    case 1
    then have "prog_run cd p em vs h = Some g" using g(1) h(2) by simp
    from prog_run_calls [OF this] have "length (map rq_call (pg_reqs h)) \<le> length (map rq_call (pg_reqs g))"
      by (elim exE) (simp only: length_append)
    then show ?thesis using h(3) seen(2) by simp
  next
    case 2
    then have "prog_run cd p em vs g = Some h" using g(1) h(2) by simp
    then show ?thesis by (rule rest_stays [OF _ g(2)]) (use zs 2(2) in auto)
  qed
qed

lemma arrived_call:
  assumes "prog_run cd p em (G_Arrive c # zs) g = Some h"
  shows "length (pg_reqs g) < length (pg_reqs h)" "rq_call (pg_reqs h ! length (pg_reqs g)) = c"
proof -
  obtain u where u: "prog_exec cd p em (G_Arrive c :: 'a prog_act) g = Some u" "prog_run cd p em zs u = Some h"
    using assms by (auto split: option.splits)
  then have "map rq_call (pg_reqs u) = map rq_call (pg_reqs g) @ [c]"
    by (auto simp: prog_exec_def nb_arrive_def new_request_def split: if_splits)
  then obtain cs where "map rq_call (pg_reqs h) = (map rq_call (pg_reqs g) @ [c]) @ cs"
    using prog_run_calls [OF u(2)] by auto
  then have "length (pg_reqs g) < length (map rq_call (pg_reqs h))" "map rq_call (pg_reqs h) ! length (pg_reqs g) = c"
    by (simp_all only:) (simp_all add: nth_append)
  then show "length (pg_reqs g) < length (pg_reqs h)" "rq_call (pg_reqs h ! length (pg_reqs g)) = c" by simp_all
qed

text \<open>Every moment of a request that arrives at rest is the same moment.\<close>

lemma reply_at_rest:
  fixes xs zs :: "'f prog_act list"
  assumes g: "prog_run cd p em xs prog_init = Some g" "at_rest cd p em (pg_app g)"
    and zs: "\<forall>z \<in> set zs. prog_settling z \<or> (\<exists>c. z = G_Arrive c)" and h: "prog_run cd p em zs g = Some h"
    and q: "length (pg_reqs g) \<le> q" "q < length (pg_reqs h)" "rq_call (pg_reqs h ! q) = Call_GetUes"
      "rq_reply (pg_reqs h ! q) = Some reply"
  shows "\<exists>order. range_order (records (mstore (pg_world g))) order \<and> reply = UeList (map (row_at (pg_world g)) order)"
proof -
  have whole: "prog_run cd p em (xs @ zs) prog_init = Some h" using g(1) h by simp
  obtain m order where m: "seen cd p em (xs @ zs) q m" "range_order (records (mstore (pg_world m))) order"
    "reply_of (pg_reqs h ! q) reply"
    "list_all2 (row_read cd p em (xs @ zs) q) (rq_ues (pg_reqs h ! q)) (Entries order (mstore (pg_world m)))"
    by (rule reply_moment [OF whole q(2,4)]) (use q(3) that in blast)
  have at_g: "pg_app m' = pg_app g" if "seen cd p em (xs @ zs) q m'" for m'
    by (rule seen_at_rest [OF g zs that q(1)])
  have "u = row_of (pg_world g) e" if "row_read cd p em (xs @ zs) q u e" for u e
    using that at_g unfolding row_read_def by metis
  then have "rq_ues (pg_reqs h ! q) = map (row_of (pg_world g)) (Entries order (mstore (pg_world g)))"
    using m(4) by (simp only: at_g [OF m(1)] list_all2_conv_all_nth list_eq_iff_nth_eq length_map) simp
  moreover have "range_order (records (mstore (pg_world g))) order" using m(2) by (simp add: at_g [OF m(1)])
  ultimately show ?thesis using m(3) q(3) by (auto simp: reply_of_def rows_at)
qed

subsection \<open>Properties\<close>

text \<open>
  C4. Every request is answered. After any run, once the topology service and the E2 SDK bring
  nothing more and no further request arrives, every schedule of the process is bounded, and
  some schedule reaches rest. At rest without a crash the lock of the store is free, every
  request has been replied to, and the application is at rest too: the requests cannot keep it
  from its work.
\<close>

theorem requests_complete:
  fixes xs zs :: "'f prog_act list"
  assumes run: "prog_run cd p em xs prog_init = Some g"
    and settle: "prog_run cd p em zs g = Some h" "\<forall>z \<in> set zs. prog_settling z"
  shows "length zs \<le> prog_work g \<and>
    (\<exists>ys :: unit prog_act list. \<exists>k. prog_run cd p em ys h = Some k \<and> (\<forall>y \<in> set ys. prog_settling y) \<and>
       prog_rest cd p em k) \<and>
    (prog_rest cd p em h \<longrightarrow> \<not> app_panic (pg_app h) \<longrightarrow> sys_crash (app_sys (pg_app h)) = None \<longrightarrow>
       pg_lock h = None \<and> (\<forall>q < length (pg_reqs h). rq_reply (pg_reqs h ! q) \<noteq> None) \<and> at_rest cd p em (pg_app h))"
proof (intro conjI impI allI)
  have whole: "prog_run cd p em (xs @ zs) prog_init = Some h" using run settle(1) by simp
  show "length zs \<le> prog_work g" using prog_bound [OF run settle] by simp
  have "prog_run cd p em (map prog_erase (xs @ zs)) prog_init = Some h" using whole by (simp only: erase_run)
  then show "\<exists>ys :: unit prog_act list. \<exists>k. prog_run cd p em ys h = Some k \<and> (\<forall>y \<in> set ys. prog_settling y) \<and>
       prog_rest cd p em k" by (rule prog_rests)
  note inv = prog_run_inv [OF whole]
  assume rest: "prog_rest cd p em h" and "\<not> app_panic (pg_app h)" "sys_crash (app_sys (pg_app h)) = None"
  then have live: "\<not> dead h" using inv by (simp add: dead_def prog_inv_def)
  show "pg_lock h = None" by (rule rest_unlocked [OF inv rest live])
  show "at_rest cd p em (pg_app h)" by (rule rest_app [OF inv rest live])
  show "rq_reply (pg_reqs h ! q) \<noteq> None" if q: "q < length (pg_reqs h)" for q
    using rest_replied [OF whole rest live q] inv q by (auto simp: prog_inv_def req_inv_def)
qed

theorem requests_complete_witness:
  "\<exists>g h. prog_run sample_codec sample_pdu sample_manager nb_up prog_init = Some g \<and>
    prog_run sample_codec sample_pdu sample_manager nb_down g = Some h \<and> 12 \<le> prog_work g \<and>
    (\<exists>ys :: unit prog_act list. \<exists>k. prog_run sample_codec sample_pdu sample_manager ys h = Some k \<and>
       prog_rest sample_codec sample_pdu sample_manager k)"
proof -
  obtain g h where run: "prog_run sample_codec sample_pdu sample_manager nb_up prog_init = Some g"
    "prog_run sample_codec sample_pdu sample_manager nb_down g = Some h" using nb_run by blast
  have "\<forall>z \<in> set nb_down. prog_settling z" "length nb_down = 12" by (simp_all add: nb_down_def)
  then show ?thesis using requests_complete [OF run] run by fastforce
qed

text \<open>
  C1. From the E2 SDK to the northbound reply. Let the controller and the watcher of a node be
  registered before an indication of an undisturbed UE key is accepted, let an indication of the
  key have gone into the node's stream, with a monitor that still reads, and let the process
  have come to rest, with whatever requests it handled meanwhile. Then a \<open>GetUes\<close> that arrives
  is answered, however its steps and those of other requests interleave, and its reply lists
  every UE of the store once, the UE of the indication with its target cell and the state Done.
\<close>

theorem handover_reported:
  fixes us xs zs :: "'f prog_act list"
  assumes up: "prog_run cd p em us prog_init = Some g0" "sys_ctrl (app_sys (pg_app g0)) \<noteq> C_Init"
      "j < length (sys_nodes (app_sys (pg_app g0)))" "np_pc (sys_nodes (app_sys (pg_app g0)) ! j) \<noteq> N_Init"
      "key_inds k (sys_inds (app_sys (pg_app g0))) = []"
    and run: "prog_run cd p em xs g0 = Some g" "prog_rest cd p em g"
    and live: "\<not> app_panic (pg_app g)" "sys_crash (app_sys (pg_app g)) = None"
      "undisturbed p k n j rq (app_sys (pg_app g))"
    and ind: "(r, i, ind) \<in> set (app_fed (pg_app g))" "parse_indication cd ind = Ret rq'" "rq_key rq' = k"
      "\<not> blocked (mp_loop (sys_mons (app_sys (pg_app g)) ! i))" and cd: "empty_decodes cd"
    and ask: "prog_run cd p em (G_Arrive Call_GetUes # zs) g = Some h" "prog_rest cd p em h"
      "\<forall>z \<in> set zs. prog_settling z \<or> (\<exists>c. z = G_Arrive c)"
  shows "\<exists>order row. rq_reply (pg_reqs h ! length (pg_reqs g)) = Some (UeList (map row order)) \<and>
    distinct order \<and> set order = dom (ue_table (pg_world g)) \<and> k \<in> set order \<and>
    UeInfo_Cgi (row k) = rq_tgt rq' \<and> UeInfo_HoState (row k) = ''Done'' \<and>
    (\<exists>gnb. GenerateGnbUeIDString gnb = k \<and> UeInfo_UeId (row k) = dec_int (GetAmfUeNgapId gnb))"
proof -
  let ?q = "length (pg_reqs g)" and ?zs = "G_Arrive Call_GetUes # zs"
  have g: "prog_run cd p em (us @ xs) prog_init = Some g" using up(1) run(1) by simp
  have h: "prog_run cd p em ((us @ xs) @ ?zs) prog_init = Some h"
    unfolding prog_run_append [of cd p em "us @ xs"] g using ask(1) by simp
  have zs: "\<forall>z \<in> set ?zs. prog_settling z \<or> (\<exists>c. z = G_Arrive c)" using ask(3) by auto
  have "\<not> dead g" using prog_run_inv [OF g] live(1,2) by (simp add: dead_def prog_inv_def)
  then have rest: "at_rest cd p em (pg_app g)" by (rule rest_app [OF prog_run_inv [OF g] run(2)])
  then have "pg_app h = pg_app g" by (rule rest_stays [OF ask(1) _ zs])
  then have "\<not> dead h" using prog_run_inv [OF h] live(1,2) by (simp add: dead_def prog_inv_def)
  note q = arrived_call [OF ask(1)]
  have "rq_main (pg_reqs h ! ?q) = E_Return" by (rule rest_replied [OF h ask(2) \<open>\<not> dead h\<close> q(1)])
  then obtain reply where reply: "rq_reply (pg_reqs h ! ?q) = Some reply"
    using prog_run_inv [OF h] q(1) by (auto simp: prog_inv_def req_inv_def)
  obtain order where order: "range_order (records (mstore (pg_world g))) order"
    "reply = UeList (map (row_at (pg_world g)) order)"
    using reply_at_rest [OF g rest zs ask(1) _ q reply] by auto
  have table: "ue_table (pg_world g) k = Some (rq_tgt rq', Done)"
    by (rule delivered_table [OF up(1-5) run(1) live ind cd rest])
  have "MHOState_String Done = ''Done''" by (simp add: MHOState_String_def)
  moreover have "set order = dom (ue_table (pg_world g))" "distinct order"
    using order(1) by (simp_all add: range_order_def dom_ue_table)
  ultimately show ?thesis
    using row_at_table [OF prog_run_init(4) [OF g] table] table reply order(2) by auto
qed

text \<open>A request after the run of \<open>app_deliver\<close> has come to rest.\<close>

definition nb_ask :: "unit prog_act list" where
  "nb_ask = [G_Lock 0 [sample_key], G_Send 0, G_Read 0, G_Close 0, G_Exit 0, G_Return 0 []]"

lemma nb_ask_run:
  assumes "records (mstore (pg_world g)) = [sample_key \<mapsto> \<lparr>Key = sample_key, Value = 0\<rparr>]"
    and "heap (pg_world g) = [(new_value sample_rq1 ''n1'')\<lparr>State := Done\<rparr>]"
    and "pg_reqs g = []" "pg_lock g = None" "\<not> dead g"
  shows "\<exists>h. prog_run sample_codec sample_pdu sample_manager (G_Arrive Call_GetUes # nb_ask) g = Some h \<and>
    pg_app h = pg_app g \<and> length (pg_reqs h) = 1 \<and> rq_main (pg_reqs h ! 0) = E_Return \<and> rq_reader (pg_reqs h ! 0) = R_Exit \<and>
    rq_reply (pg_reqs h ! 0) = Some (UeList [\<lparr>UeInfo_UeId = ''7'', UeInfo_HoState = ''Done'', UeInfo_Cgi = ''c1''\<rparr>])"
  using assms by (simp add: nb_ask_def request_run_simps range_order_one sample_stored load_def)

theorem handover_reported_witness:
  "\<exists>g h order row. prog_run sample_codec sample_pdu sample_manager (G_Arrive Call_GetUes # nb_ask) g = Some h \<and>
    rq_reply (pg_reqs h ! 0) = Some (UeList (map row order)) \<and> set order = {sample_key} \<and>
    UeInfo_Cgi (row sample_key) = ''c1'' \<and> UeInfo_HoState (row sample_key) = ''Done''"
proof -
  obtain a b c where run: "app_run sample_codec sample_pdu sample_manager app_up app_init = Some a"
    "app_run sample_codec sample_pdu sample_manager app_feed a = Some b"
    "app_run sample_codec sample_pdu sample_manager app_deliver b = Some c"
    and up: "sys_ctrl (app_sys a) \<noteq> C_Init" "0 < length (sys_nodes (app_sys a))"
      "np_pc (sys_nodes (app_sys a) ! 0) \<noteq> N_Init" "key_inds sample_key (sys_inds (app_sys a)) = []"
    and c: "\<not> app_panic c" "sys_crash (app_sys c) = None"
      "undisturbed sample_pdu sample_key ''n1'' 0 sample_rq1 (app_sys c)"
      "(0, 0, sample_ind 1) \<in> set (app_fed c)" "\<not> blocked (mp_loop (sys_mons (app_sys c) ! 0))"
      "records (mstore (sys_world (app_sys c))) = [sample_key \<mapsto> \<lparr>Key = sample_key, Value = 0\<rparr>]"
      "heap (sys_world (app_sys c)) = [(new_value sample_rq1 ''n1'')\<lparr>State := Done\<rparr>]"
      "at_rest sample_codec sample_pdu sample_manager c"
    using app_up_run by blast
  let ?g = "\<lambda>a. prog_init\<lparr>pg_app := a\<rparr>"
  have g: "pg_app (?g c) = c" "pg_reqs (?g c) = []" "pg_lock (?g c) = None" "\<not> dead (?g c)"
    using c(1,2) by (simp_all add: prog_init_def dead_def)
  obtain h where h: "prog_run sample_codec sample_pdu sample_manager (G_Arrive Call_GetUes # nb_ask) (?g c) = Some h"
    "pg_app h = c" "length (pg_reqs h) = 1" "rq_main (pg_reqs h ! 0) = E_Return" "rq_reader (pg_reqs h ! 0) = R_Exit"
    using nb_ask_run [of "?g c"] g c(6,7) by auto
  have up': "prog_run sample_codec sample_pdu sample_manager (map G_App app_up) prog_init = Some (?g a)"
    using app_run_prog [of _ _ _ app_up prog_init a] run(1) by (simp add: prog_init_def)
  have run': "prog_run sample_codec sample_pdu sample_manager (map G_App (app_feed @ app_deliver)) (?g a) = Some (?g c)"
    using app_run_prog [of _ _ _ "app_feed @ app_deliver" "?g a" c] app_run_append [OF run(2,3)] by (simp add: prog_init_def)
  have rest: "prog_rest sample_codec sample_pdu sample_manager (?g c)" "prog_rest sample_codec sample_pdu sample_manager h"
    using c(8) g h by (intro prog_restI; simp)+
  have settle: "\<forall>z \<in> set nb_ask. prog_settling z \<or> (\<exists>c. z = G_Arrive c)" by (simp add: nb_ask_def)
  have "ue_table (sys_world (app_sys c)) = [sample_key \<mapsto> (''c1'', Done)]"
    by (simp add: ue_table_def c(6,7) new_value_def fun_eq_iff)
  then show ?thesis
    using handover_reported [OF up' _ _ _ _ run' rest(1) _ _ _ _ sample_parse(1) _ _ sample_empty h(1) rest(2) settle,
        where j = 0 and k = sample_key and n = "''n1''" and rq = sample_rq1 and r = 0 and i = 0] up c(1-5) h(1) g by auto
qed

end
