(* ===== verification/Mho_Bounds.thy ===== *)
theory Mho_Bounds
  imports Mho_Mailbox
begin

text \<open>
  How many control messages there can be. Store, controller and southbound form a loop: the
  southbound answers an event of the store with a control message and another event. The
  goroutines of \<open>Send\<close> that have started are never forgotten by the model, so all the events
  there ever were can be counted (\<open>past\<close>). Each counted event that asks for a handover pays for
  one approval, each approval for one control message per watcher of its node; what a reader
  may still use of this is \<open>ahead\<close> of it. The counts hold also after the cancellation, when
  watchers are lost, and for watchers that join a range under way.
\<close>

definition asks :: "event \<Rightarrow> bool" where
  "asks e \<longleftrightarrow> EventMHOState e = StateCreated \<or> EventMHOState e = Denied"

definition grants :: "event \<Rightarrow> bool" where
  "grants e \<longleftrightarrow> EventMHOState e = Approved"

definition past :: "(event \<Rightarrow> bool) \<Rightarrow> sys \<Rightarrow> nat" where
  "past P s = length (filter P (sends (mstore (sys_world s)))) + length (filter P (map fst (sys_active s)))"

text \<open>How often the channel \<open>c\<close> is still to be offered the event of a goroutine: one that nobody
  reads yet (\<open>r\<close> is false) may be added to the range.\<close>

definition visits :: "(event \<Rightarrow> bool) \<Rightarrow> bool \<Rightarrow> chan \<Rightarrow> event \<times> chan list \<Rightarrow> nat" where
  "visits P r c x = (if P (fst x) then if r then count_list (snd x) c else 1 else 0)"

definition ahead :: "(event \<Rightarrow> bool) \<Rightarrow> chan \<Rightarrow> sys \<Rightarrow> nat" where
  "ahead P c s = length (filter P (sends (mstore (sys_world s)))) +
     sum_list (map (visits P (reader_ok s c) c) (sys_active s))"

fun ctrl_owes :: "ctrl_pc \<Rightarrow> nat" where
  "ctrl_owes (C_Event e) = (if asks e then 1 else 0)"
| "ctrl_owes (C_Got e a) = (if asks e then 1 else 0)"
| "ctrl_owes (C_Put e a) = 1"
| "ctrl_owes _ = 0"

fun node_owes :: "node_pc \<Rightarrow> nat" where
  "node_owes (N_Event e) = (if grants e then 1 else 0)"
| "node_owes (N_Got e a) = (if grants e then 1 else 0)"
| "node_owes _ = 0"

definition busy :: "sys \<Rightarrow> nat" where
  "busy s = sum_list (map (\<lambda>m. if mp_pc m = M_Idle then 0 else 1) (sys_mons s))"

definition sent_count :: "node_id \<Rightarrow> sys \<Rightarrow> nat" where
  "sent_count n s = length (filter (\<lambda>c. cm_node c = n) (sys_controls s))"

definition connections :: "node_id \<Rightarrow> sys \<Rightarrow> nat" where
  "connections n s = count_list (map np_node (sys_nodes s)) n"

definition node_ahead :: "node_id \<Rightarrow> sys \<Rightarrow> nat" where
  "node_ahead n s = sum_list (map (\<lambda>m. if np_node m = n then ahead grants (np_chan m) s + node_owes (np_pc m) else 0) (sys_nodes s))"

subsection \<open>At most one watcher heads for a channel\<close>

definition single_ok :: "sys \<Rightarrow> bool" where
  "single_ok s \<longleftrightarrow> (\<forall>c. \<exists>i. heads_for c (watchers (mstore (sys_world s))) \<subseteq> {i})"

lemma single_ok_same:
  "watchers (mstore (sys_world t)) = watchers (mstore (sys_world s)) \<Longrightarrow> single_ok s \<Longrightarrow> single_ok t"
  by (simp add: single_ok_def)

lemma single_ok_watch:
  assumes ok: "chan_ok s" "single_ok s" and new: "\<not> reader_ok s ch" and i: "i \<notin> dom (watchers (mstore (sys_world s)))"
    and w: "watchers (mstore (sys_world t)) = watchers (mstore (sys_world (do_watch i ch late s)))"
  shows "single_ok t"
proof (unfold single_ok_def, intro allI)
  fix c
  let ?ws = "watchers (mstore (sys_world s))"
  have ws: "watchers (mstore (sys_world t)) = ?ws(i \<mapsto> \<lparr>wid = i, wch = ch\<rparr>)"
    by (simp add: w do_watch_def store_simps)
  have "heads_for ch ?ws = {}" using chan_okD(3) [OF ok(1)] new by (force simp: heads_for_def ran_def)
  then have "heads_for c (watchers (mstore (sys_world t))) \<subseteq> (if c = ch then {i} else heads_for c ?ws)"
    by (auto simp: ws heads_for_def)
  then show "\<exists>k. heads_for c (watchers (mstore (sys_world t))) \<subseteq> {k}"
  proof (cases "c = ch")
    case False
    obtain k where "heads_for c ?ws \<subseteq> {k}" using ok(2) unfolding single_ok_def by blast
    then show ?thesis using \<open>_ \<subseteq> (if c = ch then _ else _)\<close> False by (intro exI [of _ k]) simp
  qed auto
qed

lemma single_ok_unwatch:
  assumes "range_order (watchers (mstore (sys_world s))) order"
  shows "single_ok (do_unwatch j i order s)"
proof -
  have "dom (RemoveWatcher order (watchers (mstore (sys_world s))) i) \<subseteq> {i}"
    by (auto simp: RemoveWatcher_def remove_loop_eq split: list.splits if_splits)
  then show ?thesis by (auto simp: single_ok_def do_unwatch_def unwatch_def heads_for_def)
qed

lemma sys_step_single: "sys_step cd p s t \<Longrightarrow> chan_ok s \<Longrightarrow> single_ok s \<Longrightarrow> single_ok t"
proof (induction rule: sys_step.induct)
  case (ctrl_watch s late i)
  show ?case
    by (rule single_ok_watch [of s ctrl_chan i _ late])
      (use ctrl_watch in \<open>simp_all add: do_ctrl_watch_def do_watch_def\<close>)
next
  case (node_watch s j late i)
  show ?case
    by (rule single_ok_watch [of s "Suc j" i _ late])
      (use node_watch in \<open>simp_all add: do_node_watch_def do_watch_def Let_def node_chan\<close>)
next
  case (unwatch s j i order)
  then show ?case by (simp add: single_ok_unwatch)
next
  case (mon_move s j)
  show ?case
    by (rule single_ok_same [of _ s])
      (use mon_move in \<open>auto simp: do_mon_def Let_def dest: monitor_step_watchers split: go.splits\<close>)
next
  case (ctrl_move s)
  show ?case
    by (rule single_ok_same [of _ s])
      (use ctrl_move in \<open>auto simp: do_ctrl_def dest: ctrl_step_watchers split: go.splits\<close>)
next
  case (node_move s j)
  show ?case
    by (rule single_ok_same [of _ s])
      (use node_move in \<open>auto simp: do_node_def Let_def dest: node_step_watchers split: go.splits\<close>)
next
  case (recv s j r)
  show ?case
    by (rule single_ok_same [of _ s])
      (use recv in \<open>auto simp: do_recv_def split: go.splits\<close>)
qed (erule single_ok_same [rotated], simp add: do_connect_def do_cancel_def do_close_def do_send_closed_def
    do_node_end_def do_mon_ctx_def do_send_start_def do_taken_def do_deliver_ctrl_def do_deliver_node_def Let_def)+

lemma reachable_single: "reachable cd p s \<Longrightarrow> single_ok s"
proof (induction rule: reachable.induct)
  case reach_init
  then show ?case by (simp add: single_ok_def heads_for_def sys_init_def new_world_def)
next
  case (reach_step s t)
  then show ?case by (blast intro: sys_step_single reachable_chan_ok)
qed

subsection \<open>What a step does to the counts\<close>

lemma past_same:
  "sends (mstore (sys_world t)) = sends (mstore (sys_world s)) \<Longrightarrow> map fst (sys_active t) = map fst (sys_active s) \<Longrightarrow>
   past P t = past P s"
  by (simp add: past_def)

lemma past_puts:
  "sends (mstore (sys_world t)) = sends (mstore (sys_world s)) @ new \<Longrightarrow> sys_active t = sys_active s \<Longrightarrow>
   past P t = past P s + length (filter P new)"
  by (simp add: past_def)

lemma filter_take_drop:
  assumes "i < length xs"
  shows "length (filter P xs) = length (filter P (take i xs @ drop (Suc i) xs)) + (if P (xs ! i) then 1 else 0)"
  by (subst id_take_nth_drop [OF assms]) simp

lemma past_start:
  assumes "i < length (sends (mstore (sys_world s)))"
  shows "past P (do_send_start i order s) = past P s"
  using filter_take_drop [OF assms, of P] by (simp add: past_def do_send_start_def Let_def)

lemma past_taken: "past P (do_taken i s) = past P s"
proof (rule past_same)
  show "map fst (sys_active (do_taken i s)) = map fst (sys_active s)"
    by (cases "i < length (sys_active s)")
      (simp_all add: do_taken_def map_update list_update_beyond, metis list_update_id nth_map)
qed (simp add: do_taken_def)

lemma past_watch:
  assumes "late_ok late s"
  shows "past P (do_watch i ch late s) = past P s"
proof (rule past_same)
  show "map fst (sys_active (do_watch i ch late s)) = map fst (sys_active s)"
    using late_visits_events [of late "sys_active s" ch] assms by (simp add: do_watch_def late_ok_def)
qed (simp add: do_watch_def store_simps)

lemma ahead_same:
  "sends (mstore (sys_world t)) = sends (mstore (sys_world s)) \<Longrightarrow> sys_active t = sys_active s \<Longrightarrow>
   reader_ok t c = reader_ok s c \<Longrightarrow> ahead P c t = ahead P c s"
  by (simp add: ahead_def)

lemma ahead_puts:
  "sends (mstore (sys_world t)) = sends (mstore (sys_world s)) @ new \<Longrightarrow> sys_active t = sys_active s \<Longrightarrow>
   reader_ok t c = reader_ok s c \<Longrightarrow> ahead P c t = ahead P c s + length (filter P new)"
  by (simp add: ahead_def)

lemma ahead_unread:
  assumes "\<not> reader_ok s c"
  shows "ahead P c s = past P s"
proof -
  have "sum_list (map (visits P False c) xs) = length (filter P (map fst xs))" for xs
    by (induction xs) (simp_all add: visits_def)
  then show ?thesis using assms by (simp add: ahead_def past_def)
qed

text \<open>A started range offers an event to a channel at most once.\<close>

lemma count_ranged_le:
  assumes "distinct ks" "heads_for c ws \<subseteq> {i}"
  shows "count_list (map wch (ranged ws ks)) c \<le> 1"
proof -
  have none: "count_list (map wch (ranged ws xs)) c = 0" if "i \<notin> set xs" for xs
    using that assms(2) by (induction xs) (auto simp: heads_for_def split: option.splits)
  show ?thesis
    using assms(1)
  proof (induction ks)
    case (Cons x xs)
    show ?case
    proof (cases "x = i")
      case True
      then show ?thesis using none [of xs] Cons.prems by (simp split: option.splits)
    next
      case False
      then have "wch w \<noteq> c" if "ws x = Some w" for w using assms(2) that by (auto simp: heads_for_def)
      then show ?thesis using Cons by (simp split: option.splits)
    qed
  qed simp
qed

lemma ahead_start:
  assumes "single_ok s" "i < length (sends (mstore (sys_world s)))"
    and r: "range_order (watchers (mstore (sys_world s))) order"
  shows "ahead P c (do_send_start i order s) \<le> ahead P c s"
proof -
  let ?ws = "watchers (mstore (sys_world s))"
  obtain u where "heads_for c ?ws \<subseteq> {u}" using assms(1) unfolding single_ok_def by blast
  then have one: "count_list (map wch (ranged ?ws order)) c \<le> 1"
    using r by (intro count_ranged_le) (simp_all add: range_order_def)
  let ?x = "(sends (mstore (sys_world s)) ! i, map wch (ranged ?ws order))"
  have "reader_ok (do_send_start i order s) c = reader_ok s c"
    by (simp add: reader_ok_def do_send_start_def Let_def)
  then have "ahead P c (do_send_start i order s) = length (filter P (take i (sends (mstore (sys_world s))) @ drop (Suc i) (sends (mstore (sys_world s))))) +
      (sum_list (map (visits P (reader_ok s c) c) (sys_active s)) + visits P (reader_ok s c) c ?x)"
    by (simp add: ahead_def) (simp add: do_send_start_def Let_def)
  moreover have "visits P (reader_ok s c) c ?x \<le> (if P (sends (mstore (sys_world s)) ! i) then 1 else 0)"
    using one by (simp add: visits_def)
  ultimately show ?thesis using filter_take_drop [OF assms(2), of P] by (simp add: ahead_def)
qed

text \<open>What a reader takes is not ahead of it any more.\<close>

lemma ahead_taken:
  assumes "offers s i d"
  shows "ahead P c (do_taken i s) + (if c = d \<and> reader_ok s c \<and> P (fst (sys_active s ! i)) then 1 else 0) \<le> ahead P c s"
proof -
  obtain cs where o: "i < length (sys_active s)" "snd (sys_active s ! i) = d # cs"
    using offersD [OF assms] by blast
  let ?x = "(fst (sys_active s ! i), tl (snd (sys_active s ! i)))"
  let ?f = "visits P (reader_ok s c) c"
  have "reader_ok (do_taken i s) c = reader_ok s c" by (simp add: reader_ok_def do_taken_def)
  then have t: "ahead P c (do_taken i s) = length (filter P (sends (mstore (sys_world s)))) +
      sum_list (map ?f ((sys_active s)[i := ?x]))"
    by (simp add: ahead_def) (simp add: do_taken_def)
  have "?f ?x + (if c = d \<and> reader_ok s c \<and> P (fst (sys_active s ! i)) then 1 else 0) \<le> ?f (sys_active s ! i)"
    by (simp add: visits_def o(2))
  then show ?thesis using sum_list_map_update [OF o(1), of ?f ?x] unfolding t by (simp add: ahead_def)
qed

lemma ahead_taken_le: "offers s i d \<Longrightarrow> ahead P c (do_taken i s) \<le> ahead P c s"
  using ahead_taken [of s i d P c] by linarith

text \<open>A new watcher: the ranges under way visit it at most once, and the other channels as before.\<close>

lemma late_visit_count:
  assumes "fst v < length act"
  shows "count_list (snd (late_visit ch v act ! k)) c \<le>
    count_list (snd (act ! k)) c + (if c = ch \<and> k = fst v then 1 else 0)"
proof (cases "k = fst v")
  case True
  obtain e chs where e: "act ! fst v = (e, chs)" by (cases "act ! fst v")
  have "count_list (take m xs @ drop m xs) c = count_list xs c" for m xs by simp
  then have "count_list (take m xs) c + count_list (drop m xs) c = count_list xs c" for m xs
    by (simp only: count_list_append)
  then show ?thesis
    using assms e True by (cases v; cases chs) (auto simp: late_visit_def add.assoc [symmetric])
next
  case False
  then show ?thesis using assms by (cases v) (simp add: late_visit_def split: prod.split)
qed

lemma late_visits_count:
  "distinct (map fst late) \<Longrightarrow> \<forall>v \<in> set late. fst v < length act \<Longrightarrow>
   count_list (snd (fold (late_visit ch) late act ! k)) c \<le>
     count_list (snd (act ! k)) c + (if c = ch \<and> k \<in> fst ` set late then 1 else 0)"
proof (induction late arbitrary: act)
  case (Cons v late)
  have "count_list (snd (fold (late_visit ch) late (late_visit ch v act) ! k)) c \<le>
      count_list (snd (late_visit ch v act ! k)) c + (if c = ch \<and> k \<in> fst ` set late then 1 else 0)"
    using Cons.prems by (intro Cons.IH) simp_all
  also have "\<dots> \<le> count_list (snd (act ! k)) c + (if c = ch \<and> k \<in> fst ` set (v # late) then 1 else 0)"
    using late_visit_count [of v act ch k c] Cons.prems by (auto split: if_splits)
  finally show ?case by simp
qed simp

lemma ahead_watch:
  assumes ok: "chan_ok s" and late: "late_ok late s" and new: "\<not> reader_ok s ch"
    and t: "sys_world t = sys_world (do_watch i ch late s)" "sys_active t = sys_active (do_watch i ch late s)"
    and rd: "\<And>d. d \<noteq> ch \<Longrightarrow> reader_ok t d = reader_ok s d"
  shows "ahead P c t \<le> ahead P c s"
proof -
  let ?act = "sys_active s"
  let ?act' = "fold (late_visit ch) late ?act"
  have l: "length ?act' = length ?act" by (rule fold_invariant [where P = "\<lambda>a. length a = length ?act"]) simp_all
  have ev: "map fst ?act' = map fst ?act"
    using late_visits_events [of late ?act ch] late by (simp add: late_ok_def)
  have v: "visits P (reader_ok t c) c (?act' ! k) \<le> visits P (reader_ok s c) c (?act ! k)" if k: "k < length ?act" for k
  proof -
    have n: "count_list (snd (?act' ! k)) c \<le> count_list (snd (?act ! k)) c + (if c = ch \<and> k \<in> fst ` set late then 1 else 0)"
      using late by (intro late_visits_count) (auto simp: late_ok_def)
    have e: "fst (?act' ! k) = fst (?act ! k)" using arg_cong [OF ev, of "\<lambda>xs. xs ! k"] k by (simp add: l)
    show ?thesis
    proof (cases "c = ch")
      case True
      then have "c \<notin> set (snd (?act ! k))" using chan_okD(4) [OF ok] new k nth_mem by metis
      then have "count_list (snd (?act ! k)) c = 0" by (simp add: count_list_0_iff)
      then show ?thesis using n new True e by (auto simp: visits_def split: if_splits)
    next
      case False
      then show ?thesis using n rd [OF False] e by (simp add: visits_def)
    qed
  qed
  have "sum_list (map (visits P (reader_ok t c) c) ?act') \<le> sum_list (map (visits P (reader_ok s c) c) ?act)"
    by (intro sum_list_mono2 allI impI) (use v l in simp_all)
  then show ?thesis by (simp add: ahead_def t do_watch_def store_simps)
qed

subsection \<open>The budget\<close>

definition budget_ok :: "sys \<Rightarrow> bool" where
  "budget_ok s \<longleftrightarrow>
     past asks s + busy s \<le> length (sys_inds s) \<and>
     past grants s + ahead asks ctrl_chan s + ctrl_owes (sys_ctrl s) \<le> past asks s \<and>
     (\<forall>n. sent_count n s + node_ahead n s \<le> connections n s * past grants s)"

lemma budget_ok_init: "budget_ok sys_init"
  by (simp add: budget_ok_def sys_init_def new_world_def past_def busy_def ahead_def sent_count_def node_ahead_def)

text \<open>The handlers spend what they owe.\<close>

lemma monitor_pays_asks:
  assumes "monitor_step n pc w = Ret (w', pc')"
  shows "\<exists>new. sends (mstore w') = sends (mstore w) @ new \<and> filter grants new = [] \<and>
    length (filter asks new) + (if pc' = M_Idle then 0 else 1) \<le> (if pc = M_Idle then 0 else 1)"
  using assms by (cases pc) (auto simp: go_simps store_simps asks_def grants_def put_new_simps split: if_splits)

lemma ctrl_pays_grants:
  assumes "ctrl_step pc w = Ret (w', pc')"
  shows "\<exists>new. sends (mstore w') = sends (mstore w) @ new \<and> filter asks new = [] \<and>
    length (filter grants new) + ctrl_owes pc' \<le> ctrl_owes pc"
  using assms by (cases pc) (auto simp: go_simps store_simps asks_def grants_def split: if_splits go.splits)

lemma node_pays_controls:
  assumes "node_step p n pc w = Ret (w', pc', out)"
  shows "\<exists>new. sends (mstore w') = sends (mstore w) @ new \<and> filter asks new = [] \<and> filter grants new = [] \<and>
    length out + node_owes pc' \<le> node_owes pc \<and> (\<forall>c \<in> set out. cm_node c = n)"
  using assms by (cases pc) (auto simp: go_simps store_simps asks_def grants_def control_for_def split: if_splits go.splits)

text \<open>The watchers of a node, one by one.\<close>

lemma node_ahead_le:
  assumes "map np_node (sys_nodes t) = map np_node (sys_nodes s)" "map np_chan (sys_nodes t) = map np_chan (sys_nodes s)"
    and "\<And>k. k < length (sys_nodes s) \<Longrightarrow>
      ahead grants (np_chan (sys_nodes s ! k)) t + node_owes (np_pc (sys_nodes t ! k)) \<le>
      ahead grants (np_chan (sys_nodes s ! k)) s + node_owes (np_pc (sys_nodes s ! k))"
  shows "node_ahead n t \<le> node_ahead n s"
proof -
  have l: "length (sys_nodes t) = length (sys_nodes s)" using assms(1) by (metis length_map)
  have "np_node (sys_nodes t ! k) = np_node (sys_nodes s ! k)" "np_chan (sys_nodes t ! k) = np_chan (sys_nodes s ! k)"
    if "k < length (sys_nodes s)" for k
    using arg_cong [OF assms(1), of "\<lambda>xs. xs ! k"] arg_cong [OF assms(2), of "\<lambda>xs. xs ! k"] that l by simp_all
  then show ?thesis
    unfolding node_ahead_def using assms(3) l by (intro sum_list_mono2 allI impI) simp_all
qed

lemma node_ahead_same:
  "sys_nodes t = sys_nodes s \<Longrightarrow> (\<And>c. ahead grants c t \<le> ahead grants c s) \<Longrightarrow> node_ahead n t \<le> node_ahead n s"
  by (rule node_ahead_le) simp_all

lemma node_ahead_puts:
  assumes "sys_nodes t = sys_nodes s" "\<And>c. ahead grants c t = ahead grants c s + g"
  shows "node_ahead n t = node_ahead n s + connections n s * g"
proof -
  have "sum_list (map (\<lambda>m. if np_node m = n then f m + g + h m else 0) ms) =
      sum_list (map (\<lambda>m. if np_node m = n then f m + h m else 0) ms) + count_list (map np_node ms) n * g"
    for f h :: "node_proc \<Rightarrow> nat" and ms
    by (induction ms) simp_all
  then show ?thesis by (simp add: node_ahead_def connections_def assms cong: if_cong)
qed

lemma connections_same: "map np_node (sys_nodes t) = map np_node (sys_nodes s) \<Longrightarrow> connections n t = connections n s"
  by (simp add: connections_def)

text \<open>A step that puts nothing.\<close>

lemma budget_ok_simple:
  assumes ok: "budget_ok s" and p: "\<And>P. past P t = past P s"
    and "busy t + length (sys_inds s) \<le> busy s + length (sys_inds t)"
    and "ahead asks ctrl_chan t + ctrl_owes (sys_ctrl t) \<le> ahead asks ctrl_chan s + ctrl_owes (sys_ctrl s)"
    and "sys_controls t = sys_controls s" "map np_node (sys_nodes t) = map np_node (sys_nodes s)"
    and n: "\<And>n. node_ahead n t \<le> node_ahead n s"
  shows "budget_ok t"
proof -
  have "sent_count n t + node_ahead n t \<le> connections n t * past grants t" for n
  proof -
    have "sent_count n t + node_ahead n t \<le> sent_count n s + node_ahead n s"
      using n [of n] assms(5) by (simp add: sent_count_def)
    also have "\<dots> \<le> connections n s * past grants s" using ok by (simp add: budget_ok_def)
    finally show ?thesis by (simp add: p connections_same [OF assms(6)])
  qed
  then show ?thesis using ok assms(3,4) by (simp add: budget_ok_def p)
qed

text \<open>A step that changes neither events nor what is owed.\<close>

lemma budget_ok_still:
  assumes ok: "budget_ok s" and same: "sends (mstore (sys_world t)) = sends (mstore (sys_world s))" "sys_active t = sys_active s"
      "sys_controls t = sys_controls s" "sys_inds t = sys_inds s" "map np_node (sys_nodes t) = map np_node (sys_nodes s)"
      "map np_chan (sys_nodes t) = map np_chan (sys_nodes s)"
    and "busy t \<le> busy s" "ctrl_owes (sys_ctrl t) \<le> ctrl_owes (sys_ctrl s)"
    and rd: "\<And>c. reader_ok t c = reader_ok s c"
    and pc: "\<And>k. k < length (sys_nodes s) \<Longrightarrow> node_owes (np_pc (sys_nodes t ! k)) \<le> node_owes (np_pc (sys_nodes s ! k))"
  shows "budget_ok t"
proof (rule budget_ok_simple [OF ok])
  have a: "ahead P c t = ahead P c s" for P c by (rule ahead_same) (simp_all add: same rd)
  show "past P t = past P s" for P by (rule past_same) (simp_all add: same)
  show "node_ahead n t \<le> node_ahead n s" for n
    by (rule node_ahead_le) (use same(5,6) pc a in simp_all)
  show "ahead asks ctrl_chan t + ctrl_owes (sys_ctrl t) \<le> ahead asks ctrl_chan s + ctrl_owes (sys_ctrl s)"
    using a assms(9) by simp
qed (use assms(4-6,8) in simp_all)

lemma busy_update:
  assumes "j < length (sys_mons s)" "sys_mons t = (sys_mons s)[j := m]"
  shows "busy t + (if mp_pc (sys_mons s ! j) = M_Idle then 0 else 1) = busy s + (if mp_pc m = M_Idle then 0 else 1)"
  using sum_list_map_update [OF assms(1), of "\<lambda>m. if mp_pc m = M_Idle then 0 else 1" m] by (simp add: busy_def assms(2))

lemma budget_connect:
  assumes "budget_ok s" "chan_ok s"
  shows "budget_ok (do_connect n s)"
proof -
  let ?t = "do_connect n s"
  have same: "sys_world ?t = sys_world s" "sys_active ?t = sys_active s" "sys_ctrl ?t = sys_ctrl s"
    "sys_controls ?t = sys_controls s" "sys_inds ?t = sys_inds s" by (simp_all add: do_connect_def)
  have rd: "reader_ok ?t c = reader_ok s c" for c
    by (auto simp: reader_ok_def do_connect_def nth_append less_Suc_eq)
  have a: "ahead P c ?t = ahead P c s" for P c by (rule ahead_same) (simp_all add: same rd)
  have p: "past P ?t = past P s" for P by (rule past_same) (simp_all add: same)
  have "\<not> reader_ok s (Suc (length (sys_nodes s)))" by simp
  then have "node_ahead k ?t = node_ahead k s + (if k = n then past grants s else 0)" for k
    using ahead_unread by (simp add: node_ahead_def a cong: if_cong) (simp add: do_connect_def)
  moreover have "connections k ?t = connections k s + (if k = n then 1 else 0)" for k
    by (simp add: connections_def do_connect_def)
  moreover have "busy ?t = busy s" by (simp add: busy_def do_connect_def)
  ultimately show ?thesis
    using assms(1) by (simp add: budget_ok_def a p same sent_count_def algebra_simps)
qed

lemma budget_recv:
  assumes ok: "budget_ok s" and j: "j < length (sys_mons s)" "mp_pc (sys_mons s ! j) = M_Idle"
  shows "budget_ok (do_recv cd j r s)"
proof (rule budget_ok_simple [OF ok])
  let ?t = "do_recv cd j r s"
  have same: "sys_world ?t = sys_world s" "sys_active ?t = sys_active s" "sys_ctrl ?t = sys_ctrl s" "sys_nodes ?t = sys_nodes s"
    "sys_controls ?t = sys_controls s" by (simp_all add: do_recv_def split: go.split)
  have a: "ahead P c ?t = ahead P c s" for P c by (rule ahead_same) (simp_all add: same reader_ok_def)
  show "past P ?t = past P s" for P by (rule past_same) (simp_all add: same)
  show "ahead asks ctrl_chan ?t + ctrl_owes (sys_ctrl ?t) \<le> ahead asks ctrl_chan s + ctrl_owes (sys_ctrl s)" by (simp add: a same)
  show "sys_controls ?t = sys_controls s" "map np_node (sys_nodes ?t) = map np_node (sys_nodes s)" by (simp_all add: same)
  show "node_ahead n ?t \<le> node_ahead n s" for n by (rule node_ahead_same) (simp_all add: a same)
  show "busy ?t + length (sys_inds s) \<le> busy s + length (sys_inds ?t)"
  proof (cases "mon_recv cd r (sys_mons s ! j)")
    case (Ret x)
    obtain m new where x: "x = (m, new)" by (cases x)
    then have "(if mp_pc m = M_Idle then 0 else 1) \<le> length new"
      using Ret j(2) by (auto simp: mon_recv_def Let_def split: sum.splits if_splits go.splits)
    moreover have t: "sys_mons ?t = (sys_mons s)[j := m]" "sys_inds ?t = sys_inds s @ new"
      by (simp_all add: do_recv_def Ret x)
    ultimately show ?thesis using busy_update [OF j(1) t(1)] j(2) by simp
  qed (simp_all add: do_recv_def busy_def)
qed

lemma budget_watch:
  assumes ok: "budget_ok s" "chan_ok s" and late: "late_ok late s" and new: "\<not> reader_ok s ch"
    and t: "sys_world t = sys_world (do_watch i ch late s)" "sys_active t = sys_active (do_watch i ch late s)"
    and rd: "\<And>d. d \<noteq> ch \<Longrightarrow> reader_ok t d = reader_ok s d"
    and same: "sys_mons t = sys_mons s" "sys_inds t = sys_inds s" "sys_controls t = sys_controls s"
    and "ctrl_owes (sys_ctrl t) \<le> ctrl_owes (sys_ctrl s)" "map np_node (sys_nodes t) = map np_node (sys_nodes s)"
      "map np_chan (sys_nodes t) = map np_chan (sys_nodes s)"
    and pc: "\<And>k. k < length (sys_nodes s) \<Longrightarrow> node_owes (np_pc (sys_nodes t ! k)) \<le> node_owes (np_pc (sys_nodes s ! k))"
  shows "budget_ok t"
proof (rule budget_ok_simple [OF ok(1)])
  note a = ahead_watch [OF ok(2) late new t rd]
  show "past P t = past P s" for P
    using past_watch [OF late, of P i ch] t by (simp add: past_def)
  show "busy t + length (sys_inds s) \<le> busy s + length (sys_inds t)" by (simp add: busy_def same)
  show "ahead asks ctrl_chan t + ctrl_owes (sys_ctrl t) \<le> ahead asks ctrl_chan s + ctrl_owes (sys_ctrl s)"
    using a [of asks ctrl_chan] assms(11) by simp
  show "node_ahead n t \<le> node_ahead n s" for n
    by (rule node_ahead_le) (use assms(12,13) a pc in \<open>auto intro: add_mono\<close>)
qed (use same assms(12) in simp_all)

lemma budget_mon:
  assumes ok: "budget_ok s" and j: "j < length (sys_mons s)" "mp_pc (sys_mons s ! j) \<noteq> M_Idle"
  shows "budget_ok (do_mon j s)"
proof (cases "monitor_step (mp_node (sys_mons s ! j)) (mp_pc (sys_mons s ! j)) (sys_world s)")
  case (Ret x)
  let ?t = "do_mon j s"
  obtain w pc where x: "x = (w, pc)" by (cases x)
  then obtain new where new: "sends (mstore w) = sends (mstore (sys_world s)) @ new" "filter grants new = []"
    "length (filter asks new) + (if pc = M_Idle then 0 else 1) \<le> (1::nat)"
    using monitor_pays_asks [of _ _ _ w pc] Ret j(2) by fastforce
  have t: "sys_world ?t = w" "sys_mons ?t = (sys_mons s)[j := (sys_mons s ! j)\<lparr>mp_pc := pc\<rparr>]" "sys_active ?t = sys_active s"
    "sys_ctrl ?t = sys_ctrl s" "sys_nodes ?t = sys_nodes s" "sys_controls ?t = sys_controls s" "sys_inds ?t = sys_inds s"
    using Ret x by (simp_all add: do_mon_def Let_def)
  have p: "past P ?t = past P s + length (filter P new)" for P by (rule past_puts) (simp_all add: t new)
  have a: "ahead P c ?t = ahead P c s + length (filter P new)" for P c
    by (rule ahead_puts) (simp_all add: t new reader_ok_def)
  have n: "node_ahead n ?t \<le> node_ahead n s" for n by (rule node_ahead_same) (simp_all add: t a new(2))
  have "sent_count n ?t + node_ahead n ?t \<le> connections n ?t * past grants ?t" for n
    using ok n [of n] by (simp add: budget_ok_def p new(2) t sent_count_def connections_def) (meson add_left_mono le_trans)
  then show ?thesis
    using ok busy_update [OF j(1) t(2)] new(3) j(2) by (auto simp: budget_ok_def p a t(4,7) new(2) split: if_splits)
next
  case (Fail e)
  have "busy (do_mon j s) \<le> busy s"
    using busy_update [OF j(1), of "do_mon j s" "(sys_mons s ! j)\<lparr>mp_pc := M_Idle, mp_loop := send_err e (mp_loop (sys_mons s ! j))\<rparr>"]
    by (simp add: do_mon_def Let_def Fail)
  then show ?thesis by (rule budget_ok_still [OF ok, rotated 6]) (simp_all add: do_mon_def Let_def Fail reader_ok_def)
next
  case Panic
  show ?thesis by (rule budget_ok_still [OF ok]) (simp_all add: do_mon_def Let_def Panic reader_ok_def busy_def)
qed

lemma budget_ctrl:
  assumes ok: "budget_ok s" and pc: "sys_ctrl s \<noteq> C_Init"
  shows "budget_ok (do_ctrl s)"
proof (cases "ctrl_step (sys_ctrl s) (sys_world s)")
  case (Ret x)
  let ?t = "do_ctrl s"
  obtain w c' where x: "x = (w, c')" by (cases x)
  then obtain new where new: "sends (mstore w) = sends (mstore (sys_world s)) @ new" "filter asks new = []"
    "length (filter grants new) + ctrl_owes c' \<le> ctrl_owes (sys_ctrl s)"
    using ctrl_pays_grants [of "sys_ctrl s" _ w c'] Ret by fastforce
  have t: "sys_world ?t = w" "sys_mons ?t = sys_mons s" "sys_active ?t = sys_active s"
    "sys_ctrl ?t = c'" "sys_nodes ?t = sys_nodes s" "sys_controls ?t = sys_controls s" "sys_inds ?t = sys_inds s"
    using Ret x by (simp_all add: do_ctrl_def)
  have "c' \<noteq> C_Init" using Ret x pc by (auto dest: ctrl_step_rank)
  then have rd: "reader_ok ?t c = reader_ok s c" for c using pc by (simp add: reader_ok_def t)
  have p: "past P ?t = past P s + length (filter P new)" for P by (rule past_puts) (simp_all add: t new)
  have a: "ahead P c ?t = ahead P c s + length (filter P new)" for P c
    by (rule ahead_puts) (simp_all add: t new rd)
  have n: "node_ahead n ?t = node_ahead n s + connections n s * length (filter grants new)" for n
    by (rule node_ahead_puts) (simp_all add: t a)
  have "sent_count n ?t + node_ahead n ?t \<le> connections n ?t * past grants ?t" for n
    using ok by (simp add: budget_ok_def p t n sent_count_def connections_def algebra_simps)
  then show ?thesis
    using ok new(3) by (simp add: budget_ok_def p a t(4,7) new(2) busy_def t(2))
qed (rule budget_ok_still [OF ok], simp_all add: do_ctrl_def reader_ok_def busy_def)+

lemma budget_node:
  assumes ok: "budget_ok s" "chan_ok s" and j: "j < length (sys_nodes s)" "np_pc (sys_nodes s ! j) \<noteq> N_Init"
  shows "budget_ok (do_node p j s)"
proof (cases "node_step p (np_node (sys_nodes s ! j)) (np_pc (sys_nodes s ! j)) (sys_world s)")
  case (Ret x)
  let ?t = "do_node p j s" and ?m = "sys_nodes s ! j"
  obtain w pc out where x: "x = (w, pc, out)" by (cases x)
  note step = Ret [unfolded x]
  obtain new where new: "sends (mstore w) = sends (mstore (sys_world s)) @ new" "filter asks new = []" "filter grants new = []"
    "length out + node_owes pc \<le> node_owes (np_pc ?m)" "\<forall>c \<in> set out. cm_node c = np_node ?m"
    using node_pays_controls [OF step] by blast
  have t: "sys_world ?t = w" "sys_mons ?t = sys_mons s" "sys_active ?t = sys_active s" "sys_ctrl ?t = sys_ctrl s"
    "sys_nodes ?t = (sys_nodes s)[j := ?m\<lparr>np_pc := pc\<rparr>]" "sys_controls ?t = sys_controls s @ out" "sys_inds ?t = sys_inds s"
    using step by (simp_all add: do_node_def Let_def)
  have rd: "reader_ok ?t c = reader_ok s c" for c
    using node_step_watchers [OF step] j by (auto simp: reader_ok_def t nth_list_update)
  have p: "past P ?t = past P s + length (filter P new)" for P by (rule past_puts) (simp_all add: t new)
  have a: "ahead P c ?t = ahead P c s + length (filter P new)" for P c
    by (rule ahead_puts) (simp_all add: t new rd)
  let ?f = "\<lambda>n m. if np_node m = n then ahead grants (np_chan m) s + node_owes (np_pc m) else 0"
  have n: "node_ahead n ?t + ?f n ?m = node_ahead n s + ?f n (?m\<lparr>np_pc := pc\<rparr>)" for n
    using sum_list_map_update [OF j(1), of "?f n" "?m\<lparr>np_pc := pc\<rparr>"]
    by (simp add: node_ahead_def t a new(3) cong: if_cong)
  have out: "filter (\<lambda>c. cm_node c = n) out = (if np_node ?m = n then out else [])" for n
    using new(5) by (auto simp: filter_id_conv filter_empty_conv)
  have "sent_count n ?t + node_ahead n ?t \<le> sent_count n s + node_ahead n s" for n
    using n [of n] new(4) by (simp add: sent_count_def t(6) out split: if_splits)
  moreover have "connections n ?t = connections n s" for n
    by (rule connections_same) (simp add: t map_update, metis j(1) list_update_id nth_map)
  ultimately have "sent_count n ?t + node_ahead n ?t \<le> connections n ?t * past grants ?t" for n
    using ok(1) by (simp add: budget_ok_def p new(3)) (meson le_trans)
  then show ?thesis
    using ok(1) by (simp add: budget_ok_def p a t(4,7) new(2,3) busy_def t(2))
qed (rule budget_ok_still [OF ok(1)], simp_all add: do_node_def Let_def reader_ok_def busy_def)+

lemma budget_start:
  assumes ok: "budget_ok s" "single_ok s" and i: "i < length (sends (mstore (sys_world s)))"
    and r: "range_order (watchers (mstore (sys_world s))) order"
  shows "budget_ok (do_send_start i order s)"
proof (rule budget_ok_simple [OF ok(1)])
  let ?t = "do_send_start i order s"
  note a = ahead_start [OF ok(2) i r]
  have same: "sys_ctrl ?t = sys_ctrl s" "sys_nodes ?t = sys_nodes s" "sys_mons ?t = sys_mons s" "sys_inds ?t = sys_inds s"
    "sys_controls ?t = sys_controls s" by (simp_all add: do_send_start_def Let_def)
  show "past P ?t = past P s" for P by (rule past_start [OF i])
  show "node_ahead n ?t \<le> node_ahead n s" for n by (rule node_ahead_same) (simp_all add: same a)
  show "ahead asks ctrl_chan ?t + ctrl_owes (sys_ctrl ?t) \<le> ahead asks ctrl_chan s + ctrl_owes (sys_ctrl s)"
    using a [of asks ctrl_chan] by (simp add: same)
  show "busy ?t + length (sys_inds s) \<le> busy s + length (sys_inds ?t)" by (simp add: busy_def same)
qed (simp_all add: do_send_start_def Let_def)

text \<open>A reader takes an event: it is not ahead any more, and the reader owes for it.\<close>

lemma budget_deliver_ctrl:
  assumes ok: "budget_ok s" and o: "offers s i ctrl_chan" and pc: "sys_ctrl s = C_Range"
  shows "budget_ok (do_deliver_ctrl i s)"
proof (rule budget_ok_simple [OF ok])
  let ?t = "do_deliver_ctrl i s"
  have same: "sys_world ?t = sys_world (do_taken i s)" "sys_active ?t = sys_active (do_taken i s)" "sys_nodes ?t = sys_nodes s"
    "sys_mons ?t = sys_mons s" "sys_inds ?t = sys_inds s" "sys_controls ?t = sys_controls s"
    "sys_ctrl ?t = C_Event (fst (sys_active s ! i))"
    by (simp_all add: do_deliver_ctrl_def do_taken_def)
  have a: "ahead P c ?t = ahead P c (do_taken i s)" for P c
    by (rule ahead_same) (use pc in \<open>simp_all add: same(1,2) reader_ok_def do_deliver_ctrl_def do_taken_def\<close>)
  show "past P ?t = past P s" for P using past_taken [of P i s] by (simp add: past_def same(1,2))
  show "node_ahead n ?t \<le> node_ahead n s" for n
    by (rule node_ahead_same) (simp_all add: same(3) a ahead_taken_le [OF o])
  show "ahead asks ctrl_chan ?t + ctrl_owes (sys_ctrl ?t) \<le> ahead asks ctrl_chan s + ctrl_owes (sys_ctrl s)"
    using ahead_taken [OF o, of asks ctrl_chan] pc by (simp add: a same(7))
  show "busy ?t + length (sys_inds s) \<le> busy s + length (sys_inds ?t)" by (simp add: busy_def same(4,5))
qed (simp_all add: do_deliver_ctrl_def do_taken_def)

lemma budget_deliver_node:
  assumes ok: "budget_ok s" "chan_ok s" and j: "j < length (sys_nodes s)" "np_pc (sys_nodes s ! j) = N_Range"
    and o: "offers s i (np_chan (sys_nodes s ! j))"
  shows "budget_ok (do_deliver_node i j s)"
proof (rule budget_ok_simple [OF ok(1)])
  let ?t = "do_deliver_node i j s" and ?m = "sys_nodes s ! j"
  have same: "sys_world ?t = sys_world (do_taken i s)" "sys_active ?t = sys_active (do_taken i s)" "sys_ctrl ?t = sys_ctrl s"
    "sys_mons ?t = sys_mons s" "sys_inds ?t = sys_inds s" "sys_controls ?t = sys_controls s"
    "sys_nodes ?t = (sys_nodes s)[j := ?m\<lparr>np_pc := N_Event (fst (sys_active s ! i))\<rparr>]"
    by (simp_all add: do_deliver_node_def do_taken_def)
  have "reader_ok ?t c = reader_ok (do_taken i s) c" for c
    using j by (auto simp: reader_ok_def same do_taken_def nth_list_update)
  then have a: "ahead P c ?t = ahead P c (do_taken i s)" for P c by (intro ahead_same) (simp_all add: same(1,2))
  note taken = ahead_taken [OF o]
  show "past P ?t = past P s" for P using past_taken [of P i s] by (simp add: past_def same(1,2))
  show names: "map np_node (sys_nodes ?t) = map np_node (sys_nodes s)"
    by (simp add: same(7) map_update) (metis j(1) list_update_id nth_map)
  have chans: "map np_chan (sys_nodes ?t) = map np_chan (sys_nodes s)"
    by (simp add: same(7) map_update) (metis j(1) list_update_id nth_map)
  have "reader_ok s (np_chan ?m)" using j node_chan [OF ok(2) j(1)] by simp
  then have mine: "ahead grants (np_chan ?m) (do_taken i s) + (if grants (fst (sys_active s ! i)) then 1 else 0)
      \<le> ahead grants (np_chan ?m) s"
    using taken [of grants "np_chan ?m"] by simp
  show "node_ahead n ?t \<le> node_ahead n s" for n
  proof (rule node_ahead_le [OF names chans])
    fix k assume "k < length (sys_nodes s)"
    then show "ahead grants (np_chan (sys_nodes s ! k)) ?t + node_owes (np_pc (sys_nodes ?t ! k)) \<le>
        ahead grants (np_chan (sys_nodes s ! k)) s + node_owes (np_pc (sys_nodes s ! k))"
      using mine ahead_taken_le [OF o] j by (cases "k = j") (simp_all only: a same(7) nth_list_update, simp_all)
  qed
  show "ahead asks ctrl_chan ?t + ctrl_owes (sys_ctrl ?t) \<le> ahead asks ctrl_chan s + ctrl_owes (sys_ctrl s)"
    using taken [of asks ctrl_chan] by (simp add: a same(3) ahead_taken_le [OF o])
  show "busy ?t + length (sys_inds s) \<le> busy s + length (sys_inds ?t)" by (simp add: busy_def same(4,5))
qed (simp add: do_deliver_node_def do_taken_def)

lemma sys_step_budget: "sys_step cd p s t \<Longrightarrow> chan_ok s \<Longrightarrow> single_ok s \<Longrightarrow> budget_ok s \<Longrightarrow> budget_ok t"
proof (induction rule: sys_step.induct)
  case (connect s n)
  then show ?case by (simp add: budget_connect)
next
  case (ctrl_watch s late i)
  show ?case
    by (rule budget_watch [where ch = ctrl_chan and late = late and i = i and s = s])
      (use ctrl_watch in \<open>simp_all add: do_ctrl_watch_def do_watch_def reader_ok_def ctrl_chan_def\<close>)
next
  case (node_watch s j late i)
  let ?t = "do_node_watch j i late s"
  have ch: "np_chan (sys_nodes s ! j) = Suc j" using node_watch by (simp add: node_chan)
  have nodes: "sys_nodes ?t = (sys_nodes s)[j := (sys_nodes s ! j)\<lparr>np_pc := N_Range, np_reg := R_On i\<rparr>]"
    using node_watch.hyps by (simp add: do_node_watch_def Let_def do_watch_def)
  show ?case
  proof (rule budget_watch [where ch = "Suc j" and late = late and i = i and s = s])
    show "reader_ok ?t d = reader_ok s d" if "d \<noteq> Suc j" for d
      using that by (auto simp: reader_ok_def nodes nth_list_update do_node_watch_def Let_def do_watch_def)
    show "node_owes (np_pc (sys_nodes ?t ! k)) \<le> node_owes (np_pc (sys_nodes s ! k))" if "k < length (sys_nodes s)" for k
      using that node_watch.hyps(2) by (simp add: nodes nth_list_update)
    show "map np_node (sys_nodes ?t) = map np_node (sys_nodes s)" "map np_chan (sys_nodes ?t) = map np_chan (sys_nodes s)"
      by (simp_all add: nodes map_update) (metis node_watch.hyps(2) list_update_id nth_map)+
  qed (use node_watch ch in \<open>simp_all add: do_node_watch_def do_watch_def Let_def reader_ok_def ctrl_chan_def\<close>)
next
  case (recv s j r)
  then show ?case by (simp add: budget_recv)
next
  case (mon_move s j)
  then show ?case by (simp add: budget_mon)
next
  case (send_start s i order)
  then show ?case by (simp add: budget_start)
next
  case (deliver_ctrl s i)
  then show ?case by (simp add: budget_deliver_ctrl)
next
  case (deliver_node s j i)
  then show ?case by (simp add: budget_deliver_node)
next
  case (ctrl_move s)
  then show ?case by (simp add: budget_ctrl)
next
  case (node_move s j)
  then show ?case by (simp add: budget_node)
next
  case (cancel s)
  show ?case by (rule budget_ok_still [of s]) (use cancel in \<open>simp_all add: do_cancel_def reader_ok_def busy_def\<close>)
next
  case (unwatch s j i order)
  show ?case
    by (rule budget_ok_still [of s])
      (use unwatch in \<open>auto simp add: do_unwatch_def unwatch_def reader_ok_def busy_def map_update nth_list_update list_update_same_conv\<close>)
next
  case (close s j)
  show ?case
    by (rule budget_ok_still [of s])
      (use close in \<open>auto simp add: do_close_def reader_ok_def busy_def map_update nth_list_update list_update_same_conv\<close>)
next
  case (send_closed s i c)
  show ?case by (rule budget_ok_still [of s]) (use send_closed in \<open>simp_all add: do_send_closed_def reader_ok_def busy_def\<close>)
next
  case (node_end s j)
  show ?case
    by (rule budget_ok_still [of s])
      (use node_end in \<open>auto simp add: do_node_end_def reader_ok_def busy_def map_update nth_list_update list_update_same_conv\<close>)
next
  case (mon_ctx s j)
  have "busy (do_mon_ctx j s) = busy s"
    using busy_update [of j s "do_mon_ctx j s" "(sys_mons s ! j)\<lparr>mp_loop := ctx_done (mp_loop (sys_mons s ! j))\<rparr>"] mon_ctx
    by (simp add: do_mon_ctx_def)
  then show ?case
    by (intro budget_ok_still [of s "do_mon_ctx j s"]) (use mon_ctx in \<open>simp_all add: do_mon_ctx_def reader_ok_def\<close>)
qed

lemma reachable_budget: "reachable cd p s \<Longrightarrow> budget_ok s"
proof (induction rule: reachable.induct)
  case reach_init
  show ?case by (rule budget_ok_init)
next
  case (reach_step s t)
  then show ?case by (blast intro: sys_step_budget reachable_chan_ok reachable_single)
qed

subsection \<open>The bound\<close>

text \<open>
  C8. In every reachable state, under every interleaving, a node has been sent at most as many
  control messages as the accepted indications there were so far, times the goroutines that
  watch on behalf of the node. The answers of controller and southbound go through the store
  again and raise further events, but the loop cannot amplify: whatever the order of delivery,
  also for watchers that join a range under way and after the subscriptions were cancelled.
\<close>
theorem control_bound:
  assumes "reachable cd p s"
  shows "length (filter (\<lambda>c. cm_node c = n) (sys_controls s)) \<le>
    length (filter (\<lambda>m. np_node m = n) (sys_nodes s)) * length (sys_inds s)"
proof -
  have b: "budget_ok s" by (rule reachable_budget [OF assms])
  have "length (filter (\<lambda>m. np_node m = n) ms) = count_list (map np_node ms) n" for ms
    by (induction ms) simp_all
  then have c: "connections n s = length (filter (\<lambda>m. np_node m = n) (sys_nodes s))"
    unfolding connections_def by (rule sym)
  have "sent_count n s + node_ahead n s \<le> connections n s * past grants s" using b by (simp add: budget_ok_def)
  then have "sent_count n s \<le> length (filter (\<lambda>m. np_node m = n) (sys_nodes s)) * past grants s"
    unfolding c by linarith
  also have "\<dots> \<le> length (filter (\<lambda>m. np_node m = n) (sys_nodes s)) * length (sys_inds s)"
    using b by (intro mult_le_mono2) (simp add: budget_ok_def)
  finally show ?thesis by (simp add: sent_count_def)
qed

lemma control_bound_witness:
  "\<exists>s. reachable sample_codec sample_pdu s \<and> length (sys_inds s) = 2 \<and>
     length (filter (\<lambda>c. cm_node c = ''n1'') (sys_controls s)) = 2 \<and>
     2 \<le> length (filter (\<lambda>m. np_node m = ''n1'') (sys_nodes s)) * 2"
proof -
  obtain t where t: "exec_acts sample_codec sample_pdu double_run sys_init = Some t"
    "sys_inds t = [(''n1'', sample_rq1), (''n1'', sample_rq2)]"
    "sys_controls t = [sample_control sample_rq2, sample_control sample_rq2]"
    using double_run_result by blast
  have r: "reachable sample_codec sample_pdu t" by (rule exec_acts_reachable [OF t(1) reach_init])
  have "cm_node (sample_control sample_rq2) = ''n1''" by (simp add: sample_control_def control_for_def)
  then show ?thesis
    using control_bound [OF r, of "''n1''"] r t(2,3) by (intro exI [of _ t]) simp
qed

end
