(* ===== verification/Mho_Reported.thy ===== *)
theory Mho_Reported
  imports Mho_Replies
begin

text \<open>
  What the state Done of a row vouches for. Only the southbound writes Done, and only into a value
  whose control message it has handed to the E2 client before (\<open>done_ok\<close>); so whatever a request
  reads while the handovers go on, a UE it reports as done has been handed over.
\<close>

definition handed :: "pdubuilder \<Rightarrow> sys \<Rightarrow> addr \<Rightarrow> bool" where
  "handed p s a \<longleftrightarrow>
     control_for p (E2NodeID (heap (sys_world s) ! a)) (heap (sys_world s) ! a) \<in> set (sys_controls s)"

definition done_ok :: "pdubuilder \<Rightarrow> sys \<Rightarrow> bool" where
  "done_ok p s \<longleftrightarrow>
     (\<forall>a < length (heap (sys_world s)). State (heap (sys_world s) ! a) = Done \<longrightarrow> handed p s a) \<and>
     (\<forall>m \<in> set (sys_nodes s). \<forall>e a. np_pc m = N_Sent e a \<longrightarrow> a < length (heap (sys_world s)) \<and> handed p s a)"

lemma done_okD:
  assumes "done_ok p s"
  shows "a < length (heap (sys_world s)) \<Longrightarrow> State (heap (sys_world s) ! a) = Done \<Longrightarrow> handed p s a"
    "j < length (sys_nodes s) \<Longrightarrow> np_pc (sys_nodes s ! j) = N_Sent e a \<Longrightarrow>
       a < length (heap (sys_world s)) \<and> handed p s a"
  using assms unfolding done_ok_def by (blast, metis nth_mem)

lemma handed_mono:
  assumes "handed p s a" "a < length (heap (sys_world s))"
    and "heap_ext (heap (sys_world s)) (heap (sys_world t))" "set (sys_controls s) \<subseteq> set (sys_controls t)"
  shows "handed p t a"
proof -
  have i: "same_ident (heap (sys_world s) ! a) (heap (sys_world t) ! a)"
    using assms(2,3) by (simp add: heap_ext_def)
  then have "E2NodeID (heap (sys_world t) ! a) = E2NodeID (heap (sys_world s) ! a)" by (simp add: same_ident_def)
  then show ?thesis using assms(1,4) control_for_ident [OF i] by (auto simp: handed_def)
qed

text \<open>A step answers for the values that it marked and the watchers that it moved.\<close>

lemma done_ok_evolve:
  assumes ok: "done_ok p s" and ext: "heap_ext (heap (sys_world s)) (heap (sys_world t))"
      "set (sys_controls s) \<subseteq> set (sys_controls t)"
    and marked: "\<And>a. a < length (heap (sys_world t)) \<Longrightarrow> State (heap (sys_world t) ! a) = Done \<Longrightarrow>
      a < length (heap (sys_world s)) \<and> State (heap (sys_world s) ! a) = Done \<or> handed p t a"
    and sent: "\<And>m e a. m \<in> set (sys_nodes t) \<Longrightarrow> np_pc m = N_Sent e a \<Longrightarrow>
      (\<exists>m' \<in> set (sys_nodes s). np_pc m' = N_Sent e a) \<or> a < length (heap (sys_world t)) \<and> handed p t a"
  shows "done_ok p t"
proof -
  have keep: "a < length (heap (sys_world t)) \<and> handed p t a" if "a < length (heap (sys_world s))" "handed p s a" for a
    using handed_mono [OF that(2,1) ext] that(1) ext(1) by (simp add: heap_ext_def)
  show ?thesis
    unfolding done_ok_def
  proof (intro conjI ballI allI impI)
    show "handed p t a" if "a < length (heap (sys_world t))" "State (heap (sys_world t) ! a) = Done" for a
      using marked [OF that] keep done_okD(1) [OF ok] by blast
    fix m e a
    assume "m \<in> set (sys_nodes t)" "np_pc m = N_Sent e a"
    from sent [OF this] have "a < length (heap (sys_world t)) \<and> handed p t a"
      using keep ok unfolding done_ok_def by blast
    then show "a < length (heap (sys_world t))" "handed p t a" by simp_all
  qed
qed

text \<open>The monitor and the controller never write Done, the southbound only what it has sent.\<close>

lemma monitor_marks:
  assumes "monitor_step n pc w = Ret (w', pc')" "a < length (heap w')" "State (heap w' ! a) = Done"
  shows "a < length (heap w) \<and> State (heap w ! a) = Done"
  using assms by (cases pc) (auto simp: go_simps store_simps put_new_simps new_value_def nth_append split: if_splits)

lemma ctrl_marks:
  assumes "ctrl_step pc w = Ret (w', pc')" "a < length (heap w')" "State (heap w' ! a) = Done"
  shows "a < length (heap w) \<and> State (heap w ! a) = Done"
  using assms by (cases pc) (auto simp: go_simps store_simps nth_list_update split: if_splits go.splits)

lemma node_marks:
  assumes "node_step p n pc w = Ret (w', pc', out)" "a < length (heap w')" "State (heap w' ! a) = Done"
  shows "a < length (heap w) \<and> (State (heap w ! a) = Done \<or> (\<exists>e. pc = N_Sent e a))"
  using assms by (cases pc) (auto simp: go_simps store_simps nth_list_update split: if_splits go.splits)

lemma node_sends:
  assumes "node_step p n pc w = Ret (w', N_Sent e a, out)"
  shows "a < length (heap w) \<and> heap w' = heap w \<and> E2NodeID (heap w ! a) = n \<and> out = [control_for p n (heap w ! a)]"
  using assms by (cases pc) (auto simp: go_simps store_simps load_def split: if_splits go.splits)

lemma done_ok_same:
  assumes "done_ok p s" "heap (sys_world t) = heap (sys_world s)" "sys_controls t = sys_controls s"
    and "\<And>m e a. m \<in> set (sys_nodes t) \<Longrightarrow> np_pc m = N_Sent e a \<Longrightarrow> \<exists>m' \<in> set (sys_nodes s). np_pc m' = N_Sent e a"
  shows "done_ok p t"
  by (rule done_ok_evolve [OF assms(1)]) (use assms(2-4) in auto)

lemma done_ok_node:
  assumes ok: "done_ok p s" and j: "j < length (sys_nodes s)"
  shows "done_ok p (do_node p j s)"
proof (cases "node_step p (np_node (sys_nodes s ! j)) (np_pc (sys_nodes s ! j)) (sys_world s)")
  case (Ret x)
  let ?t = "do_node p j s" and ?m = "sys_nodes s ! j"
  obtain w pc out where x: "x = (w, pc, out)" by (cases x)
  note step = Ret [unfolded x]
  have t: "sys_world ?t = w" "sys_nodes ?t = (sys_nodes s)[j := ?m\<lparr>np_pc := pc\<rparr>]" "sys_controls ?t = sys_controls s @ out"
    using step by (simp_all add: do_node_def Let_def)
  have ext: "heap_ext (heap (sys_world s)) (heap (sys_world ?t))" "set (sys_controls s) \<subseteq> set (sys_controls ?t)"
    using step by (cases "np_pc ?m") (auto simp: t go_simps heap_ext_set_state split: if_splits go.splits)
  show ?thesis
  proof (rule done_ok_evolve [OF ok ext])
    show "a < length (heap (sys_world s)) \<and> State (heap (sys_world s) ! a) = Done \<or> handed p ?t a"
      if "a < length (heap (sys_world ?t))" "State (heap (sys_world ?t) ! a) = Done" for a
    proof -
      note old = node_marks [OF step, of a]
      have "handed p ?t a" if "np_pc ?m = N_Sent e a" for e
        using done_okD(2) [OF ok j that] handed_mono [OF _ _ ext] by blast
      then show ?thesis using old that by (auto simp: t)
    qed
    show "(\<exists>m' \<in> set (sys_nodes s). np_pc m' = N_Sent e a) \<or> a < length (heap (sys_world ?t)) \<and> handed p ?t a"
      if m: "m \<in> set (sys_nodes ?t)" "np_pc m = N_Sent e a" for m e a
    proof (cases "m \<in> set (sys_nodes s)")
      case False
      then have "pc = N_Sent e a" using m by (auto simp: t(2) elim!: set_list_updateE)
      then show ?thesis using node_sends [OF step [unfolded \<open>pc = N_Sent e a\<close>]] by (simp add: handed_def t)
    qed (use m in blast)
  qed
qed (rule done_ok_same [OF ok]; simp add: do_node_def Let_def; blast)+

lemma sys_step_done: "sys_step cd p s t \<Longrightarrow> done_ok p s \<Longrightarrow> done_ok p t"
proof (induction rule: sys_step.induct)
  case (mon_move s j)
  show ?case
  proof (cases "monitor_step (mp_node (sys_mons s ! j)) (mp_pc (sys_mons s ! j)) (sys_world s)")
    case (Ret x)
    obtain w pc where x: "x = (w, pc)" by (cases x)
    have t: "sys_world (do_mon j s) = w" "sys_nodes (do_mon j s) = sys_nodes s" "sys_controls (do_mon j s) = sys_controls s"
      using Ret x by (simp_all add: do_mon_def Let_def)
    have "heap_ext (heap (sys_world s)) (heap w)"
      using Ret x heap_ext_put_new by (cases "mp_pc (sys_mons s ! j)") (auto simp: go_simps split: if_splits go.splits)
    then show ?thesis
      using monitor_marks [OF Ret [unfolded x]] by (intro done_ok_evolve [OF mon_move.prems]) (auto simp: t)
  qed (rule done_ok_same [OF mon_move.prems]; auto simp add: do_mon_def Let_def)+
next
  case (ctrl_move s)
  show ?case
  proof (cases "ctrl_step (sys_ctrl s) (sys_world s)")
    case (Ret x)
    obtain w pc where x: "x = (w, pc)" by (cases x)
    have t: "sys_world (do_ctrl s) = w" "sys_nodes (do_ctrl s) = sys_nodes s" "sys_controls (do_ctrl s) = sys_controls s"
      using Ret x by (simp_all add: do_ctrl_def)
    have "heap_ext (heap (sys_world s)) (heap w)"
      using Ret x by (cases "sys_ctrl s") (auto simp: go_simps heap_ext_set_state split: if_splits go.splits)
    then show ?thesis
      using ctrl_marks [OF Ret [unfolded x]] by (intro done_ok_evolve [OF ctrl_move.prems]) (auto simp: t)
  qed (rule done_ok_same [OF ctrl_move.prems]; auto simp add: do_ctrl_def)+
next
  case (node_move s j)
  then show ?case by (simp add: done_ok_node)
next
  case (connect s n)
  show ?case by (rule done_ok_same [OF connect.prems]) (auto simp: do_connect_def)
next
  case (recv s j r)
  show ?case by (rule done_ok_same [OF recv.prems]) (auto simp: do_recv_def split: go.splits)
qed (erule done_ok_same; auto simp: do_ctrl_watch_def do_node_watch_def do_watch_def do_cancel_def do_unwatch_def do_close_def
    do_send_closed_def do_node_end_def do_mon_ctx_def do_send_start_def do_taken_def do_deliver_ctrl_def do_deliver_node_def
    Let_def store_simps unwatch_def elim!: set_list_updateE)+

lemma reachable_done: "reachable cd p s \<Longrightarrow> done_ok p s"
proof (induction rule: reachable.induct)
  case reach_init
  then show ?case by (simp add: done_ok_def sys_init_def new_world_def)
next
  case (reach_step s t)
  then show ?case by (blast intro: sys_step_done)
qed

lemma sys_step_controls: "sys_step cd p s t \<Longrightarrow> set (sys_controls s) \<subseteq> set (sys_controls t)"
  by (induction rule: sys_step.induct)
    (auto simp: do_simps do_mon_def do_ctrl_def do_node_def do_recv_def Let_def split: go.splits)

lemma path_controls: "(sys_step cd p)\<^sup>*\<^sup>* s t \<Longrightarrow> set (sys_controls s) \<subseteq> set (sys_controls t)"
  by (induction rule: rtranclp_induct) (blast dest: sys_step_controls)+

lemma seen_controls:
  assumes "seen cd p em xs q h" "prog_run cd p em xs prog_init = Some g"
  shows "set (sys_controls (app_sys (pg_app h))) \<subseteq> set (sys_controls (app_sys (pg_app g)))"
proof -
  obtain ys zs where h: "xs = ys @ zs" "prog_run cd p em ys prog_init = Some h" using assms(1) by (auto simp: seen_def)
  then have "prog_run cd p em zs h = Some g" using assms(2) by simp
  from app_run_path [OF prog_run_app [OF this] prog_run_init(1) [OF h(2)]]
  show ?thesis by (rule path_controls)
qed

subsection \<open>Property\<close>

text \<open>A stored value that is done, however it was reached.\<close>

lemma done_value:
  assumes r: "reachable cd p s" and v: "a < length (heap (sys_world s))" "handed p s a"
  shows "\<exists>n rq. (n, rq) \<in> set (sys_inds s) \<and> RawUEID (heap (sys_world s) ! a) = rq_ue rq \<and>
    TgtCellID (heap (sys_world s) ! a) = rq_tgt rq \<and>
    \<lparr>cm_node = n, cm_header = bytes_or_nil (CreateRcControlHeader p (rq_ue rq)),
      cm_payload = bytes_or_nil (CreateRcControlMessage p (rq_tgt rq)), cm_cpid = rq_cpid rq\<rparr> \<in> set (sys_controls s)"
proof -
  have "val_ok (sys_inds s) (heap (sys_world s) ! a)"
    by (rule world_okD(2) [OF sys_invD(1) [OF reachable_inv [OF r]] v(1)])
  then obtain rq where rq: "(E2NodeID (heap (sys_world s) ! a), rq) \<in> set (sys_inds s)"
    "RawUEID (heap (sys_world s) ! a) = rq_ue rq" "TgtCellID (heap (sys_world s) ! a) = rq_tgt rq"
    "CallProcessID (heap (sys_world s) ! a) = rq_cpid rq" by (auto simp: val_ok_def)
  then show ?thesis
    using v(2) by (intro exI [of _ "E2NodeID (heap (sys_world s) ! a)"] exI [of _ rq]) (simp add: handed_def control_for_def)
qed

text \<open>
  C5. A reported handover has been carried out. Whatever runs concurrently, when a reply of
  \<open>GetUes\<close> says Done for a UE, then an indication with that UE and the reported target cell was
  accepted, and the control message for it, with its call process, has been handed to the E2
  client for the node of the indication before. (The E2 client's own outcome is only logged.)
\<close>

theorem done_was_handed_over:
  fixes xs :: "'f prog_act list"
  assumes run: "prog_run cd p em xs prog_init = Some g"
    and reply: "q < length (pg_reqs g)" "rq_reply (pg_reqs g ! q) = Some (UeList us)"
    and row: "u \<in> set us" "UeInfo_HoState u = ''Done''"
  shows "\<exists>n rq gnb. (n, rq) \<in> set (sys_inds (app_sys (pg_app g))) \<and> GetGNbUeid (rq_ue rq) = Some gnb \<and>
    UeInfo_UeId u = dec_int (GetAmfUeNgapId gnb) \<and> UeInfo_Cgi u = rq_tgt rq \<and>
    \<lparr>cm_node = n, cm_header = bytes_or_nil (CreateRcControlHeader p (rq_ue rq)),
      cm_payload = bytes_or_nil (CreateRcControlMessage p (rq_tgt rq)), cm_cpid = rq_cpid rq\<rparr>
      \<in> set (sys_controls (app_sys (pg_app g)))"
proof -
  obtain h' order where m: "reply_of (pg_reqs g ! q) (UeList us)"
    "rq_call (pg_reqs g ! q) = Call_GetUes \<longrightarrow>
       list_all2 (row_read cd p em xs q) (rq_ues (pg_reqs g ! q)) (Entries order (mstore (pg_world h')))"
    by (rule reply_moment [OF run reply]) (rule that)
  then have "list_all2 (row_read cd p em xs q) us (Entries order (mstore (pg_world h')))"
    by (auto simp: reply_of_def split: nb_call.splits)
  then obtain e where "row_read cd p em xs q u e" using row(1) by (auto simp: list_all2_conv_all_nth in_set_conv_nth)
  then obtain h where h: "seen cd p em xs q h" "gnb_entry (pg_world h) e" "u = row_of (pg_world h) e"
    by (auto simp: row_read_def)
  let ?s = "app_sys (pg_app h)" and ?t = "app_sys (pg_app g)" and ?a = "Value e"
  obtain ys :: "'f prog_act list" where "prog_run cd p em ys prog_init = Some h" using h(1) by (auto simp: seen_def)
  then have r: "reachable cd p ?s" by (rule prog_run_init)
  have a: "?a < length (heap (sys_world ?s))" using h(2) by (simp add: gnb_entry_def)
  have st: "State (heap (sys_world ?s) ! ?a) = Done"
    using row(2) by (cases "State (heap (sys_world ?s) ! ?a)") (simp_all add: h(3) row_of_def ue_row_def stored_def)
  have le: "heap_ext (heap (sys_world ?s)) (heap (sys_world ?t))"
    using seen_world(2) [OF h(1) run] by (simp add: world_le_def)
  have "handed p ?t ?a"
    by (rule handed_mono [OF done_okD(1) [OF reachable_done [OF r] a st] a le seen_controls [OF h(1) run]])
  moreover have "?a < length (heap (sys_world ?t))" using a le by (simp add: heap_ext_def)
  ultimately obtain n rq where rq: "(n, rq) \<in> set (sys_inds ?t)" "RawUEID (heap (sys_world ?t) ! ?a) = rq_ue rq"
      "TgtCellID (heap (sys_world ?t) ! ?a) = rq_tgt rq"
      "\<lparr>cm_node = n, cm_header = bytes_or_nil (CreateRcControlHeader p (rq_ue rq)),
         cm_payload = bytes_or_nil (CreateRcControlMessage p (rq_tgt rq)), cm_cpid = rq_cpid rq\<rparr> \<in> set (sys_controls ?t)"
    using done_value [OF prog_run_init(2) [OF run]] by blast
  have "same_ident (heap (sys_world ?s) ! ?a) (heap (sys_world ?t) ! ?a)" using le a by (simp add: heap_ext_def)
  then have "RawUEID (heap (sys_world ?s) ! ?a) = rq_ue rq" "TgtCellID (heap (sys_world ?s) ! ?a) = rq_tgt rq"
    using rq(2,3) by (simp_all add: same_ident_def)
  then obtain gnb where "GetGNbUeid (rq_ue rq) = Some gnb" "u = ue_row (stored (pg_world h) e) gnb" "UeInfo_Cgi u = rq_tgt rq"
    using h(2,3) by (auto simp: gnb_entry_def stored_def row_of_def ue_row_def)
  then show ?thesis
    using rq(1,4) by (intro exI [of _ n] exI [of _ rq] exI [of _ gnb]) (simp add: ue_row_def)
qed

theorem done_was_handed_over_witness:
  "\<exists>h n rq. prog_run sample_codec sample_pdu sample_manager
       (map G_App (app_up @ app_feed @ app_deliver) @ G_Arrive Call_GetUes # nb_ask) prog_init = Some h \<and>
     rq_reply (pg_reqs h ! 0) = Some (UeList [\<lparr>UeInfo_UeId = ''7'', UeInfo_HoState = ''Done'', UeInfo_Cgi = ''c1''\<rparr>]) \<and>
     (n, rq) \<in> set (sys_inds (app_sys (pg_app h))) \<and> rq_tgt rq = ''c1''"
proof -
  obtain a b c where run: "app_run sample_codec sample_pdu sample_manager app_up app_init = Some a"
    "app_run sample_codec sample_pdu sample_manager app_feed a = Some b"
    "app_run sample_codec sample_pdu sample_manager app_deliver b = Some c"
    and c: "\<not> app_panic c" "sys_crash (app_sys c) = None"
      "records (mstore (sys_world (app_sys c))) = [sample_key \<mapsto> \<lparr>Key = sample_key, Value = 0\<rparr>]"
      "heap (sys_world (app_sys c)) = [(new_value sample_rq1 ''n1'')\<lparr>State := Done\<rparr>]"
    using app_up_run by blast
  let ?g = "prog_init\<lparr>pg_app := c\<rparr>"
  have g: "pg_app ?g = c" "pg_reqs ?g = []" "pg_lock ?g = None" "\<not> dead ?g"
    using c(1,2) by (simp_all add: prog_init_def dead_def)
  obtain h where h: "prog_run sample_codec sample_pdu sample_manager (G_Arrive Call_GetUes # nb_ask) ?g = Some h"
    "length (pg_reqs h) = 1"
    "rq_reply (pg_reqs h ! 0) = Some (UeList [\<lparr>UeInfo_UeId = ''7'', UeInfo_HoState = ''Done'', UeInfo_Cgi = ''c1''\<rparr>])"
    using nb_ask_run [of ?g] g c(3,4) by auto
  have "prog_run sample_codec sample_pdu sample_manager (map G_App (app_up @ app_feed @ app_deliver)) prog_init = Some ?g"
    using app_run_prog [of _ _ _ "app_up @ app_feed @ app_deliver" prog_init c] app_run_append [OF run(1) app_run_append [OF run(2,3)]]
    by (simp add: prog_init_def)
  then have whole: "prog_run sample_codec sample_pdu sample_manager
      (map G_App (app_up @ app_feed @ app_deliver) @ G_Arrive Call_GetUes # nb_ask) prog_init = Some h"
    using h(1) by (simp only: prog_run_append option.case)
  have "0 < length (pg_reqs h)" using h(2) by simp
  then obtain n rq where "(n, rq) \<in> set (sys_inds (app_sys (pg_app h)))" "rq_tgt rq = ''c1''"
    using done_was_handed_over [OF whole _ h(3), of "\<lparr>UeInfo_UeId = ''7'', UeInfo_HoState = ''Done'', UeInfo_Cgi = ''c1''\<rparr>"]
    by fastforce
  then show ?thesis using whole h(3) by blast
qed

end
