(* ===== verification/Mho_Shutdown.thy ===== *)
theory Mho_Shutdown
  imports Mho_Replies
begin

text \<open>
  The process after its topology watch has returned. The watch is started once, so the context of
  the subscriptions stays cancelled; once what was under way has run out, no step of the
  application touches the store, the controller or a node any more (\<open>frozen\<close>), whatever the E2
  SDK still delivers and whatever requests arrive.
\<close>

definition frozen :: "app \<Rightarrow> bool" where
  "frozen a \<longleftrightarrow> app_topo a = W_Ended \<and> quiescent (app_sys a) \<and>
     (\<forall>j < length (app_subs a). (\<exists>e. sp_pc (app_subs a ! j) = S_Failed e) \<or>
        (\<exists>r. sp_pc (app_subs a ! j) = S_Monitor r) \<and> blocked (mp_loop (sys_mons (app_sys a) ! j)))"

lemma frozenD:
  assumes "frozen a"
  shows "app_topo a = W_Ended" "quiescent (app_sys a)"
    "j < length (app_subs a) \<Longrightarrow> (\<exists>e. sp_pc (app_subs a ! j) = S_Failed e) \<or>
       (\<exists>r. sp_pc (app_subs a ! j) = S_Monitor r) \<and> blocked (mp_loop (sys_mons (app_sys a) ! j))"
  using assms by (simp_all add: frozen_def)

text \<open>A monitor of a cancelled subscription can always receive the error of its context, so at
  rest every monitor has blocked.\<close>

lemma rest_frozen:
  assumes rest: "at_rest cd p em a" "\<not> app_panic a" "sys_crash (app_sys a) = None"
    and ok: "app_ok a" "reachable cd p (app_sys a)" and ended: "app_topo a = W_Ended"
  shows "frozen a"
proof -
  have q: "quiescent (app_sys a)" by (rule rest_quiescent [OF rest ok(2)])
  have c: "sys_cancelled (app_sys a)" using app_okD(1) [OF ok(1)] ended by simp
  have "blocked (mp_loop (sys_mons (app_sys a) ! j))"
    if j: "j < length (app_subs a)" "sp_pc (app_subs a ! j) = S_Monitor r" for j r
  proof -
    have "length (sys_mons (app_sys a)) = length (app_subs a)" using app_okD(2) [OF ok(1)] by (metis length_map)
    then have "mp_pc (sys_mons (app_sys a) ! j) = M_Idle" using q j(1) by (simp add: quiescent_def)
    moreover have "0 < length (recv_outcomes r a)" using c by (simp add: recv_outcomes_def stream_Recv_def)
    ultimately show ?thesis using at_restD [OF rest, of "P_Recv j 0"] j by (simp split: if_splits)
  qed
  then show ?thesis using rest_subscribed(1) [OF rest] q ended unfolding frozen_def by blast
qed

text \<open>Nothing that can still happen gets past the streams.\<close>

lemma frozen_exec:
  assumes "app_exec cd p em x a = Some b" "frozen a"
  shows "frozen b \<and> app_sys b = app_sys a \<and> app_got b = app_got a"
  using assms(1)
proof (cases rule: app_exec_cases)
  case (feed_open j i)
  then show ?thesis
    using assms(2) by (auto simp: frozen_def feed_open_def set_sub_def nth_list_update)
next
  case (feed_send j r m)
  then show ?thesis
    using assms(2)
    by (auto simp: frozen_def feed_send_def set_stream_def set_sub_def nth_list_update split: prod.split sum.split)
next
  case (feed_closed j r)
  then show ?thesis using assms(2) by (auto simp: frozen_def set_sub_def nth_list_update)
next
  case (drain r s)
  then show ?thesis using assms(2) by (simp add: frozen_def set_stream_def)
next
  case (inner y t)
  then have "act_enabled y (app_sys a)" by (simp add: exec_act_def split: if_splits)
  then show ?thesis
    using quiescent_stuck [OF frozenD(2) [OF assms(2)]] can_moveI [OF inner(2)] by blast
qed (use frozenD [OF assms(2)] in fastforce)+

lemma frozen_run:
  "app_run cd p em xs a = Some b \<Longrightarrow> frozen a \<Longrightarrow> app_topo b = W_Ended \<and> app_sys b = app_sys a \<and> app_got b = app_got a"
proof (induction xs arbitrary: a)
  case (Cons x xs)
  then obtain u where u: "app_exec cd p em x a = Some u" "app_run cd p em xs u = Some b"
    by (auto split: option.splits)
  show ?case using frozen_exec [OF u(1) Cons.prems(2)] Cons.IH [OF u(2)] by simp
qed (simp add: frozen_def)

text \<open>The watch is not started a second time.\<close>

lemma ended_exec: "app_exec cd p em x a = Some b \<Longrightarrow> app_topo a = W_Ended \<Longrightarrow> app_topo b = W_Ended"
  by (erule app_exec_cases)
    (auto simp: sub_request_def set_sub_def sub_lookup_def sub_create_def sub_opened_def feed_open_def feed_send_def
      set_stream_def mon_receive_def Let_def split: sum.split prod.split option.split)

lemma ended_run: "app_run cd p em xs a = Some b \<Longrightarrow> app_topo a = W_Ended \<Longrightarrow> app_topo b = W_Ended"
  by (induction xs arbitrary: a) (auto split: option.splits dest: ended_exec)

text \<open>A frozen application whose writers are open and whose streams have settled is at rest.\<close>

lemma frozen_rest:
  assumes f: "frozen a" and "\<And>j i. j < length (app_subs a) \<Longrightarrow> sp_feed (app_subs a ! j) \<noteq> F_Open i"
    and "\<And>r. r < length (objs (app_broker a)) \<Longrightarrow> drain_step (stream_at r a) = None"
  shows "at_rest cd p em a"
  unfolding at_rest_def
proof (intro allI impI)
  fix x :: "unit app_act"
  assume x: "settling x"
  show "app_exec cd p em x a = None"
  proof (rule ccontr)
    assume "app_exec cd p em x a \<noteq> None"
    then obtain b where "app_exec cd p em x a = Some b" by auto
    then show False
    proof (cases rule: app_exec_cases)
      case (inner y t)
      then have "act_enabled y (app_sys a)" by (simp add: exec_act_def split: if_splits)
      then show False using quiescent_stuck [OF frozenD(2) [OF f]] can_moveI [OF inner(2)] by blast
    qed (use x frozenD(3) [OF f] assms(2,3) in fastforce)+
  qed
qed

subsection \<open>Property\<close>

lemma removal_turn:
  assumes "TopoType ev = T_REMOVED" "relation_target ev = Ret n"
    and "HasRcRANFunction (env_topo v) (env_ord v) n oid" "rnib_GetCells (env_topo v) n = Inl e"
  shows "app_topo (app_event v ev a) = W_Ended"
  using assms by (simp add: app_event_def topo_turn_def topo_end_def)

text \<open>
  C11. One departing node stops the handovers of all nodes, for good. Let the process be running
  and let a node with the RC function be removed whose cells cannot be listed (they are NotFound
  once the topology has dropped them). Once what was then under way has run out, every further
  run, with whatever indications, topology events and requests, leaves the store, the
  controller, the monitors and the watchers of all nodes as they are: no indication is received
  any more, no row of the UE table changes and no control message is sent, although the process
  is up, feeds fill their streams and requests are answered.
\<close>

theorem removal_freezes_handovers:
  fixes xs ys zs :: "'f prog_act list"
  assumes up: "prog_run cd p em xs prog_init = Some g"
    and ev: "TopoType ev = T_REMOVED" "relation_target ev = Ret n"
      "HasRcRANFunction (env_topo v) (env_ord v) n oid" "rnib_GetCells (env_topo v) n = Inl e"
    and run: "prog_run cd p em (G_App (P_Event v ev) # ys) g = Some h"
    and rest: "prog_rest cd p em h" "\<not> app_panic (pg_app h)" "sys_crash (app_sys (pg_app h)) = None"
    and later: "prog_run cd p em zs h = Some k"
  shows "app_sys (pg_app k) = app_sys (pg_app h) \<and> app_got (pg_app k) = app_got (pg_app h) \<and> app_topo (pg_app k) = W_Ended"
proof -
  have h: "prog_run cd p em (xs @ G_App (P_Event v ev) # ys) prog_init = Some h" using up run by simp
  obtain a where a: "app_exec cd p em (P_Event v ev) (pg_app g) = Some a"
    "app_run cd p em (app_part ys) a = Some (pg_app h)"
    using prog_run_app [OF run] by (auto split: option.splits)
  have "a = app_event v ev (pg_app g)" using a(1) by (auto simp: app_exec_def split: if_splits)
  then have "app_topo a = W_Ended" using removal_turn [OF ev] by simp
  then have ended: "app_topo (pg_app h) = W_Ended" by (rule ended_run [OF a(2)])
  have live: "\<not> dead h" using prog_run_inv [OF h] rest(2,3) by (simp add: dead_def prog_inv_def)
  have "frozen (pg_app h)"
    by (rule rest_frozen [OF rest_app [OF prog_run_inv [OF h] rest(1) live] rest(2,3) prog_run_init(1,2) [OF h] ended])
  then show ?thesis using frozen_run [OF prog_run_app [OF later]] by simp
qed

text \<open>Node \<open>n2\<close> is removed while \<open>n1\<close> is being served; an indication of \<open>n1\<close> comes too late.\<close>

definition removal_settles :: "unit app_act list" where
  "removal_settles = map P_Inner [A_Unwatch 0 1 [0, 1], A_Close 0, A_NodeEnd 0, A_MonCtx 0] @ [P_Recv 0 0, P_Drain 0]"

definition too_late :: "unit app_act list" where
  "too_late = [P_FeedSend 0 (sample_ind 1), P_Drain 0]"

lemma sample_removal:
  "TopoType (relation_event T_REMOVED ''n2'') = T_REMOVED" "relation_target (relation_event T_REMOVED ''n2'') = Ret ''n2''"
  "HasRcRANFunction (env_topo sample_env) (env_ord sample_env) ''n2'' oid"
  "rnib_GetCells (env_topo sample_env) ''n2'' = Inl NotFound"
  using sample_has_rc [of "[''n1'', ''n2'']" "''n2''"]
  by (simp_all add: relation_target_def relation_event_def control_relation_def rnib_GetCells_def sample_env_def sample_topo_def)

lemma removal_eval:
  "\<exists>a b c. app_run sample_codec sample_pdu sample_manager app_up app_init = Some a \<and>
    app_run sample_codec sample_pdu sample_manager
      (P_Event sample_env (relation_event T_REMOVED ''n2'') # removal_settles) a = Some b \<and>
    app_run sample_codec sample_pdu sample_manager too_late b = Some c \<and>
    \<not> app_panic b \<and> sys_crash (app_sys b) = None \<and> app_topo b = W_Ended \<and> quiescent (app_sys b) \<and>
    length (app_subs b) = 1 \<and> sp_pc (app_subs b ! 0) = S_Monitor 0 \<and> sp_feed (app_subs b ! 0) = F_Range 0 \<and>
    blocked (mp_loop (sys_mons (app_sys b) ! 0)) \<and> length (objs (app_broker b)) = 1 \<and> drain_step (stream_at 0 b) = None \<and>
    app_fed c = [(0, 0, sample_ind 1)] \<and> app_got c = []"
proof -
  have t: "topo_turn sample_env (relation_event T_REMOVED ''n2'') = Ret ([], Some NotFound)"
    using sample_removal by (simp add: topo_turn_def)
  show ?thesis
    by (simp add: app_up_def removal_settles_def too_late_def app_run_simps run_simps sample_watch sample_turn
        sample_request t topo_end_def quiescent_def send_err_def)
qed

theorem removal_freezes_handovers_witness:
  "\<exists>h k. prog_run sample_codec sample_pdu sample_manager
       (map G_App (app_up @ P_Event sample_env (relation_event T_REMOVED ''n2'') # removal_settles)) prog_init = Some h \<and>
     prog_rest sample_codec sample_pdu sample_manager h \<and>
     prog_run sample_codec sample_pdu sample_manager (map G_App too_late) h = Some k \<and>
     app_fed (pg_app k) = [(0, 0, sample_ind 1)] \<and> app_sys (pg_app k) = app_sys (pg_app h)"
proof -
  let ?ev = "relation_event T_REMOVED ''n2''" and ?g = "\<lambda>a. prog_init\<lparr>pg_app := a\<rparr>"
  obtain a b c where run: "app_run sample_codec sample_pdu sample_manager app_up app_init = Some a"
    "app_run sample_codec sample_pdu sample_manager (P_Event sample_env ?ev # removal_settles) a = Some b"
    "app_run sample_codec sample_pdu sample_manager too_late b = Some c"
    and b: "\<not> app_panic b" "sys_crash (app_sys b) = None" "app_topo b = W_Ended" "quiescent (app_sys b)"
      "length (app_subs b) = 1" "sp_pc (app_subs b ! 0) = S_Monitor 0" "sp_feed (app_subs b ! 0) = F_Range 0"
      "blocked (mp_loop (sys_mons (app_sys b) ! 0))" "length (objs (app_broker b)) = 1" "drain_step (stream_at 0 b) = None"
    and c: "app_fed c = [(0, 0, sample_ind 1)]"
    using removal_eval by blast
  have "at_rest sample_codec sample_pdu sample_manager b"
    using b by (intro frozen_rest) (simp_all add: frozen_def)
  then have rest: "prog_rest sample_codec sample_pdu sample_manager (?g b)"
    by (intro prog_restI) (simp_all add: prog_init_def)
  have up: "prog_run sample_codec sample_pdu sample_manager (map G_App app_up) prog_init = Some (?g a)"
    using app_run_prog [of _ _ _ app_up prog_init a] run(1) by (simp add: prog_init_def)
  have down: "prog_run sample_codec sample_pdu sample_manager (G_App (P_Event sample_env ?ev) # map G_App removal_settles) (?g a) = Some (?g b)"
    using app_run_prog [of _ _ _ "P_Event sample_env ?ev # removal_settles" "?g a" b] run(2) by (simp add: prog_init_def)
  have later: "prog_run sample_codec sample_pdu sample_manager (map G_App too_late) (?g b) = Some (?g c)"
    using app_run_prog [of _ _ _ too_late "?g b" c] run(3) by (simp add: prog_init_def)
  have "prog_run sample_codec sample_pdu sample_manager
      (map G_App app_up @ (G_App (P_Event sample_env ?ev) # map G_App removal_settles)) prog_init = Some (?g b)"
    by (simp only: prog_run_append up down option.case)
  then show ?thesis
    using removal_freezes_handovers [OF up sample_removal down rest _ _ later] b(1,2) rest later c
    by (intro exI [of _ "?g b"] exI [of _ "?g c"]) simp
qed

end
