(* ===== verification/Mho_Feeds.thy ===== *)
theory Mho_Feeds
  imports Mho_Delivery
begin

text \<open>
  From the subscription channels to the monitors: what a feeding goroutine took from its channel,
  what its stream accepted, and what the monitors received. The invariant \<open>feeds_ok\<close> compares the
  first two, per goroutine; that of the application (\<open>app_ok\<close>) the other two, per stream.
\<close>

definition log_by :: "nat \<Rightarrow> stream_log \<Rightarrow> stream_log" where
  "log_by j l = filter (\<lambda>(_, i, _). i = j) l"

lemma log_by_append [simp]: "log_by j (xs @ ys) = log_by j xs @ log_by j ys"
  by (simp add: log_by_def)

lemma log_by_simps [simp]:
  "log_by j [] = []" "log_by j ((r, i, m) # l) = (if i = j then (r, i, m) # log_by j l else log_by j l)"
  by (simp_all add: log_by_def)

text \<open>What a goroutine may have lost: one indication, the last it took, to a full stream.\<close>

definition refused :: "app \<Rightarrow> nat \<Rightarrow> stream_log \<Rightarrow> bool" where
  "refused a j lost \<longleftrightarrow> lost = [] \<or>
     (\<exists>r m. lost = [(r, j, m)] \<and> j < length (app_subs a) \<and> sp_feed (app_subs a ! j) = F_Ended \<and>
        sp_pc (app_subs a ! j) = S_Monitor r \<and> bufferMaxSize \<le> length (log_for r (app_fed a)))"

definition feeds_ok :: "app \<Rightarrow> bool" where
  "feeds_ok a \<longleftrightarrow> (\<forall>j. \<exists>lost. log_by j (app_taken a) = log_by j (app_fed a) @ lost \<and> refused a j lost)"

text \<open>A goroutine that has ended and its monitor stay what they are.\<close>

definition ended_stay :: "app \<Rightarrow> app \<Rightarrow> bool" where
  "ended_stay a b \<longleftrightarrow> length (app_subs a) \<le> length (app_subs b) \<and>
     (\<forall>j r. j < length (app_subs a) \<longrightarrow> sp_feed (app_subs a ! j) = F_Ended \<longrightarrow> sp_pc (app_subs a ! j) = S_Monitor r \<longrightarrow>
        sp_feed (app_subs b ! j) = F_Ended \<and> sp_pc (app_subs b ! j) = S_Monitor r)"

lemma ended_stay_same: "app_subs b = app_subs a \<Longrightarrow> ended_stay a b"
  by (simp add: ended_stay_def)

lemma ended_stay_set_sub:
  assumes "app_subs b = (app_subs a)[j := m]" "\<And>r. sp_pc (app_subs a ! j) = S_Monitor r \<Longrightarrow> sp_feed (app_subs a ! j) \<noteq> F_Ended"
  shows "ended_stay a b"
  unfolding ended_stay_def
proof (intro conjI allI impI)
  fix i r
  assume i: "i < length (app_subs a)" "sp_feed (app_subs a ! i) = F_Ended" "sp_pc (app_subs a ! i) = S_Monitor r"
  then have "i \<noteq> j" using assms(2) by auto
  then show "sp_feed (app_subs b ! i) = F_Ended" "sp_pc (app_subs b ! i) = S_Monitor r" using i assms(1) by simp_all
qed (simp add: assms(1))

lemma refused_keep:
  assumes "refused a j lost" "ended_stay a b" "app_fed b = app_fed a @ new"
  shows "refused b j lost"
  using assms unfolding refused_def ended_stay_def by force

lemma feeds_ok_keep:
  assumes "feeds_ok a" "ended_stay a b" "app_taken b = app_taken a" "app_fed b = app_fed a"
  shows "feeds_ok b"
  using assms(1) refused_keep [OF _ assms(2), of _ _ "[]"] assms(3,4) unfolding feeds_ok_def by (metis append_Nil2)

lemma announces_subs:
  "app_taken (fold announce ns a) = app_taken a \<and> app_fed (fold announce ns a) = app_fed a \<and> ended_stay a (fold announce ns a)"
proof (induction ns arbitrary: a)
  case (Cons n ns)
  have "app_taken (announce n a) = app_taken a" "app_fed (announce n a) = app_fed a" "ended_stay a (announce n a)"
    by (simp_all add: announce_def ended_stay_def nth_append)
  then show ?case using Cons.IH [of "announce n a"] unfolding ended_stay_def by (auto intro: le_trans)
qed (simp add: ended_stay_def)

lemma feeds_ok_send:
  assumes ok: "app_ok a" "streams_open a" "feeds_ok a" and j: "j < length (app_subs a)" "sp_feed (app_subs a ! j) = F_Range r"
  shows "feeds_ok (feed_send j r m a)"
proof -
  note r = feed_reads [OF ok(1) j]
  obtain s res where s: "stream_Send m (stream_at r a) = (s, res)" by fastforce
  have mine: "log_by j (app_taken a) = log_by j (app_fed a)"
    using ok(3) j(2) unfolding feeds_ok_def refused_def by (metis append_Nil2 feed_pc.distinct(11))
  show ?thesis
  proof (cases res)
    case (Inr u)
    let ?b = "feed_send j r m a"
    have b: "app_taken ?b = app_taken a @ [(r, j, m)]" "app_fed ?b = app_fed a @ [(r, j, m)]" "app_subs ?b = app_subs a"
      using s Inr by (simp_all add: feed_send_def)
    show ?thesis
      unfolding feeds_ok_def
    proof
      fix i
      obtain lost where l: "log_by i (app_taken a) = log_by i (app_fed a) @ lost" "refused a i lost"
        using ok(3) unfolding feeds_ok_def by blast
      have "refused ?b i lost" by (rule refused_keep [OF l(2) ended_stay_same [OF b(3)] b(2)])
      then show "\<exists>lost. log_by i (app_taken ?b) = log_by i (app_fed ?b) @ lost \<and> refused ?b i lost"
        using l(1) mine by (cases "i = j") (auto simp: b refused_def)
    qed
  next
    case (Inl e)
    let ?b = "feed_send j r m a"
    have b: "app_taken ?b = app_taken a @ [(r, j, m)]" "app_fed ?b = app_fed a"
      "app_subs ?b = (app_subs a)[j := (app_subs a ! j)\<lparr>sp_feed := F_Ended\<rparr>]"
      using s Inl by (simp_all add: feed_send_def set_sub_def)
    have stay: "ended_stay a ?b" by (rule ended_stay_set_sub [OF b(3)]) (simp add: j(2))
    have "objs (app_broker a) ! r \<in> set (objs (app_broker a))" using r(2) by simp
    then have "\<not> closed (stream_at r a)" using ok(2) unfolding streams_open_def stream_at_def by blast
    then have "length (buffer (stream_at r a)) = bufferMaxSize" using s Inl by (auto simp: stream_Send_def split: if_splits)
    then have full: "bufferMaxSize \<le> length (log_for r (app_fed a))"
      using app_okD(7) [OF ok(1) r(2)] by (simp add: pending_def)
    show ?thesis
      unfolding feeds_ok_def
    proof
      fix i
      obtain lost where l: "log_by i (app_taken a) = log_by i (app_fed a) @ lost" "refused a i lost"
        using ok(3) unfolding feeds_ok_def by blast
      have "refused ?b i lost" by (rule refused_keep [OF l(2) stay, of "[]"]) (simp add: b)
      moreover have "refused ?b j [(r, j, m)]" using j(1) r(1) full by (simp add: refused_def b)
      ultimately show "\<exists>lost. log_by i (app_taken ?b) = log_by i (app_fed ?b) @ lost \<and> refused ?b i lost"
        using l(1) mine by (cases "i = j") (auto simp: b)
    qed
  qed
qed

lemma feeds_ok_step:
  assumes step: "app_exec cd p em x a = Some b" and ok: "app_ok a" "streams_open a" "feeds_ok a"
  shows "feeds_ok b"
  using step
proof (cases rule: app_exec_cases)
  case (watch v)
  then show ?thesis
    by (intro feeds_ok_keep [OF ok(3)]) (auto simp: app_watch_def topo_end_def split: option.split intro!: ended_stay_same)
next
  case (event v ev)
  show ?thesis
    by (rule feeds_ok_keep [OF ok(3)])
      (use announces_subs in \<open>auto simp: event(3) app_event_def topo_end_def Let_def ended_stay_def split: go.split prod.split option.split\<close>)
next
  case (feed_send j r m)
  then show ?thesis using feeds_ok_send [OF ok] by simp
next
  case (request v j)
  then show ?thesis
    by (intro feeds_ok_keep [OF ok(3)])
      (auto simp: sub_request_def set_sub_def Let_def split: sum.split prod.split intro!: ended_stay_set_sub)
next
  case (lookup j c spec)
  then show ?thesis
    by (intro feeds_ok_keep [OF ok(3)])
      (auto simp: sub_lookup_def sub_opened_def set_sub_def split: option.split intro!: ended_stay_set_sub)
next
  case (create j c spec)
  then show ?thesis
    by (intro feeds_ok_keep [OF ok(3)])
      (auto simp: sub_create_def sub_opened_def set_sub_def split: prod.split intro!: ended_stay_set_sub)
next
  case (feed_open j i)
  then show ?thesis
    by (intro feeds_ok_keep [OF ok(3)]) (auto simp: feed_open_def set_sub_def intro!: ended_stay_set_sub)
next
  case (feed_closed j r)
  then show ?thesis by (intro feeds_ok_keep [OF ok(3)]) (auto simp: set_sub_def intro!: ended_stay_set_sub)
next
  case (recv j i r s res)
  then show ?thesis
    by (intro feeds_ok_keep [OF ok(3)]) (auto simp: mon_receive_def set_stream_def Let_def split: sum.split intro!: ended_stay_same)
qed (auto intro!: feeds_ok_keep [OF ok(3)] ended_stay_same simp: topo_end_def)

lemma feeds_ok_run:
  "app_run cd p em xs a = Some b \<Longrightarrow> app_ok a \<Longrightarrow> streams_open a \<Longrightarrow> feeds_ok a \<Longrightarrow> feeds_ok b"
proof (induction xs arbitrary: a)
  case (Cons x xs)
  then obtain c where c: "app_exec cd p em x a = Some c" "app_run cd p em xs c = Some b"
    by (auto split: option.splits)
  then show ?case
    using Cons.IH [OF c(2) app_exec_ok [OF c(1)] streams_open_step [OF c(1)] feeds_ok_step [OF c(1)]] Cons.prems by blast
qed simp

lemma feeds_ok_init: "feeds_ok app_init"
  by (simp add: feeds_ok_def app_init_def refused_def)

subsection \<open>Property\<close>

text \<open>
  C16. Between the subscription channels and the monitors an indication can be lost in one place
  only: a feeding goroutine that finds its stream full drops the indication it has just taken, after
  the stream has accepted ten thousand, and ends, so that it drops one and takes no further one. Every
  other indication that it took was accepted, in order. For every stream, the accepted indications are
  the ones its monitors have received, followed by the ones still inside, in order, none lost or
  duplicated; and the requests accepted by the system are exactly those received indications that
  parse, in order, each under the node of the monitor that received it.
\<close>

theorem pipeline_fifo:
  assumes "app_run cd p em xs app_init = Some a" "empty_decodes cd"
  shows "(\<forall>j. \<exists>lost. log_by j (app_taken a) = log_by j (app_fed a) @ lost \<and>
      (lost = [] \<or> (\<exists>r m. lost = [(r, j, m)] \<and> sp_feed (app_subs a ! j) = F_Ended \<and>
         10000 \<le> length (log_for r (app_fed a))))) \<and>
    (\<forall>r < length (objs (app_broker a)). log_for r (app_fed a) = log_for r (app_got a) @ pending (stream_at r a)) \<and>
    sys_inds (app_sys a) = accepted cd (name_of a) (app_got a)"
proof (intro conjI allI impI)
  note ok = app_runs_init [OF assms(1)]
  have f: "feeds_ok a"
    by (rule feeds_ok_run [OF assms(1) app_ok_init streams_open_init feeds_ok_init])
  show "\<exists>lost. log_by j (app_taken a) = log_by j (app_fed a) @ lost \<and>
      (lost = [] \<or> (\<exists>r m. lost = [(r, j, m)] \<and> sp_feed (app_subs a ! j) = F_Ended \<and>
         10000 \<le> length (log_for r (app_fed a))))" for j
    using f unfolding feeds_ok_def refused_def bufferMaxSize_def by blast
  show "log_for r (app_fed a) = log_for r (app_got a) @ pending (stream_at r a)"
    if "r < length (objs (app_broker a))" for r by (rule app_okD(7) [OF ok(1) that])
  show "sys_inds (app_sys a) = accepted cd (name_of a) (app_got a)"
    using ok(3) [OF assms(2)] by (simp add: inds_ok_def)
qed

theorem pipeline_fifo_witness:
  "\<exists>a. app_run sample_codec sample_pdu sample_manager app_boot app_init = Some a \<and>
     log_for 0 (app_fed a) = [sample_ind 1] @ pending (stream_at 0 a) \<and>
     sys_inds (app_sys a) = accepted sample_codec (name_of a) [(0, 0, sample_ind 1)]"
proof -
  obtain a where a: "app_run sample_codec sample_pdu sample_manager app_boot app_init = Some a"
    "app_got a = [(0, 0, sample_ind 1)]" "length (objs (app_broker a)) = 1"
    using app_boot_run by blast
  from pipeline_fifo [OF a(1) sample_empty] a show ?thesis by auto
qed

end
