(* ===== verification/Mho_Crashes.thy ===== *)
theory Mho_Crashes
  imports Mho_Requests
begin

text \<open>
  What can crash the process. A panic in any goroutine ends it, so a run stops at its first panic, and
  the step that caused it is the last of the run.
\<close>

definition bad_event :: "topo_event \<Rightarrow> bool" where
  "bad_event ev \<longleftrightarrow> TopoType ev \<in> {T_NONE, T_ADDED, T_REMOVED} \<and> (\<forall>n. relation_target ev \<noteq> Ret n)"

text \<open>The message of a relation is only missing in an event that is about something else.\<close>

lemma bad_event_object: "bad_event ev \<Longrightarrow> \<nexists>r. Obj (TopoObject ev) = Object_Relation (Some r)"
  by (auto simp: bad_event_def relation_target_def)

lemma topo_turn_panics: "\<nexists>x. topo_turn v ev = Ret x \<Longrightarrow> bad_event ev"
  by (cases "TopoType ev"; cases "relation_target ev")
    (auto simp: topo_turn_def bad_event_def split: sum.splits if_splits)

lemma announces_panic: "app_panic (fold announce ns a) = app_panic a"
  by (induction ns arbitrary: a) (simp_all add: announce_def)

lemma exec_panics:
  assumes "app_exec cd p em x a = Some b" "app_panic b"
  shows "EM_rnibClient em = None \<or> (\<exists>v ev. x = P_Event v ev \<and> bad_event ev)"
  using assms(1)
proof (cases rule: app_exec_cases)
  case (watch v)
  then show ?thesis
    using assms app_exec_ready [OF assms(1)] by (auto simp: app_watch_def topo_end_def split: option.splits)
next
  case (event v ev)
  have "\<nexists>y. topo_turn v ev = Ret y"
    using event(3) assms(2) app_exec_ready [OF assms(1)]
    by (auto simp: app_event_def topo_end_def Let_def announces_panic split: option.splits)
  then show ?thesis using topo_turn_panics event(1) by blast
next
  case closed
  then show ?thesis using assms(2) app_exec_ready [OF assms(1)] by (simp add: topo_end_def)
next
  case (recv j i r s res)
  then show ?thesis using assms(2) app_exec_ready [OF assms(1)] by (auto simp: mon_receive_def Let_def split: sum.splits)
next
  case (inner y t)
  then show ?thesis using assms(2) app_exec_ready [OF assms(1)] by simp
qed (use assms(2) app_exec_ready [OF assms(1)] in
  \<open>auto simp: sub_request_def set_sub_def sub_lookup_def sub_create_def sub_opened_def feed_open_def feed_send_def
    Let_def split: sum.splits prod.splits option.splits\<close>)

lemma internal_crash:
  "internal y \<Longrightarrow> sys_crash (act_do cd p y s) = Some Crash_Indication \<Longrightarrow> sys_crash s = Some Crash_Indication"
  by (cases y) (auto simp: do_simps do_mon_def do_ctrl_def do_node_def Let_def split: go.splits)

lemma announces_crash: "sys_crash (app_sys (fold announce ns a)) = sys_crash (app_sys a)"
  by (induction ns arbitrary: a) (simp_all add: announce_def do_connect_def)

lemma exec_crashes:
  assumes step: "app_exec cd p em x a = Some b" and crash: "sys_crash (app_sys b) = Some Crash_Indication"
  shows "parse_indication cd zero_indication = Panic \<or>
    (\<exists>r j ind. (r, j, ind) \<in> set (app_got b) \<and> parse_indication cd ind = Panic)"
  using step
proof (cases rule: app_exec_cases)
  case (recv j i r s res)
  have "mon_recv cd res (sys_mons (app_sys a) ! j) = Panic \<or> (\<exists>e. mon_recv cd res (sys_mons (app_sys a) ! j) = Fail e)"
    using recv(7) crash app_exec_ready [OF step] by (auto simp: do_recv_def split: go.splits)
  then show ?thesis
    using recv(7) by (auto simp: mon_recv_def mon_receive_def Let_def split: sum.splits if_splits go.splits)
next
  case (inner y t)
  then have "t = act_do cd p y (app_sys a)" by (simp add: exec_act_def split: if_splits)
  then show ?thesis using internal_crash [OF inner(2)] crash inner(4) app_exec_ready [OF step] by auto
next
  case (watch v)
  then show ?thesis
    using crash app_exec_ready [OF step] by (auto simp: app_watch_def topo_end_def do_cancel_def split: option.splits)
next
  case (event v ev)
  then show ?thesis
    using crash app_exec_ready [OF step]
    by (auto simp: app_event_def topo_end_def do_cancel_def Let_def announces_crash split: go.splits option.splits)
next
  case closed
  then show ?thesis using crash app_exec_ready [OF step] by (simp add: topo_end_def do_cancel_def)
qed (use crash app_exec_ready [OF step] in simp_all)

lemma run_crashes:
  "app_run cd p em xs a = Some b \<Longrightarrow> \<not> app_panic a \<Longrightarrow> sys_crash (app_sys a) = None \<Longrightarrow>
   (app_panic b \<longrightarrow> EM_rnibClient em = None \<or> (\<exists>v ev. P_Event v ev \<in> set xs \<and> bad_event ev)) \<and>
   (sys_crash (app_sys b) = Some Crash_Indication \<longrightarrow> parse_indication cd zero_indication = Panic \<or>
      (\<exists>r j ind. (r, j, ind) \<in> set (app_got b) \<and> parse_indication cd ind = Panic))"
proof (induction xs arbitrary: a)
  case (Cons x xs)
  then obtain c where c: "app_exec cd p em x a = Some c" "app_run cd p em xs c = Some b"
    by (auto split: option.splits)
  show ?case
  proof (cases "app_panic c \<or> sys_crash (app_sys c) \<noteq> None")
    case True
    then have "xs = []" using c(2) by (cases xs) (auto simp: app_exec_def)
    then have "b = c" using c(2) by simp
    then show ?thesis using exec_panics [OF c(1)] exec_crashes [OF c(1)] by fastforce
  next
    case False
    then show ?thesis using Cons.IH [OF c(2)] by fastforce
  qed
qed simp

subsection \<open>Property\<close>

text \<open>
  C13. What can crash the process, under every interleaving of all its goroutines. A northbound request
  never does: no handler dereferences a missing value, although values are replaced while it reads. The
  topology watch does only without a topology client, or on an event that is not about a relation
  (the filter of the watch asks for relations). The goroutines of the handovers do only on a received
  indication whose parsing panics (the zero indication stands in for one after a receive error), or on
  a send to the channel of a watcher after the topology watch has returned: never in the controller,
  the handler of a node, or the monitor once the indication is parsed.
\<close>

theorem process_crash_causes:
  fixes xs :: "'f prog_act list"
  assumes "prog_run cd p em xs prog_init = Some g"
  shows "\<not> pg_panic g \<and>
    (app_panic (pg_app g) \<longrightarrow> EM_rnibClient em = None \<or>
       (\<exists>v ev. G_App (P_Event v ev) \<in> set xs \<and> (\<nexists>r. Obj (TopoObject ev) = Object_Relation (Some r)))) \<and>
    (case sys_crash (app_sys (pg_app g)) of
       None \<Rightarrow> True
     | Some Crash_Indication \<Rightarrow> parse_indication cd zero_indication = Panic \<or>
         (\<exists>r j ind. (r, j, ind) \<in> set (app_got (pg_app g)) \<and> parse_indication cd ind = Panic)
     | Some Crash_Send \<Rightarrow> app_topo (pg_app g) = W_Ended
     | _ \<Rightarrow> False)"
proof (intro conjI)
  show "\<not> pg_panic g" using prog_run_inv [OF assms] by (simp add: prog_inv_def)
  have run: "app_run cd p em (app_part xs) app_init = Some (pg_app g)"
    using prog_run_app [OF assms] by (simp add: prog_init_def)
  have c: "(app_panic (pg_app g) \<longrightarrow> EM_rnibClient em = None \<or> (\<exists>v ev. P_Event v ev \<in> set (app_part xs) \<and> bad_event ev)) \<and>
     (sys_crash (app_sys (pg_app g)) = Some Crash_Indication \<longrightarrow> parse_indication cd zero_indication = Panic \<or>
      (\<exists>r j ind. (r, j, ind) \<in> set (app_got (pg_app g)) \<and> parse_indication cd ind = Panic))"
    by (rule run_crashes [OF run]) (simp_all add: app_init_def sys_init_def)
  have part: "y \<in> set (app_part ys) \<Longrightarrow> G_App y \<in> set ys" for y and ys :: "'f prog_act list"
    by (induction ys) (auto split: prog_act.splits)
  show "app_panic (pg_app g) \<longrightarrow> EM_rnibClient em = None \<or>
       (\<exists>v ev. G_App (P_Event v ev) \<in> set xs \<and> (\<nexists>r. Obj (TopoObject ev) = Object_Relation (Some r)))"
    using c part bad_event_object by blast
  have "crash_ok (app_sys (pg_app g))" by (rule sys_invD(7) [OF prog_run_init(3) [OF assms]])
  moreover have "sys_cancelled (app_sys (pg_app g)) \<longleftrightarrow> app_topo (pg_app g) = W_Ended"
    by (rule app_okD(1) [OF prog_run_init(1) [OF assms]])
  ultimately show "case sys_crash (app_sys (pg_app g)) of
       None \<Rightarrow> True
     | Some Crash_Indication \<Rightarrow> parse_indication cd zero_indication = Panic \<or>
         (\<exists>r j ind. (r, j, ind) \<in> set (app_got (pg_app g)) \<and> parse_indication cd ind = Panic)
     | Some Crash_Send \<Rightarrow> app_topo (pg_app g) = W_Ended
     | _ \<Rightarrow> False"
    using c by (auto simp: crash_ok_def split: option.split crash.split)
qed

text \<open>An indication of another message format is fed to the stream of the node.\<close>

definition bad_feed :: "unit prog_act list" where
  "bad_feed = map G_App (app_up @ [P_FeedSend 0 (sample_ind 9), P_Drain 0, P_Recv 0 0])"

lemma bad_feed_parse: "parse_indication sample_codec (sample_ind 9) = Panic"
  by (simp add: parse_indication_def sample_codec_def sample_ind_def GetIndicationHeaderFormat2_def sample_ue_def
      GetIndicationMessageFormat5_def target_cell_def GetGNbUeid_def)

lemma bad_feed_run:
  "\<exists>g. prog_run sample_codec sample_pdu sample_manager bad_feed prog_init = Some g \<and>
    sys_crash (app_sys (pg_app g)) = Some Crash_Indication \<and> app_got (pg_app g) = [(0, 0, sample_ind 9)]"
  by (simp add: bad_feed_def app_up_def request_run_simps app_run_simps run_simps sample_watch sample_turn
      sample_request bad_feed_parse)

theorem process_crash_causes_witness:
  "\<exists>g. prog_run sample_codec sample_pdu sample_manager bad_feed prog_init = Some g \<and>
    sys_crash (app_sys (pg_app g)) = Some Crash_Indication \<and> \<not> app_panic (pg_app g) \<and> \<not> pg_panic g \<and>
    (\<exists>r j ind. (r, j, ind) \<in> set (app_got (pg_app g)) \<and> parse_indication sample_codec ind = Panic)"
proof -
  obtain g where g: "prog_run sample_codec sample_pdu sample_manager bad_feed prog_init = Some g"
    "sys_crash (app_sys (pg_app g)) = Some Crash_Indication" "app_got (pg_app g) = [(0, 0, sample_ind 9)]"
    using bad_feed_run by blast
  have c: "\<nexists>v ev. G_App (P_Event v ev) \<in> set bad_feed \<and> (\<nexists>r. Obj (TopoObject ev) = Object_Relation (Some r))"
    by (auto simp: bad_feed_def app_up_def relation_event_def control_relation_def)
  have "EM_rnibClient sample_manager \<noteq> None" "parse_indication sample_codec zero_indication \<noteq> Panic"
    using sample_watch(2) sample_parse(3) by simp_all
  then show ?thesis using process_crash_causes [OF g(1)] g c by auto
qed

end
