(* ===== verification/Spec2Isabelle.thy ===== *)
theory Spec2Isabelle
  imports Mho_Settling Mho_Rounds Mho_Monitor_Props Mho_Northbound Mho_Main Mho_Delivery Mho_Dynamic Mho_Replies
    Mho_Bounds Mho_Reported Mho_Shutdown Mho_Feeds Mho_Crashes
begin

text \<open>
  Verification library for onos-mho, the mobile handover xApp of the SD-RAN project (Go, all
  paths below are under src/).

  What the program does. A base station (E2 node) sends an indication when a UE should be handed
  over to another cell. For every connected node the southbound (pkg/southbound/e2) makes a
  subscription, whose indications go through a buffered stream (pkg/broker) to a monitor
  (pkg/monitoring). The monitor keeps one row per UE in the metric store (pkg/store), which
  announces every change to its watchers. The controller (pkg/controller) watches the store
  and approves new requests; the southbound watches the store once per node, sends the control
  message of an approved request to its node, and marks the row done. A gRPC service
  (pkg/northbound) lists UEs and cells. cmd/onos-mho and pkg/manager build and start all of it.

  Theories, in the order of the imports.
  \<^item> \<open>Prelude\<close>: Go errors, panics, nil, slices and the iteration order of maps.
  \<^item> \<open>Mho_Const\<close>: pkg/definition/def.go. \<open>Ue_Id\<close>: pkg/utils/id/id.go, the key of a UE.
    \<open>Ran_Param\<close>: pkg/utils/ranparam/parser.go. \<open>Rc_Pdu\<close>: pkg/utils/control and
    pkg/utils/subscription, over the message builders of a library.
  \<^item> \<open>Metric_Store\<close>: pkg/store, with an explicit heap for the shared \<open>*MetricValue\<close> objects.
    The locales \<open>store_contract\<close> and \<open>notifying_store\<close> state the interface \<open>Store\<close>;
    \<open>Ue_Table\<close> has the well-formedness of store and heap, the abstract table of UEs, and the
    state machine that the comment of types.go draws.
  \<^item> \<open>Mho_Monitor\<close>, \<open>Mho_Controller\<close>, \<open>Mho_Southbound\<close>: the handlers of monitor.go, mho.go and of
    \<open>watchMHOChanges\<close> in southbound/e2/manager.go, each once as a whole
    (\<open>processIndication\<close>, \<open>controlHandover_event\<close>, \<open>watchMHOChanges_event\<close>) and once cut into
    the steps between which another goroutine can run (\<open>monitor_step\<close>, \<open>ctrl_step\<close>,
    \<open>node_step\<close>), with a lemma that the steps compose to the whole.
  \<^item> \<open>Mho_Invariants\<close>: what every such step keeps; the locale \<open>guarded_process\<close> is the contract
    of a process under interference, interpreted for the three handlers. \<open>Mho_System\<close>: the
    goroutines of the running application as a step relation, with cancellation of the E2
    context, and its invariant. \<open>Mho_Traces\<close>: an executable scheduler for the same steps
    and concrete runs. \<open>Mho_Settling\<close>: who reads which channel, and the work that is left.
    \<open>Mho_Rounds\<close>: the orderly schedule, in which each event is handled by the controller and
    then by the watchers before the next one. \<open>Mho_Mailbox\<close>: the events on their way to one
    reader, as a multiset, and what each step does to it. \<open>Mho_Steady\<close>: the stages of an
    undisturbed handover, each identified by the one event, program point or stored state that
    carries it on, and the proof that every step keeps or advances the stage.
    \<open>Mho_Monitor_Props\<close>: properties of the monitor. \<open>Mho_Samples\<close>: concrete inputs.
  \<^item> \<open>Mho_Stream\<close>, \<open>Mho_Broker\<close>: pkg/broker; locales \<open>fifo_channel\<close>, \<open>bounded_channel\<close>,
    \<open>broker_contract\<close>. \<open>Mho_Rnib\<close>: pkg/rnib. \<open>Mho_Options\<close>: both options.go and the
    constructors; locale \<open>option_setter\<close>. \<open>Mho_E2_Manager\<close>: topology events, subscriptions
    and stream feeding of southbound/e2/manager.go. \<open>Mho_Config\<close>: pkg/config; locale
    \<open>config_getter\<close>. \<open>Mho_Northbound\<close>: pkg/northbound. \<open>Mho_Main\<close>: pkg/manager and
    cmd/onos-mho.
  \<^item> \<open>Mho_App\<close>: the southbound application as one interleaved program: the topology watch,
    a subscription and a feeding goroutine per announced node, the streams of the broker, and
    the running system of \<open>Mho_System\<close> behind the monitors (\<open>app_exec\<close>). What an SDK call
    answers is an argument of its step. The histories \<open>app_taken\<close>, \<open>app_fed\<close> and \<open>app_got\<close>
    record what the feeding goroutines took from their channels, what the streams accepted of it,
    and what came out of them. \<open>Mho_Delivery\<close>: the steps that the application takes on
    its own, the budget they use up, and where they end. \<open>Mho_Feeds\<close>: the three histories
    compared (\<open>feeds_ok\<close>).
  \<^item> \<open>Mho_Requests\<close>: the whole process (\<open>prog_exec\<close>), the application and any number of
    northbound requests, each with its handler and its reading goroutine (\<open>request\<close>), which meet
    on the unbuffered channel of \<open>Entries\<close>. \<open>pg_lock\<close> is the mutex of the store: \<open>Entries\<close> holds
    it over many steps, the other calls of the store (\<open>needs_lock\<close>) are one step each and wait
    for it. The start state \<open>prog_init\<close> is the process once \<open>manager.Run\<close> has returned.
    \<open>Mho_Replies\<close>: that requests complete, and a request that arrives at rest.
  \<^item> \<open>Mho_Bounds\<close>: a count of all events there ever were, each of which pays for what its readers
    may still do (\<open>budget_ok\<close>), kept by every step of \<open>Mho_System\<close>. \<open>Mho_Reported\<close>: what the state
    Done vouches for (\<open>done_ok\<close>), carried to the replies of \<open>Mho_Requests\<close>. \<open>Mho_Shutdown\<close>: the
    process after its topology watch has returned (\<open>frozen\<close>). \<open>Mho_Crashes\<close>: which step can panic.
  \<^item> \<open>Mho_Dynamic\<close>: \<open>Entry.Value\<close> and the fields of \<open>Event\<close> with the type the source
    gives them (interface\{\}), as values that carry their type, and the handlers with every type
    assertion executed. The other theories give these fields the asserted type; here the
    assertions are shown to hold, by a typing judgement (\<open>has_type\<close>), and the lemma
    \<open>typed_model_exact\<close> says that the two renderings compute the same.

  How code is rendered. A struct is a record with the source's field names where they do not
  clash, an enumeration a datatype. A pointer that is dereferenced is an index into a heap
  list; a pointer to a message is an option. A call returns a value, an error or a panic
  (\<open>'a go\<close>), or an error or a value where it cannot panic. Error kinds are kept, rendered
  messages are not. Map iteration takes its order as an argument, so a property proved for all
  orders holds for every run of Go. Each critical section of a mutex is one step, but for \<open>Entries\<close>, which
  waits for its reader (\<open>Mho_Requests\<close>). Libraries
  (protobuf unmarshalling, the PDU builders, the E2, topology and configuration SDKs, the gRPC
  server) are arguments of the definitions that use them.

  What is shown. For the system: a handover completes under the orderly schedule (\<open>handover_round\<close>), the
  system comes to rest under every schedule (\<open>system_settles\<close>), control messages and rows are
  justified by accepted indications under every schedule (\<open>control_provenance\<close>,
  \<open>table_provenance\<close>), and the only panics are the ones named in \<open>crash_causes\<close>, each of which
  does occur. Interleavings that lose, repeat or strand a handover, or silence the controller,
  are exhibited as reachable states; \<open>steady_handover\<close> says what excludes them: with the
  watchers registered, one node and one target per UE and no cancellation (\<open>undisturbed\<close>),
  every schedule completes the handover with exactly one control message.
  For the whole application: what the handlers see is a reachable state of that system
  (lemma \<open>app_refines_system\<close>), the streams reorder nothing and hand on all they accept, and a
  feeding goroutine loses at most the one indication that a full stream refuses (\<open>pipeline_fifo\<close>, for
  a codec that decodes no bytes to a header without a format, \<open>empty_decodes\<close>), and a control
  message can be traced to an indication that the SDK delivered for its own node (\<open>control_end_to_end\<close>, when no two nodes
  were given the same channel identifier). Left to itself the application settles
  (\<open>app_settles\<close>), and an indication of an undisturbed UE that the SDK delivered ends, in every
  schedule, in exactly one control message (\<open>indication_handed_over\<close>), unless the monitor has
  been blocked by two earlier errors.
  For the whole process: the requests leave the application alone (lemma \<open>program_refines_app\<close>),
  what can crash it is named (\<open>process_crash_causes\<close>: never a request), no
  record changes while one is listing them (\<open>entries_exclusive\<close>), a reply is the one of the
  sequential handler of \<open>Mho_Northbound\<close> at one moment of the request, except that a row of
  \<open>GetUes\<close> may show the state of another moment of it (\<open>requests_linearizable\<close>), every request
  is answered (\<open>requests_complete\<close>), and what the SDK delivered is what a later \<open>GetUes\<close> reports
  (\<open>handover_reported\<close>). A UE that a reply reports as done has had its control message handed to
  the E2 client (\<open>done_was_handed_over\<close>). However many events cross, a node is sent at most one control
  message per accepted indication and watcher (\<open>control_bound\<close>). When the watch ends, on one
  removed node without cells, the handovers of all nodes stop for good
  (\<open>removal_freezes_handovers\<close>). The invariant behind these is \<open>prog_inv\<close>; it remembers for each
  request the state in which it took the lock (\<open>covered\<close>). No type assertion fails (\<open>type_assertions_hold\<close>).
  For the components: refinement of the store to a map with exact notifications, of the
  monitor to the update of one row, first-in-first-out delivery of streams, agreement of the
  broker's two maps, which UE identifiers share a key (\<open>ue_key_exact\<close>), when a subscription is set up
  (\<open>createSubscription_wired\<close>), how the receive loop of a monitor ends (\<open>monitor_loop_errors\<close>), the
  round trip of the target cell through the control message, exact counts in the northbound lists, and the behaviour of the
  remaining operations on every branch.

  Bounds. The monitor's handler needs at most four steps, the controller's three and the
  southbound's four (\<open>monitor_run_record_target\<close>, \<open>controller_robust\<close>, \<open>node_run_event\<close>). A handover
  settles within \<open>2 + c\<close> events, \<open>c\<close> being how often its node is connected: the creation or
  update, its approval, and one Done per watcher of the node. A stream of \<open>n\<close> pending
  indications is drained within \<open>2 n\<close> steps of reader and drain goroutine. \<open>work\<close> bounds the
  steps of the running system, \<open>app_work\<close> those of the application, and \<open>prog_work\<close> those of the
  process: a request that waits for the lock may have to list the keys there are now and one
  more for each step the application has left (\<open>key_bound\<close>). The control messages of a node are
  bounded by the accepted indications times its watchers; two indications and one watcher can use
  the bound up (\<open>double_run\<close>).

  Not modelled. Log output and error texts (one format string lacks its verb, monitor.go
  line 124). Data races proper: every step reads and writes consistent values, so what a
  torn or unsynchronised access could do is outside the model; so is the abort of the Go
  runtime on a map written while it is iterated (\<open>Send\<close> ranges over the watchers without the
  lock; the effect of a late watcher on the range is modelled). Identifiers that the code
  generates (UUIDs, the stream counter) are fresh and unbounded. The gRPC library behind \<open>Register\<close>, the cancellation of a request by its
  client (neither handler looks at its context), \<open>Manager.Close\<close>, which only logs, and the test
  drivers under test/ have no definitions.
\<close>

section \<open>Properties that span the components\<close>

text \<open>
  C9. A handover runs to its end under the orderly schedule. On a well-formed store with no
  event pending, an indication for a UE that is new or asks for another target is followed by
  at most \<open>2 + c\<close> events, where \<open>c\<close> is how often its node is connected: exactly \<open>c\<close>
  identical control messages go to that node (one, if each node is connected once), for the
  UE, the target cell and the call process of that indication; the row ends in state Done (or
  stays Approved if the node has no watcher), no other row changes, and nothing is left
  pending.
\<close>

theorem handover_round:
  assumes "wf_world w" "sends (mstore w) = []" "parse_indication cd ind = Ret rq"
    and "\<forall>s. ue_table w (rq_key rq) \<noteq> Some (rq_tgt rq, s)"
  shows "\<exists>w'. settle p ns (2 + count_list ns n) (fst (processIndication cd ind n w)) =
              Ret (w', replicate (count_list ns n) (control_for p n (new_value rq n))) \<and>
           sends (mstore w') = [] \<and> wf_world w' \<and>
           ue_table w' = (ue_table w)(rq_key rq \<mapsto> (rq_tgt rq, if n \<in> set ns then Done else Approved))"
  using handover_settles [OF assms(1,2) parse_indication_ok [OF assms(3)], where p = p and ns = ns and n = n] assms(3,4)
  by (simp add: processIndication_def processInsertIndicationHeader2Message5_def)

theorem handover_round_witness:
  "\<exists>w'. settle sample_pdu [''n0'', ''n1''] 3
          (fst (processIndication sample_codec (sample_ind 1) ''n1'' new_world)) =
        Ret (w', [control_for sample_pdu ''n1'' (new_value sample_rq1 ''n1'')]) \<and>
      ue_table w' sample_key = Some (''c1'', Done)"
proof -
  have h: "sends (mstore new_world) = []"
    "\<forall>s. ue_table new_world (rq_key sample_rq1) \<noteq> Some (rq_tgt sample_rq1, s)"
    by (simp_all add: new_world_def ue_table_def)
  show ?thesis
    using handover_round [OF wf_world_new h(1) sample_parse(1) h(2), of sample_pdu "[''n0'', ''n1'']" "''n1''"]
    by (auto simp: eval_nat_numeral)
qed

text \<open>
  C12. What can bring the process down: in every reachable state of the running system, the only
  causes of a crash are a malformed indication in the monitor's parser, and, once the topology
  watch has returned, an event sent to a watcher whose channel was closed. In particular the
  unchecked entry after a failed \<open>Get\<close> in the controller and in the southbound is never nil.
\<close>

theorem crash_causes:
  assumes "reachable cd p s"
  shows "sys_crash s \<in> {None, Some Crash_Indication} \<or> sys_crash s = Some Crash_Send \<and> sys_cancelled s"
  using sys_invD(7) [OF reachable_inv [OF assms]] by (simp add: crash_ok_def)

theorem crash_causes_witness:
  "\<exists>t. exec_acts sample_codec sample_pdu closing_run sys_init = Some t \<and>
       sys_crash t = Some Crash_Send \<and> sys_cancelled t"
proof -
  obtain t where t: "exec_acts sample_codec sample_pdu closing_run sys_init = Some t"
    "sys_crash t = Some Crash_Send"
    using closing_run_result by blast
  with crash_causes [OF exec_acts_reachable [OF t(1) reach_init]] show ?thesis by auto
qed

text \<open>
  The running system comes to rest: from any reachable state that has not crashed, as long
  as the topology watch goes on, the steps that can follow without a new connection or
  indication are bounded by \<open>work\<close>, whatever the schedule, and wherever such a run cannot go on
  it has left nothing under way: every event is delivered, every handler is back in its loop.
  There is no deadlock between the unbuffered channels, and no endless exchange of events.
\<close>

lemma system_settles:
  assumes "reachable cd p s" "sys_crash s = None" "\<not> sys_cancelled s"
    and "exec_acts cd p as s = Some t" "\<forall>a \<in> set as. internal a"
  shows "length as \<le> work s \<and> (quiescent t \<or> (\<exists>a u. internal a \<and> exec_act cd p a t = Some u))"
  using internal_run_rests [OF assms] internal_bound [OF assms(4) reachable_chan_ok [OF assms(1)] assms(5)]
  by simp


text \<open>
  A malformed indication does crash the process: an indication with a gNB UE identifier
  whose message has no requested parameter (here one of another message format) is reachable
  input, and the handler indexes the empty list.
\<close>

lemma malformed_indication_crashes:
  "\<exists>s. reachable sample_codec p s \<and> sys_crash s = Some Crash_Indication"
proof -
  have "\<exists>t. exec_acts sample_codec p [A_Connect ''n1'', A_Recv 0 (Inr (sample_ind 3))] sys_init = Some t \<and>
      sys_crash t = Some Crash_Indication"
    by (simp add: run_simps parse_indication_def sample_ind_def sample_codec_def target_cell_def
        GetIndicationHeaderFormat2_def GetIndicationMessageFormat5_def GetGNbUeid_def sample_ue_def)
  then show ?thesis using exec_acts_reachable [OF _ reach_init] by blast
qed

text \<open>
  Every control message is justified: in every reachable state, whatever the interleaving,
  each control message handed to the E2 client for a node has the header, the payload and the
  call process identifier of one and the same indication that was accepted from that node.
  Messages never mix the UE of one indication with the target or the call of another, and
  never go to another node.
\<close>

lemma control_provenance:
  assumes "reachable cd p s" "c \<in> set (sys_controls s)"
  shows "\<exists>rq. (cm_node c, rq) \<in> set (sys_inds s) \<and>
    cm_header c = bytes_or_nil (CreateRcControlHeader p (rq_ue rq)) \<and>
    cm_payload c = bytes_or_nil (CreateRcControlMessage p (rq_tgt rq)) \<and>
    cm_cpid c = rq_cpid rq"
  using sys_invD(6) [OF reachable_inv [OF assms(1)] assms(2)] by (simp add: control_ok_def)

text \<open>
  C15. The UE table never invents a request: in every reachable state, the target cell stored
  for a UE is one that an accepted indication with that UE's key asked for, and the state
  stored is StateCreated, Approved or Done. Waiting and Denied, which the comment in types.go
  draws, are never stored.
\<close>

theorem table_provenance:
  assumes "reachable cd p s" "ue_table (sys_world s) k = Some (t, st)"
  shows "st \<in> {StateCreated, Approved, Done} \<and>
    (\<exists>n rq. (n, rq) \<in> set (sys_inds s) \<and> rq_key rq = k \<and> rq_tgt rq = t)"
proof -
  have ok: "world_ok (sys_inds s) (sys_world s)"
    using reachable_inv [OF assms(1)] by (rule sys_invD)
  obtain e where e: "records (mstore (sys_world s)) k = Some e"
    "t = TgtCellID (heap (sys_world s) ! Value e)" "st = State (heap (sys_world s) ! Value e)"
    using assms(2) by (auto simp: ue_table_def split: option.splits)
  note wf = wf_worldD [OF world_okD(1) [OF ok] e(1)]
  obtain rq where "rq_ok rq" "(E2NodeID (heap (sys_world s) ! Value e), rq) \<in> set (sys_inds s)"
    "RawUEID (heap (sys_world s) ! Value e) = rq_ue rq" "t = rq_tgt rq" "st \<in> live_states"
    using world_okD(2) [OF ok wf(2)] e(2,3) by (auto simp: val_ok_def)
  moreover from this have "rq_key rq = k" using wf(3) by (simp add: rq_ok_def)
  ultimately show ?thesis by (auto simp: live_states_def)
qed

theorem table_provenance_witness:
  "\<exists>t. reachable sample_codec sample_pdu t \<and> ue_table (sys_world t) sample_key = Some (''c2'', Done) \<and>
     (\<exists>n rq. (n, rq) \<in> set (sys_inds t) \<and> rq_key rq = sample_key \<and> rq_tgt rq = ''c2'')"
proof -
  obtain t where t: "exec_acts sample_codec sample_pdu double_run sys_init = Some t"
    "ue_table (sys_world t) sample_key = Some (''c2'', Done)"
    using double_run_result by blast
  then have r: "reachable sample_codec sample_pdu t"
    by (blast intro: exec_acts_reachable reach_init)
  show ?thesis using r t(2) table_provenance [OF r t(2)] by blast
qed

text \<open>
  C19. Handovers can be lost: there is an interleaving of one UE's two indications (target c1,
  then c2) after which the system is quiescent, two control messages were sent, both for the
  old target c1, and the row says c1, Done. The southbound marks the value it had read as done
  and puts it back over the newer request.
\<close>

theorem handover_lost:
  "\<exists>s. reachable sample_codec sample_pdu s \<and> quiescent s \<and>
     sys_inds s = [(''n1'', sample_rq1), (''n1'', sample_rq2)] \<and>
     sys_controls s = [sample_control sample_rq1, sample_control sample_rq1] \<and>
     ue_table (sys_world s) sample_key = Some (''c1'', Done)"
  using lost_run_result exec_acts_reachable [OF _ reach_init] by blast


text \<open>
  An early indication is never acted on: if it is stored before the controller goroutine
  has called \<open>Watch\<close>, its event has no reader, and repeating the indication afterwards does
  not help; the system is quiescent with the UE in StateCreated and no control message sent.
\<close>

lemma early_indication_stuck:
  "\<exists>s. reachable sample_codec sample_pdu s \<and> quiescent s \<and>
     sys_inds s = [(''n1'', sample_rq1), (''n1'', sample_rq1)] \<and> sys_controls s = [] \<and>
     ue_table (sys_world s) sample_key = Some (''c1'', StateCreated)"
  using early_run_result exec_acts_reachable [OF _ reach_init] by blast

text \<open>
  The controller finishes whatever the rest of the system does: started on an event whose
  key is stored, with other goroutines moving the world between its steps in any way that
  keeps the shared invariant, lets the heap grow and only changes state fields, it is back in
  its range loop after three steps, with no error, no panic and a well-formed store.
\<close>

lemma controller_robust:
  assumes "world_ok inds w" "ev_ok w e" "\<forall>env \<in> set envs. env_ok inds env" "length envs = 3"
  shows "\<exists>w'. interleaved (\<lambda>pc w. silent (ctrl_step pc w)) envs (C_Event e) w = Ret (w', C_Range, []) \<and>
    wf_world w'"
proof -
  have "ctrl_ok w (C_Event e)" using assms(2) by simp
  then obtain w' pc' out where r:
    "interleaved (\<lambda>pc w. silent (ctrl_step pc w)) envs (C_Event e) w = Ret (w', pc', out)" "world_ok inds w'"
    using ctl.interleaved_ok [OF assms(1) _ assms(3)] by blast
  with interleaved_ctrl [OF r(1)] assms(4) show ?thesis
    by (auto simp: ctrl_rank_0 dest: world_okD)
qed

end
